(* ===== verification/Kerbecs_Prelude.thy ===== *)
theory Kerbecs_Prelude
  imports Main "HOL-Library.Word"
begin

text \<open>
  Shared vocabulary of the development: the machine types of the x86-64 build, the byte memory,
  the result type of operations that can stop the process, and the generic lemmas on words,
  address ranges and lists that the component theories rest on.

  \<^item> \<open>size_t\<close>, \<open>uintptr_t\<close> and \<open>uint64_t\<close> are \<open>64 word\<close>; a pointer is the address it holds and
    \<open>nullptr\<close> is \<open>0\<close>. Arithmetic wraps, as it does in the code.
  \<^item> Memory is a total map from addresses to bytes; \<open>mem_set\<close> is \<open>std::memset\<close> and \<open>mem_write\<close>
    is a store of consecutive bytes.
  \<^item> \<open>outcome\<close> is the result of an operation that may trap (\<open>KERBECS_TRAP\<close>) or whose behaviour the
    language leaves undefined; an operation that cannot trap uses \<open>option\<close>, \<open>None\<close> being
    undefined behaviour.
\<close>

unbundle bit_operations_syntax

type_synonym u8 = "8 word"
type_synonym u32 = "32 word"
type_synonym u64 = "64 word"
type_synonym addr = "64 word"
type_synonym memory = "addr \<Rightarrow> u8"

abbreviation null :: addr where
  "null \<equiv> 0"

named_theorems layout_simps "offsets and sizes of the block layouts"
named_theorems reg_simps "field equations of the allocation registry"
named_theorems env_simps "fields that an operation leaves alone"

datatype ('s, 'a) outcome = Ret 's 'a | Trap 's | Undefined

subsection \<open>Words read as natural numbers\<close>

lemma unat_lt_64 [simp]: "unat (w :: u64) < 18446744073709551616"
  using unsigned_less [of w] by simp

lemma unat_le_64 [simp]: "unat (w :: u64) \<le> 18446744073709551616"
  using unat_lt_64 [of w] by linarith

lemma unat_plus_nowrap:
  "unat (a :: u64) + unat b < 18446744073709551616 \<Longrightarrow> unat (a + b) = unat a + unat b"
  by (simp add: unat_word_ariths)

lemma unat_minus_le: "b \<le> a \<Longrightarrow> unat (a - b :: u64) = unat a - unat b"
  by (simp add: unat_sub)

lemma unat_succ_nowrap:
  "unat (a :: u64) < 18446744073709551615 \<Longrightarrow> unat (a + 1) = Suc (unat a)"
  by (simp add: unat_word_ariths)

lemma unat_of_nat_64: "n < 18446744073709551616 \<Longrightarrow> unat (of_nat n :: u64) = n"
  by (simp add: unat_of_nat take_bit_eq_mod)

lemma word_eq_iff_unat: "(a :: u64) = b \<longleftrightarrow> unat a = unat b"
  by (simp add: word_unat_eq_iff)

subsection \<open>Address ranges\<close>

text \<open>
  \<open>in_range a p n\<close>: address \<open>a\<close> is one of the \<open>n\<close> bytes that start at \<open>p\<close>. Written with the
  wrapping difference it is exact for every \<open>p\<close>, ranges that cross the top of the address space
  included.
\<close>

definition in_range :: "addr \<Rightarrow> addr \<Rightarrow> u64 \<Rightarrow> bool" where
  "in_range a p n \<longleftrightarrow> a - p < n"

definition mem_set :: "memory \<Rightarrow> addr \<Rightarrow> u8 \<Rightarrow> u64 \<Rightarrow> memory" where
  "mem_set m p v n = (\<lambda>a. if in_range a p n then v else m a)"

definition mem_write :: "memory \<Rightarrow> addr \<Rightarrow> u8 list \<Rightarrow> memory" where
  "mem_write m p bs = (\<lambda>a. if unat (a - p) < length bs then bs ! unat (a - p) else m a)"

lemma unat_minus_offset:
  "unat (a - (p + off)) = (if unat off \<le> unat (a - p) then unat (a - p) - unat off
     else 18446744073709551616 + unat (a - p) - unat off)" for a p off :: u64
proof -
  define r where "r = a - p"
  have split: "a - (p + off) = r - off" by (simp add: r_def algebra_simps)
  show ?thesis
  proof (cases "off \<le> r")
    case True
    then have "unat (r - off) = unat r - unat off" by (rule unat_minus_le)
    with True show ?thesis unfolding split r_def [symmetric] by (simp add: word_le_nat_alt)
  next
    case False
    then have lt: "unat r < unat off" by (simp add: word_le_nat_alt)
    have "unat (r - off) = 18446744073709551616 + unat r - unat off"
      using lt unat_lt_64 [of off] by (simp add: unat_sub_if_size word_size word_le_nat_alt)
    with lt show ?thesis unfolding split r_def [symmetric] by simp
  qed
qed

lemma in_range_offset:
  assumes "unat off + unat n \<le> 18446744073709551616"
  shows "in_range a (p + off) n \<longleftrightarrow> unat off \<le> unat (a - p) \<and> unat (a - p) < unat off + unat n"
  using assms by (auto simp: in_range_def word_less_nat_alt unat_minus_offset)

lemma in_range_base: "in_range a p n \<longleftrightarrow> unat (a - p) < unat n"
  by (simp add: in_range_def word_less_nat_alt)

lemma mem_set_apply: "mem_set m p v n a = (if in_range a p n then v else m a)"
  by (simp add: mem_set_def)

lemma mem_set_zero [simp]: "mem_set m p v 0 = m"
  by (simp add: mem_set_def in_range_def)

lemma mem_write_Nil [simp]: "mem_write m p [] = m"
  by (simp add: mem_write_def)

lemma add_of_nat_minus: "p + of_nat i - p = (of_nat i :: u64)"
  by simp

subsection \<open>Powers of two\<close>

definition is_pow2 :: "u64 \<Rightarrow> bool" where
  "is_pow2 a \<longleftrightarrow> a \<noteq> 0 \<and> a AND (a - 1) = 0"

lemma and_not_mask_unat:
  "unat (w AND NOT (mask k) :: u64) = unat w div 2 ^ k * 2 ^ k"
proof -
  have "(w AND mask k) + (w AND NOT (mask k)) = w"
    by (subst disjunctive_add) (auto simp: bit_simps intro: bit_word_eqI)
  then have sum: "w AND NOT (mask k) = w - take_bit k w"
    by (simp add: take_bit_eq_mask algebra_simps)
  have le: "take_bit k w \<le> w"
    unfolding word_le_nat_alt unsigned_take_bit_eq by (rule take_bit_nat_less_eq_self)
  have "unat (w - take_bit k w) = unat w - unat (take_bit k w)"
    using le by (rule unat_minus_le)
  also have "unat (take_bit k w) = unat w mod 2 ^ k"
    unfolding unsigned_take_bit_eq by (simp add: take_bit_eq_mod)
  finally have "unat (w - take_bit k w) = unat w - unat w mod 2 ^ k" .
  then show ?thesis unfolding sum by (simp add: minus_mod_eq_div_mult)
qed

lemma pow2_word_nonzero: "k < 64 \<Longrightarrow> (2 :: u64) ^ k \<noteq> 0"
  by simp

lemma unat_pow2: "k < 64 \<Longrightarrow> unat (2 ^ k :: u64) = 2 ^ k"
proof -
  assume "k < 64"
  then have "(2::nat) ^ k < 2 ^ 64" by (rule power_strict_increasing) simp
  then have "unat (of_nat (2 ^ k) :: u64) = 2 ^ k" by (subst unat_of_nat) (simp add: take_bit_eq_mod)
  then show ?thesis by simp
qed

lemma is_pow2_power: "k < 64 \<Longrightarrow> is_pow2 (2 ^ k)"
proof -
  assume "k < 64"
  have "(2 :: u64) ^ k AND (2 ^ k - 1) = 0"
    by (rule bit_word_eqI) (simp add: bit_simps flip: mask_eq_exp_minus_1)
  with \<open>k < 64\<close> show ?thesis by (simp add: is_pow2_def)
qed

lemma is_pow2E:
  assumes "is_pow2 a"
  obtains k where "k < 64" and "a = 2 ^ k"
proof -
  from assms have "a \<noteq> 0" and zero: "a AND (a - 1) = 0" by (auto simp: is_pow2_def)
  from \<open>a \<noteq> 0\<close> obtain n where n: "bit a n"
    by (auto simp: bit_eq_iff)
  define k where "k = (LEAST m. bit a m)"
  have k: "bit a k" unfolding k_def using n by (rule LeastI)
  then have k64: "k < 64" using bit_imp_le_length by fastforce
  have below: "\<And>m. m < k \<Longrightarrow> \<not> bit a m" unfolding k_def by (rule not_less_Least)
  define b where "b = unset_bit k a"
  have bb: "\<And>m. bit b m \<longleftrightarrow> bit a m \<and> m > k"
    unfolding b_def by (auto simp: bit_unset_bit_iff) (metis below linorder_neqE_nat)
  have "b + 2 ^ k = b OR 2 ^ k"
    by (rule disjunctive_add_eq_or) (auto intro!: bit_word_eqI simp: bit_simps bb)
  also have "\<dots> = a"
    using k below by (auto intro!: bit_word_eqI simp: bit_simps bb) (metis linorder_neqE_nat)
  finally have a: "a = b + 2 ^ k" by simp
  then have "a - 1 = b + mask k" by (simp add: mask_eq_exp_minus_1)
  also have "\<dots> = b OR mask k"
    by (rule disjunctive_add_eq_or) (auto intro!: bit_word_eqI simp: bit_simps bb)
  finally have a1: "a - 1 = b OR mask k" .
  have "b = 0"
  proof (rule bit_word_eqI)
    fix m assume "m < LENGTH(64)"
    have "\<not> bit (a AND (a - 1)) m" using zero by simp
    then show "bit b m = bit 0 m" unfolding a1 by (auto simp: bit_simps bb)
  qed
  with a k64 that show thesis by simp
qed

end
