(* ===== verification/Kerbecs_Memory.thy ===== *)
theory Kerbecs_Memory
  imports Kerbecs_Prelude
begin

text \<open>
  \<open>src/Public/KerbecsMemory.h\<close> and the Linux branches of \<open>src/Private/KerbecsMemory.cpp\<close>: unit
  constants, alignment arithmetic, and the thin layer over the system calls. The system calls
  themselves are not code of the repository: they are the fields of the parameter \<open>os_api\<close>, which
  act on an environment state \<open>'e\<close> the model knows nothing about.
\<close>

section \<open>Units and alignment\<close>

definition KILO_BYTE :: u64 where "KILO_BYTE = 1 * 1000"
definition MEGA_BYTE :: u64 where "MEGA_BYTE = 1 * 1000 * 1000"
definition GIGA_BYTE :: u64 where "GIGA_BYTE = 1 * 1000 * 1000 * 1000"
definition KIBI_BYTE :: u64 where "KIBI_BYTE = 1 * 1024"
definition MEBI_BYTE :: u64 where "MEBI_BYTE = 1 * 1024 * 1024"
definition GIBI_BYTE :: u64 where "GIBI_BYTE = 1 * 1024 * 1024 * 1024"

definition PAGE_SIZE :: u64 where "PAGE_SIZE = 4 * 1024"

definition alignToPage :: "u64 \<Rightarrow> u64" where
  "alignToPage v_Bytes = (v_Bytes + PAGE_SIZE - 1) AND NOT (PAGE_SIZE - 1)"

definition alignUp :: "u64 \<Rightarrow> u64 \<Rightarrow> u64" where
  "alignUp v_Value v_Align = (v_Value + v_Align - 1) AND NOT (v_Align - 1)"

definition alignUpPtr :: "addr \<Rightarrow> u64 \<Rightarrow> addr" where
  "alignUpPtr v_Value v_Align = (v_Value + v_Align - 1) AND NOT (v_Align - 1)"

text \<open>The same rounding on natural numbers, the yardstick for the word version.\<close>

definition align_nat :: "nat \<Rightarrow> nat \<Rightarrow> nat" where
  "align_nat v a = (v + a - 1) div a * a"

lemma align_nat_ge: "0 < a \<Longrightarrow> v \<le> align_nat v a"
proof -
  assume "0 < a"
  then have "(v + a - 1) mod a < a" by simp
  moreover have "(v + a - 1) div a * a + (v + a - 1) mod a = v + a - 1" by simp
  ultimately show ?thesis unfolding align_nat_def using \<open>0 < a\<close> by linarith
qed

lemma align_nat_less: "0 < a \<Longrightarrow> align_nat v a < v + a"
proof -
  assume "0 < a"
  have "(v + a - 1) div a * a \<le> v + a - 1" by simp
  with \<open>0 < a\<close> show ?thesis unfolding align_nat_def by linarith
qed

lemma align_nat_dvd: "a dvd align_nat v a"
  by (simp add: align_nat_def)

lemma align_nat_least:
  assumes "0 < a" and "v \<le> w" and "a dvd w"
  shows "align_nat v a \<le> w"
proof -
  from assms(3) obtain q where q: "w = q * a" by (metis dvd_def mult.commute)
  have "(v + a - 1) div a \<le> (q * a + (a - 1)) div a"
    using assms q by (intro div_le_mono) linarith
  also have "\<dots> = q" using div_mult_self3 [of a q "a - 1"] assms(1) by simp
  finally show ?thesis unfolding align_nat_def q by simp
qed

lemma alignUp_unat:
  assumes "k < 64" and "unat v + 2 ^ k - 1 < 18446744073709551616"
  shows "unat (alignUp v (2 ^ k)) = align_nat (unat v) (2 ^ k)"
proof -
  have pos: "(0::nat) < 2 ^ k" by simp
  have one: "v + 2 ^ k - 1 = v + mask k" by (simp add: mask_eq_exp_minus_1)
  have m: "unat (mask k :: u64) = 2 ^ k - 1"
    using assms(1) by (simp add: mask_eq_exp_minus_1 unat_minus_le unat_pow2 word_le_nat_alt)
  have "unat (v + mask k) = unat v + 2 ^ k - 1"
    using assms(2) pos m by (subst unat_plus_nowrap) auto
  then have "unat ((v + 2 ^ k - 1) AND NOT (mask k)) = (unat v + 2 ^ k - 1) div 2 ^ k * 2 ^ k"
    unfolding one by (simp add: and_not_mask_unat)
  then show ?thesis
    by (simp add: alignUp_def align_nat_def mask_eq_exp_minus_1)
qed

lemma alignUp_pow2_unat:
  assumes "is_pow2 a" and "unat v + unat a - 1 < 18446744073709551616"
  shows "unat (alignUp v a) = align_nat (unat v) (unat a)"
  using assms by (auto elim!: is_pow2E simp: unat_pow2 alignUp_unat)

lemma pow2_unat_le: "is_pow2 a \<Longrightarrow> unat a \<le> 9223372036854775808 \<and> 0 < unat a"
proof -
  assume "is_pow2 a"
  then obtain k where k: "k < 64" "a = 2 ^ k" by (rule is_pow2E)
  from k(1) have "(2::nat) ^ k \<le> 2 ^ 63" by (intro power_increasing) simp_all
  with k show ?thesis by (simp add: unat_pow2)
qed

text \<open>Rounding up a small constant cannot wrap.\<close>

lemma alignUp_small_unat:
  assumes "is_pow2 a" and "unat v \<le> 9223372036854775808"
  shows "unat (alignUp v a) = align_nat (unat v) (unat a)"
proof -
  have "unat v + unat a - 1 < 18446744073709551616"
    using pow2_unat_le [OF assms(1)] assms(2) by linarith
  with assms(1) show ?thesis by (rule alignUp_pow2_unat)
qed

lemma alignToPage_alignUp: "alignToPage v = alignUp v PAGE_SIZE"
  by (simp add: alignToPage_def alignUp_def)

lemma alignUpPtr_alignUp: "alignUpPtr v a = alignUp v a"
  by (simp add: alignUpPtr_def alignUp_def)

section \<open>Pages and the operating system\<close>

datatype page_state = PageFree | PageReserved | PageCommitted | PageUnknown

datatype prot = PROT_NONE | PROT_RW

text \<open>
  The system calls the code makes. \<open>None\<close> is \<open>MAP_FAILED\<close> for \<open>mmap\<close> and a non-zero return code
  for \<open>mincore\<close>; \<open>True\<close> is a zero return code for the others.
\<close>

record 'e os_api =
  sys_mmap :: "'e \<Rightarrow> addr \<Rightarrow> u64 \<Rightarrow> prot \<Rightarrow> 'e \<times> addr option"
  sys_mprotect :: "'e \<Rightarrow> addr \<Rightarrow> u64 \<Rightarrow> prot \<Rightarrow> 'e \<times> bool"
  sys_madvise_dontneed :: "'e \<Rightarrow> addr \<Rightarrow> u64 \<Rightarrow> 'e \<times> bool"
  sys_munmap :: "'e \<Rightarrow> addr \<Rightarrow> u64 \<Rightarrow> 'e \<times> bool"
  sys_mincore :: "'e \<Rightarrow> addr \<Rightarrow> u64 \<Rightarrow> u8 option"
  sys_pagesize :: "'e \<Rightarrow> int"

definition mem_allocate :: "'e os_api \<Rightarrow> 'e \<Rightarrow> u64 \<Rightarrow> 'e \<times> addr" where
  "mem_allocate os e v_Bytes =
     (case sys_mmap os e null v_Bytes PROT_RW of
        (e', None) \<Rightarrow> (e', null)
      | (e', Some p) \<Rightarrow> (e', p))"

definition mem_reserve :: "'e os_api \<Rightarrow> 'e \<Rightarrow> u64 \<Rightarrow> 'e \<times> addr" where
  "mem_reserve os e v_Bytes =
     (case sys_mmap os e null v_Bytes PROT_NONE of
        (e', None) \<Rightarrow> (e', null)
      | (e', Some p) \<Rightarrow> (e', p))"

definition mem_reserveAt :: "'e os_api \<Rightarrow> 'e \<Rightarrow> addr \<Rightarrow> u64 \<Rightarrow> 'e \<times> addr" where
  "mem_reserveAt os e p_Hint v_Bytes =
     (case sys_mmap os e p_Hint v_Bytes PROT_NONE of
        (e', Some p) \<Rightarrow> (e', p)
      | (e', None) \<Rightarrow>
          (case sys_mmap os e' null v_Bytes PROT_NONE of
             (e'', None) \<Rightarrow> (e'', null)
           | (e'', Some p) \<Rightarrow> (e'', p)))"

definition mem_commit :: "'e os_api \<Rightarrow> 'e \<Rightarrow> addr \<Rightarrow> u64 \<Rightarrow> u64 \<Rightarrow> 'e \<times> bool" where
  "mem_commit os e p_Base v_Bytes v_Offset =
     (if p_Base = null \<or> v_Bytes = 0 then (e, False)
      else sys_mprotect os e (p_Base + v_Offset) v_Bytes PROT_RW)"

definition mem_decommit :: "'e os_api \<Rightarrow> 'e \<Rightarrow> addr \<Rightarrow> u64 \<Rightarrow> u64 \<Rightarrow> 'e \<times> bool" where
  "mem_decommit os e p_Base v_Bytes v_Offset =
     (if p_Base = null \<or> v_Bytes = 0 then (e, False)
      else
        (case sys_mprotect os e (p_Base + v_Offset) v_Bytes PROT_NONE of
           (e', False) \<Rightarrow> (e', False)
         | (e', True) \<Rightarrow> sys_madvise_dontneed os e' (p_Base + v_Offset) v_Bytes))"

definition mem_release :: "'e os_api \<Rightarrow> 'e \<Rightarrow> addr \<Rightarrow> u64 \<Rightarrow> 'e \<times> bool" where
  "mem_release os e p_Memory v_Bytes =
     (if p_Memory = null then (e, False) else sys_munmap os e p_Memory v_Bytes)"

definition queryPage :: "'e os_api \<Rightarrow> 'e \<Rightarrow> addr \<Rightarrow> page_state" where
  "queryPage os e p_Memory =
     (if p_Memory = null then PageUnknown
      else let pageSize = sys_pagesize os e in
        if pageSize \<le> 0 then PageUnknown
        else let aligned = p_Memory AND NOT (word_of_int (pageSize - 1)) in
          (case sys_mincore os e aligned (word_of_int pageSize) of
             Some vec \<Rightarrow> (if vec AND 1 \<noteq> 0 then PageCommitted else PageReserved)
           | None \<Rightarrow> PageFree))"

text \<open>\<open>None\<close> is the \<open>KERBECS_UNREACHABLE()\<close> at the end of the switch.\<close>

definition commitPageIfNeeded :: "'e os_api \<Rightarrow> 'e \<Rightarrow> addr \<Rightarrow> ('e \<times> bool) option" where
  "commitPageIfNeeded os e p_Address =
     (if p_Address = null then Some (e, False)
      else
        (case queryPage os e p_Address of
           PageCommitted \<Rightarrow> Some (e, True)
         | PageReserved \<Rightarrow>
             let pageBase = p_Address AND NOT (PAGE_SIZE - 1)
             in Some (mem_commit os e pageBase PAGE_SIZE 0)
         | PageFree \<Rightarrow> None
         | PageUnknown \<Rightarrow> None))"

lemma commitPageIfNeeded_committed:
  "p \<noteq> null \<Longrightarrow> queryPage os e p = PageCommitted \<Longrightarrow> commitPageIfNeeded os e p = Some (e, True)"
  by (simp add: commitPageIfNeeded_def)

lemma commitPageIfNeeded_defined:
  "(\<exists>r. commitPageIfNeeded os e p = Some r)
     \<longleftrightarrow> p = null \<or> queryPage os e p \<in> {PageCommitted, PageReserved}"
  by (auto simp: commitPageIfNeeded_def Let_def split: page_state.splits)

section \<open>Properties\<close>

text \<open>
  \<open>alignUp\<close> with a power-of-two alignment returns the least multiple of the alignment that is
  not below the value, provided the addition does not wrap.
\<close>

theorem alignUp_least_multiple:
  assumes "is_pow2 a" and "unat v + unat a - 1 < 2 ^ 64"
  shows "v \<le> alignUp v a \<and> unat a dvd unat (alignUp v a) \<and>
         (\<forall>w. v \<le> w \<longrightarrow> unat a dvd unat w \<longrightarrow> alignUp v a \<le> w)"
proof -
  have eq: "unat (alignUp v a) = align_nat (unat v) (unat a)"
    using assms by (intro alignUp_pow2_unat) simp_all
  have pos: "0 < unat a" using assms(1) by (simp add: is_pow2_def unat_gt_0)
  show ?thesis
    using align_nat_ge [OF pos] align_nat_dvd align_nat_least [OF pos]
    by (auto simp: word_le_nat_alt eq)
qed

theorem alignUp_least_multiple_witness:
  "alignUp 17 64 = 64 \<and> (17 :: u64) \<le> alignUp 17 64"
proof -
  have "is_pow2 64" by (simp add: is_pow2_def)
  moreover have "unat (17 :: u64) + unat (64 :: u64) - 1 < 2 ^ 64" by simp
  ultimately have "(17 :: u64) \<le> alignUp 17 64"
    using alignUp_least_multiple [of 64 17] by simp
  then show ?thesis by (simp add: alignUp_def)
qed

end
