(* ===== verification/Kerbecs_Stats.thy ===== *)
theory Kerbecs_Stats
  imports Kerbecs_Prelude
begin

text \<open>
  \<open>src/Public/KerbecsStats.h\<close>: the runtime's counters. Every counter is a \<open>size_t\<close> that is only
  ever changed by \<open>fetch_add\<close>, \<open>fetch_sub\<close> or, for the high watermark, a compare-exchange loop;
  each function below is the effect of one call that runs to its end. The early return for a null
  \<open>p_Stats\<close> is \<open>statsVia\<close>, applied where the caller's pointer can be null (the quarantine queue);
  the other callers pass the address of the runtime's own counters.
\<close>

record kstats =
  st_TotalAllocated :: u64
  st_TotalFreed :: u64
  st_PeakUsage :: u64
  st_ActiveAllocations :: u64
  st_ActiveBytes :: u64
  st_TotalPoisonedBytes :: u64
  st_TotalViolations :: u64
  st_StaticAllocations :: u64
  st_QuarantinedBlocks :: u64

definition stats_zero :: kstats where
  "stats_zero =
     \<lparr>st_TotalAllocated = 0, st_TotalFreed = 0, st_PeakUsage = 0, st_ActiveAllocations = 0,
      st_ActiveBytes = 0, st_TotalPoisonedBytes = 0, st_TotalViolations = 0,
      st_StaticAllocations = 0, st_QuarantinedBlocks = 0\<rparr>"

definition statsVia :: "bool \<Rightarrow> (kstats \<Rightarrow> kstats) \<Rightarrow> kstats \<Rightarrow> kstats" where
  "statsVia nonnull f s = (if \<not> nonnull then s else f s)"

definition statsOnInit :: "u64 \<Rightarrow> kstats \<Rightarrow> kstats" where
  "statsOnInit v_Bytes s =
     (let activeBytes = st_ActiveBytes s + v_Bytes;
          peak = st_PeakUsage s
      in s\<lparr>st_TotalAllocated := st_TotalAllocated s + v_Bytes,
           st_ActiveAllocations := st_ActiveAllocations s + 1,
           st_ActiveBytes := activeBytes,
           st_PeakUsage := (if activeBytes > peak then activeBytes else peak)\<rparr>)"

definition statsOnDestroy :: "u64 \<Rightarrow> kstats \<Rightarrow> kstats" where
  "statsOnDestroy v_Bytes s =
     s\<lparr>st_TotalFreed := st_TotalFreed s + v_Bytes,
       st_ActiveAllocations := st_ActiveAllocations s - 1,
       st_ActiveBytes := st_ActiveBytes s - v_Bytes\<rparr>"

definition statsOnPoison :: "u64 \<Rightarrow> kstats \<Rightarrow> kstats" where
  "statsOnPoison v_Bytes s = s\<lparr>st_TotalPoisonedBytes := st_TotalPoisonedBytes s + v_Bytes\<rparr>"

definition statsOnUnpoison :: "u64 \<Rightarrow> kstats \<Rightarrow> kstats" where
  "statsOnUnpoison v_Bytes s = s\<lparr>st_TotalPoisonedBytes := st_TotalPoisonedBytes s - v_Bytes\<rparr>"

definition statsOnViolation :: "kstats \<Rightarrow> kstats" where
  "statsOnViolation s = s\<lparr>st_TotalViolations := st_TotalViolations s + 1\<rparr>"

definition statsOnStaticAlloc :: "kstats \<Rightarrow> kstats" where
  "statsOnStaticAlloc s = s\<lparr>st_StaticAllocations := st_StaticAllocations s + 1\<rparr>"

definition statsOnQuarantineEnqueue :: "kstats \<Rightarrow> kstats" where
  "statsOnQuarantineEnqueue s = s\<lparr>st_QuarantinedBlocks := st_QuarantinedBlocks s + 1\<rparr>"

definition statsOnQuarantineDequeue :: "kstats \<Rightarrow> kstats" where
  "statsOnQuarantineDequeue s = s\<lparr>st_QuarantinedBlocks := st_QuarantinedBlocks s - 1\<rparr>"

lemmas stats_defs =
  statsOnInit_def statsOnDestroy_def statsOnPoison_def statsOnUnpoison_def statsOnViolation_def
  statsOnStaticAlloc_def statsOnQuarantineEnqueue_def statsOnQuarantineDequeue_def

section \<open>Histories of counter updates\<close>

datatype stat_event =
  SInit u64 | SDestroy u64 | SPoison u64 | SUnpoison u64 | SViolation | SStaticAlloc
  | SEnqueue | SDequeue

fun stat_step :: "kstats \<Rightarrow> stat_event \<Rightarrow> kstats" where
  "stat_step s (SInit n) = statsOnInit n s"
| "stat_step s (SDestroy n) = statsOnDestroy n s"
| "stat_step s (SPoison n) = statsOnPoison n s"
| "stat_step s (SUnpoison n) = statsOnUnpoison n s"
| "stat_step s SViolation = statsOnViolation s"
| "stat_step s SStaticAlloc = statsOnStaticAlloc s"
| "stat_step s SEnqueue = statsOnQuarantineEnqueue s"
| "stat_step s SDequeue = statsOnQuarantineDequeue s"

fun stat_run :: "kstats \<Rightarrow> stat_event list \<Rightarrow> kstats" where
  "stat_run s [] = s"
| "stat_run s (e # es) = stat_run (stat_step s e) es"

lemma stat_run_append: "stat_run s (es @ fs) = stat_run (stat_run s es) fs"
  by (induction es arbitrary: s) simp_all

definition stats_balanced :: "kstats \<Rightarrow> bool" where
  "stats_balanced s \<longleftrightarrow> st_ActiveBytes s = st_TotalAllocated s - st_TotalFreed s"

lemma stat_step_balanced: "stats_balanced s \<Longrightarrow> stats_balanced (stat_step s e)"
  by (cases e) (simp_all add: stats_balanced_def stats_defs Let_def)

lemma stat_run_balanced: "stats_balanced s \<Longrightarrow> stats_balanced (stat_run s es)"
  by (induction es arbitrary: s) (simp_all add: stat_step_balanced)

lemma stats_zero_balanced: "stats_balanced stats_zero"
  by (simp add: stats_balanced_def stats_zero_def)

lemma peak_step_mono: "st_PeakUsage s \<le> st_PeakUsage (stat_step s e)"
  by (cases e) (auto simp: stats_defs Let_def)

lemma peak_run_mono: "st_PeakUsage s \<le> st_PeakUsage (stat_run s es)"
proof (induction es arbitrary: s)
  case (Cons e es)
  show ?case using peak_step_mono [of s e] Cons [of "stat_step s e"] by simp
qed simp

text \<open>The peak is the start value or was the active byte count right after some \<open>statsOnInit\<close>.\<close>

lemma peak_run_attained:
  "st_PeakUsage (stat_run s es) = st_PeakUsage s
   \<or> (\<exists>ps n qs. es = ps @ SInit n # qs
        \<and> st_PeakUsage (stat_run s es) = st_ActiveBytes (stat_run s (ps @ [SInit n])))"
proof (induction es rule: rev_induct)
  case (snoc e es)
  let ?s = "stat_run s es"
  have "st_PeakUsage (stat_step ?s e) = st_PeakUsage ?s
      \<or> (\<exists>n. e = SInit n \<and> st_PeakUsage (stat_step ?s e) = st_ActiveBytes (stat_step ?s e))"
    by (cases e) (simp_all add: stats_defs Let_def)
  then consider (same) "st_PeakUsage (stat_step ?s e) = st_PeakUsage ?s"
    | (new) n where "e = SInit n" "st_PeakUsage (stat_step ?s e) = st_ActiveBytes (stat_step ?s e)"
    by blast
  then show ?case
  proof cases
    case same
    from snoc show ?thesis
    proof
      assume "\<exists>ps n qs. es = ps @ SInit n # qs
        \<and> st_PeakUsage ?s = st_ActiveBytes (stat_run s (ps @ [SInit n]))"
      then obtain ps n qs where "es = ps @ SInit n # qs"
        and "st_PeakUsage ?s = st_ActiveBytes (stat_run s (ps @ [SInit n]))" by blast
      with same have "es @ [e] = ps @ SInit n # (qs @ [e])"
        and "st_PeakUsage (stat_run s (es @ [e])) = st_ActiveBytes (stat_run s (ps @ [SInit n]))"
        by (simp_all add: stat_run_append)
      then show ?thesis by blast
    qed (simp add: same stat_run_append)
  next
    case new
    then have "es @ [e] = es @ SInit n # []"
      and "st_PeakUsage (stat_run s (es @ [e])) = st_ActiveBytes (stat_run s (es @ [SInit n]))"
      by (simp_all add: stat_run_append)
    then show ?thesis by blast
  qed
qed simp

lemma peak_covers_init:
  "st_ActiveBytes (stat_run s (ps @ [SInit n])) \<le> st_PeakUsage (stat_run s (ps @ [SInit n]))"
  by (auto simp: stat_run_append stats_defs Let_def)

section \<open>Properties\<close>

text \<open>
  From zeroed counters, whatever sequence of updates runs, the active byte count is the
  difference of the two totals, and the peak is exactly the high watermark: no active count reached
  by an allocation exceeds it, and it is zero or was reached by one of the allocations.
\<close>

theorem stats_peak_is_high_watermark:
  "stats_balanced (stat_run stats_zero es)
   \<and> (\<forall>ps n qs. es = ps @ SInit n # qs \<longrightarrow>
        st_ActiveBytes (stat_run stats_zero (ps @ [SInit n])) \<le> st_PeakUsage (stat_run stats_zero es))
   \<and> (st_PeakUsage (stat_run stats_zero es) = 0
      \<or> (\<exists>ps n qs. es = ps @ SInit n # qs
           \<and> st_PeakUsage (stat_run stats_zero es)
               = st_ActiveBytes (stat_run stats_zero (ps @ [SInit n]))))"
proof (intro conjI allI impI)
  show "stats_balanced (stat_run stats_zero es)"
    by (rule stat_run_balanced [OF stats_zero_balanced])
next
  fix ps n qs
  assume es: "es = ps @ SInit n # qs"
  have "st_PeakUsage (stat_run stats_zero (ps @ [SInit n])) \<le> st_PeakUsage (stat_run stats_zero es)"
    unfolding es using peak_run_mono [of "stat_run stats_zero (ps @ [SInit n])" qs]
    by (simp add: stat_run_append)
  with peak_covers_init [of stats_zero ps n]
  show "st_ActiveBytes (stat_run stats_zero (ps @ [SInit n])) \<le> st_PeakUsage (stat_run stats_zero es)"
    by (rule order_trans)
next
  have "st_PeakUsage stats_zero = 0" by (simp add: stats_zero_def)
  then show "st_PeakUsage (stat_run stats_zero es) = 0
      \<or> (\<exists>ps n qs. es = ps @ SInit n # qs
           \<and> st_PeakUsage (stat_run stats_zero es)
               = st_ActiveBytes (stat_run stats_zero (ps @ [SInit n])))"
    using peak_run_attained [of stats_zero es] by auto
qed

theorem stats_peak_is_high_watermark_witness:
  "st_PeakUsage (stat_run stats_zero [SInit 100, SDestroy 60, SInit 10]) = 100
   \<and> st_ActiveBytes (stat_run stats_zero [SInit 100]) \<le> 100"
proof -
  have peak: "st_PeakUsage (stat_run stats_zero [SInit 100, SDestroy 60, SInit 10]) = 100"
    by (simp add: stats_zero_def stats_defs)
  have "[SInit 100, SDestroy 60, SInit 10] = [] @ SInit 100 # [SDestroy 60, SInit 10]" by simp
  then have "st_ActiveBytes (stat_run stats_zero ([] @ [SInit 100]))
      \<le> st_PeakUsage (stat_run stats_zero [SInit 100, SDestroy 60, SInit 10])"
    using stats_peak_is_high_watermark [of "[SInit 100, SDestroy 60, SInit 10]"] by blast
  with peak show ?thesis by simp
qed

end
