(* ===== verification/Kerbecs_Hash.thy ===== *)
theory Kerbecs_Hash
  imports Kerbecs_Prelude
begin

text \<open>
  \<open>src/Public/KerbecsHash.h\<close> and the \<open>HashAccumulatorConcept\<close> of
  \<open>src/Public/KerbecsEnforcements.h\<close>: the three swappable metadata-checksum accumulators. A type
  that satisfies the concept is a value of the record \<open>hasher\<close>. The concept's contract is the locale
  \<open>hash_accumulator\<close>; \<open>mixing_accumulator\<close> extends it with the property that makes a checksum
  detect every corruption of a single word, which two of the three accumulators have.
\<close>

record 'h hasher =
  h_add :: "'h \<Rightarrow> u64 \<Rightarrow> 'h"
  h_finalize :: "'h \<Rightarrow> u64 \<times> 'h"
  h_reset :: "'h \<Rightarrow> 'h"

section \<open>The accumulators\<close>

record splitmix =
  sm_State :: u64

definition SplitMix64Hash_add :: "splitmix \<Rightarrow> u64 \<Rightarrow> splitmix" where
  "SplitMix64Hash_add h v_Value =
     (let s = sm_State h XOR v_Value;
          s = s + 0x9e3779b97f4a7c15;
          s = (s XOR drop_bit 30 s) * 0xbf58476d1ce4e5b9;
          s = (s XOR drop_bit 27 s) * 0x94d049bb133111eb;
          s = s XOR drop_bit 31 s
      in h\<lparr>sm_State := s\<rparr>)"

definition SplitMix64Hash :: "splitmix hasher" where
  "SplitMix64Hash =
     \<lparr>h_add = SplitMix64Hash_add, h_finalize = (\<lambda>h. (sm_State h, h)),
      h_reset = (\<lambda>h. h\<lparr>sm_State := 0\<rparr>)\<rparr>"

record murmur =
  mm_State :: u64

definition Murmur3Mix64Hash_add :: "murmur \<Rightarrow> u64 \<Rightarrow> murmur" where
  "Murmur3Mix64Hash_add h v_Value =
     (let s = mm_State h XOR v_Value;
          s = s XOR drop_bit 33 s;
          s = s * 0xff51afd7ed558ccd;
          s = s XOR drop_bit 33 s;
          s = s * 0xc4ceb9fe1a85ec53;
          s = s XOR drop_bit 33 s
      in h\<lparr>mm_State := s\<rparr>)"

definition Murmur3Mix64Hash :: "murmur hasher" where
  "Murmur3Mix64Hash =
     \<lparr>h_add = Murmur3Mix64Hash_add, h_finalize = (\<lambda>h. (mm_State h, h)),
      h_reset = (\<lambda>h. h\<lparr>mm_State := 0\<rparr>)\<rparr>"

record wyhash =
  wy_State :: u64
  wy_Seed :: u64

definition WyHash64_add :: "wyhash \<Rightarrow> u64 \<Rightarrow> wyhash" where
  "WyHash64_add h v_Value =
     (let s = wy_State h XOR v_Value;
          a = s XOR wy_Seed h;
          b = s * wy_Seed h;
          prod = unat a * unat b;
          hi = of_nat (prod div 2 ^ 64);
          lo = of_nat prod
      in h\<lparr>wy_State := lo XOR hi\<rparr>)"

definition WyHash64 :: "wyhash hasher" where
  "WyHash64 =
     \<lparr>h_add = WyHash64_add, h_finalize = (\<lambda>h. (wy_State h, h)),
      h_reset = (\<lambda>h. h\<lparr>wy_State := 0, wy_Seed := 0xa0761d6478bd642f\<rparr>)\<rparr>"

section \<open>The contract of an accumulator\<close>

definition checksum_of :: "'h hasher \<Rightarrow> 'h \<Rightarrow> u64 list \<Rightarrow> u64" where
  "checksum_of H h vs = fst (h_finalize H (foldl (h_add H) (h_reset H h) vs))"

text \<open>A reset forgets what the accumulator was used for before.\<close>

locale hash_accumulator =
  fixes H :: "'h hasher"
  assumes reset_forgets: "h_reset H g = h_reset H h"
begin

lemma checksum_of_any: "checksum_of H g vs = checksum_of H h vs"
  using reset_forgets [of g h] by (simp add: checksum_of_def)

end

locale mixing_accumulator = hash_accumulator H for H :: "'h hasher" +
  assumes add_value_inj: "h_add H g v = h_add H g w \<Longrightarrow> v = w"
    and add_state_inj: "h_add H g v = h_add H h v \<Longrightarrow> g = h"
    and finalize_inj: "fst (h_finalize H g) = fst (h_finalize H h) \<Longrightarrow> g = h"
begin

lemma foldl_state_inj: "foldl (h_add H) g vs = foldl (h_add H) h vs \<Longrightarrow> g = h"
  by (induction vs arbitrary: g h) (auto dest: add_state_inj)

lemma foldl_value_inj:
  "i < length vs \<Longrightarrow> x \<noteq> vs ! i \<Longrightarrow> foldl (h_add H) g (vs[i := x]) \<noteq> foldl (h_add H) g vs"
proof (induction vs arbitrary: g i)
  case (Cons v vs)
  show ?case
  proof (cases i)
    case 0
    with Cons.prems show ?thesis using add_value_inj foldl_state_inj by fastforce
  next
    case (Suc j)
    with Cons show ?thesis by simp
  qed
qed simp

text \<open>Changing exactly one of the words always changes the checksum.\<close>

lemma checksum_detects_word:
  assumes "i < length vs" and "x \<noteq> vs ! i"
  shows "checksum_of H g (vs[i := x]) \<noteq> checksum_of H h vs"
  using foldl_value_inj [OF assms] finalize_inj reset_forgets [of g h]
  by (auto simp: checksum_of_def)

end

section \<open>The mixing steps are bijections\<close>

lemma xor_zero_iff: "(a :: u64) XOR b = 0 \<longleftrightarrow> a = b"
  by (simp add: bit_eq_iff bit_simps)

lemma xor_shift_inj:
  fixes x y :: u64
  assumes n: "0 < n" and eq: "x XOR drop_bit n x = y XOR drop_bit n y"
  shows "x = y"
proof -
  let ?z = "x XOR y"
  have "?z XOR drop_bit n ?z = (x XOR drop_bit n x) XOR (y XOR drop_bit n y)"
    by (rule bit_word_eqI) (auto simp: bit_simps)
  also have "\<dots> = 0" using eq by simp
  finally have z: "?z = drop_bit n ?z" by (simp only: xor_zero_iff)
  have "unat ?z = drop_bit n (unat ?z)"
    by (subst z) (rule unat_drop_bit_eq)
  then have "unat ?z = unat ?z div 2 ^ n"
    by (simp only: drop_bit_eq_div)
  moreover have "(1::nat) < 2 ^ n" using n by (intro one_less_power) simp_all
  ultimately have "unat ?z = 0" by (metis div_less_dividend gr0I less_irrefl)
  then have "?z = 0" by (simp add: unat_eq_0)
  then show ?thesis by (simp only: xor_zero_iff)
qed

lemma mult_inj_inverse:
  fixes c d x y :: u64
  assumes inverse: "d * c = 1" and eq: "x * c = y * c"
  shows "x = y"
proof -
  have "x = d * (x * c)" using inverse by (simp only: mult.left_commute [of d x c] mult_1_right)
  also have "\<dots> = d * (y * c)" by (simp only: eq)
  also have "\<dots> = y" using inverse by (simp only: mult.left_commute [of d y c] mult_1_right)
  finally show ?thesis .
qed

lemma xor_left_inj: "(a :: u64) XOR b = a XOR c \<Longrightarrow> b = c"
  by (simp add: bit_eq_iff bit_simps) blast

lemma xor_right_inj: "(a :: u64) XOR c = b XOR c \<Longrightarrow> a = b"
  by (simp add: bit_eq_iff bit_simps) blast

definition splitmix_mix :: "u64 \<Rightarrow> u64" where
  "splitmix_mix s =
     (let s = s + 0x9e3779b97f4a7c15;
          s = (s XOR drop_bit 30 s) * 0xbf58476d1ce4e5b9;
          s = (s XOR drop_bit 27 s) * 0x94d049bb133111eb
      in s XOR drop_bit 31 s)"

definition murmur_mix :: "u64 \<Rightarrow> u64" where
  "murmur_mix s =
     (let s = (s XOR drop_bit 33 s) * 0xff51afd7ed558ccd;
          s = (s XOR drop_bit 33 s) * 0xc4ceb9fe1a85ec53
      in s XOR drop_bit 33 s)"

lemma splitmix_mix_inj: "splitmix_mix x = splitmix_mix y \<Longrightarrow> x = y"
  unfolding splitmix_mix_def Let_def
  by (drule xor_shift_inj [rotated], simp,
      drule mult_inj_inverse [where d = "0x319642b2d24d8ec3", rotated], simp,
      drule xor_shift_inj [rotated], simp,
      drule mult_inj_inverse [where d = "0x96de1b173f119089", rotated], simp,
      drule xor_shift_inj [rotated], simp, simp)

lemma murmur_mix_inj: "murmur_mix x = murmur_mix y \<Longrightarrow> x = y"
  unfolding murmur_mix_def Let_def
  by (drule xor_shift_inj [rotated], simp,
      drule mult_inj_inverse [where d = "0x9cb4b2f8129337db", rotated], simp,
      drule xor_shift_inj [rotated], simp,
      drule mult_inj_inverse [where d = "0x4f74430c22a54005", rotated], simp,
      drule xor_shift_inj [rotated], simp, simp)

lemma SplitMix64Hash_add_mix:
  "SplitMix64Hash_add h v = h\<lparr>sm_State := splitmix_mix (sm_State h XOR v)\<rparr>"
  by (simp add: SplitMix64Hash_add_def splitmix_mix_def Let_def)

lemma Murmur3Mix64Hash_add_mix:
  "Murmur3Mix64Hash_add h v = h\<lparr>mm_State := murmur_mix (mm_State h XOR v)\<rparr>"
  by (simp add: Murmur3Mix64Hash_add_def murmur_mix_def Let_def)

interpretation splitmix: mixing_accumulator SplitMix64Hash
proof unfold_locales
  fix g h :: splitmix and v w :: u64
  show "h_reset SplitMix64Hash g = h_reset SplitMix64Hash h"
    by (simp add: SplitMix64Hash_def)
  show "h_add SplitMix64Hash g v = h_add SplitMix64Hash g w \<Longrightarrow> v = w"
    by (cases g) (auto simp: SplitMix64Hash_def SplitMix64Hash_add_mix
        dest!: splitmix_mix_inj xor_left_inj)
  show "h_add SplitMix64Hash g v = h_add SplitMix64Hash h v \<Longrightarrow> g = h"
    by (cases g, cases h) (auto simp: SplitMix64Hash_def SplitMix64Hash_add_mix
        dest!: splitmix_mix_inj xor_right_inj)
  show "fst (h_finalize SplitMix64Hash g) = fst (h_finalize SplitMix64Hash h) \<Longrightarrow> g = h"
    by (simp add: SplitMix64Hash_def)
qed

interpretation murmur: mixing_accumulator Murmur3Mix64Hash
proof unfold_locales
  fix g h :: murmur and v w :: u64
  show "h_reset Murmur3Mix64Hash g = h_reset Murmur3Mix64Hash h"
    by (simp add: Murmur3Mix64Hash_def)
  show "h_add Murmur3Mix64Hash g v = h_add Murmur3Mix64Hash g w \<Longrightarrow> v = w"
    by (cases g) (auto simp: Murmur3Mix64Hash_def Murmur3Mix64Hash_add_mix
        dest!: murmur_mix_inj xor_left_inj)
  show "h_add Murmur3Mix64Hash g v = h_add Murmur3Mix64Hash h v \<Longrightarrow> g = h"
    by (cases g, cases h) (auto simp: Murmur3Mix64Hash_def Murmur3Mix64Hash_add_mix
        dest!: murmur_mix_inj xor_right_inj)
  show "fst (h_finalize Murmur3Mix64Hash g) = fst (h_finalize Murmur3Mix64Hash h) \<Longrightarrow> g = h"
    by (simp add: Murmur3Mix64Hash_def)
qed

interpretation wyhash: hash_accumulator WyHash64
  by unfold_locales (simp add: WyHash64_def)

end
