(* ===== verification/Kerbecs_Checksums.thy ===== *)
theory Kerbecs_Checksums
  imports Kerbecs_Hash
begin

text \<open>
  \<open>src/Public/KerbecsChecksums.h\<close> and the metadata records of \<open>src/Public/KerbecsRuntime.h\<close>. The
  accumulator is the template parameter \<open>HA\<close>, a value of \<open>hasher\<close>; a pointer argument is an
  \<open>option\<close>. Functions that write through a pointer return the new contents; the accumulator's
  state after the call is returned as well.
\<close>

datatype thread_policy = Strict | Flexible

record normal_metadata =
  nm_TotalSize :: u64
  nm_TotalCommitted :: u64
  nm_TotalPoisoned :: u64
  nm_AllocatorHash :: u64

record enhanced_metadata =
  em_TotalSize :: u64
  em_TotalCommitted :: u64
  em_TotalPoisoned :: u64
  em_AllocatorHash :: u64
  em_ThreadHash :: u64
  em_Checksum :: u64

definition computeMetadataChecksum ::
  "'h hasher \<Rightarrow> 'h \<Rightarrow> u64 \<Rightarrow> u64 \<Rightarrow> addr \<Rightarrow> u64 \<Rightarrow> u64 \<Rightarrow> u64 \<Rightarrow> u64 \<times> 'h" where
  "computeMetadataChecksum H p_Hasher v_AllocatorID v_ThreadID p_BlockBase v_TotalSize
       v_TotalCommitted v_TotalPoisoned =
     (let h = h_reset H p_Hasher;
          h = h_add H h v_AllocatorID;
          h = h_add H h v_ThreadID;
          h = h_add H h p_BlockBase;
          h = h_add H h v_TotalSize;
          h = h_add H h v_TotalCommitted;
          h = h_add H h v_TotalPoisoned
      in h_finalize H h)"

text \<open>\<open>None\<close> is the return value \<open>false\<close>; otherwise the accumulator and both metadata blocks.\<close>

definition initEnhancedMetadata ::
  "'h hasher \<Rightarrow> 'h option \<Rightarrow> enhanced_metadata option \<Rightarrow> enhanced_metadata option
   \<Rightarrow> u64 \<Rightarrow> u64 \<Rightarrow> u64 \<Rightarrow> addr \<Rightarrow> ('h \<times> enhanced_metadata \<times> enhanced_metadata) option" where
  "initEnhancedMetadata H p_Hasher p_Leading p_Trailing v_TotalSize v_AllocatorID v_ThreadID
       p_BlockBase =
     (case (p_Hasher, p_Leading, p_Trailing) of
        (Some h, Some leading, Some trailing) \<Rightarrow>
          (let allocatorHash = v_AllocatorID;
               threadHash = v_ThreadID;
               (checksum, h') = computeMetadataChecksum H h allocatorHash threadHash p_BlockBase
                                  v_TotalSize v_TotalSize v_TotalSize;
               leading' = leading\<lparr>em_TotalSize := v_TotalSize, em_TotalCommitted := v_TotalSize,
                 em_TotalPoisoned := v_TotalSize, em_AllocatorHash := allocatorHash,
                 em_ThreadHash := threadHash, em_Checksum := checksum\<rparr>
           in Some (h', leading', leading'))
      | _ \<Rightarrow> None)"

definition initNormalMetadata ::
  "normal_metadata option \<Rightarrow> u64 \<Rightarrow> u64 \<Rightarrow> normal_metadata option" where
  "initNormalMetadata p_Meta v_TotalSize v_AllocatorID =
     (case p_Meta of
        None \<Rightarrow> None
      | Some m \<Rightarrow> Some (m\<lparr>nm_TotalSize := v_TotalSize, nm_TotalCommitted := v_TotalSize,
          nm_TotalPoisoned := v_TotalSize, nm_AllocatorHash := v_AllocatorID\<rparr>))"

text \<open>The result and the accumulator, which only a call that reaches the checksum changes.\<close>

definition verifyEnhancedMetadata ::
  "'h hasher \<Rightarrow> 'h option \<Rightarrow> enhanced_metadata option \<Rightarrow> enhanced_metadata option
   \<Rightarrow> u64 \<Rightarrow> u64 \<Rightarrow> u64 \<Rightarrow> addr \<Rightarrow> thread_policy \<Rightarrow> bool \<times> 'h option" where
  "verifyEnhancedMetadata H p_Hasher p_Leading p_Trailing v_ExpectedTotalSize
       v_ExpectedAllocatorID v_ExpectedThreadID p_BlockBase v_Policy =
     (case (p_Hasher, p_Leading, p_Trailing) of
        (Some h, Some leading, Some trailing) \<Rightarrow>
          if em_TotalSize leading \<noteq> v_ExpectedTotalSize then (False, p_Hasher)
          else if em_AllocatorHash leading \<noteq> v_ExpectedAllocatorID then (False, p_Hasher)
          else if v_Policy = Strict \<and> em_ThreadHash leading \<noteq> v_ExpectedThreadID
          then (False, p_Hasher)
          else
            (let (expected, h') = computeMetadataChecksum H h (em_AllocatorHash leading)
                   (em_ThreadHash leading) p_BlockBase (em_TotalSize leading)
                   (em_TotalCommitted leading) (em_TotalPoisoned leading)
             in if em_Checksum leading \<noteq> expected then (False, Some h') else (True, Some h'))
      | _ \<Rightarrow> (False, p_Hasher))"

definition verifyNormalMetadata :: "normal_metadata option \<Rightarrow> u64 \<Rightarrow> u64 \<Rightarrow> bool" where
  "verifyNormalMetadata p_Meta v_ExpectedTotalSize v_ExpectedAllocatorID =
     (case p_Meta of
        None \<Rightarrow> False
      | Some m \<Rightarrow>
          if nm_TotalSize m \<noteq> v_ExpectedTotalSize then False
          else if nm_AllocatorHash m \<noteq> v_ExpectedAllocatorID then False
          else True)"

section \<open>The checksum as a function of the six words\<close>

lemma computeMetadataChecksum_words:
  "fst (computeMetadataChecksum H h a t b s c p) = checksum_of H h [a, t, b, s, c, p]"
  by (simp add: computeMetadataChecksum_def checksum_of_def Let_def)

lemma computeMetadataChecksum_snd:
  "computeMetadataChecksum H h a t b s c p
     = (checksum_of H h [a, t, b, s, c, p], snd (computeMetadataChecksum H h a t b s c p))"
  by (simp add: computeMetadataChecksum_words [symmetric])

lemma verifyEnhanced_iff:
  "fst (verifyEnhancedMetadata H (Some h) (Some l) (Some t) sz al th b pol) \<longleftrightarrow>
     em_TotalSize l = sz \<and> em_AllocatorHash l = al \<and> (pol = Strict \<longrightarrow> em_ThreadHash l = th)
     \<and> em_Checksum l = checksum_of H h [em_AllocatorHash l, em_ThreadHash l, b, em_TotalSize l,
                         em_TotalCommitted l, em_TotalPoisoned l]"
  unfolding verifyEnhancedMetadata_def
  by (subst computeMetadataChecksum_snd) auto

lemma initEnhanced_Some:
  "initEnhancedMetadata H (Some h) (Some l) (Some t) sz al th b = Some (h', l', t') \<Longrightarrow>
     t' = l' \<and> em_TotalSize l' = sz \<and> em_TotalCommitted l' = sz \<and> em_TotalPoisoned l' = sz
     \<and> em_AllocatorHash l' = al \<and> em_ThreadHash l' = th
     \<and> em_Checksum l' = checksum_of H h [al, th, b, sz, sz, sz]"
  unfolding initEnhancedMetadata_def
  by (subst (asm) computeMetadataChecksum_snd) (auto simp: Let_def)

text \<open>The words of a metadata block, in declaration order.\<close>

definition em_words :: "enhanced_metadata \<Rightarrow> u64 list" where
  "em_words m = [em_TotalSize m, em_TotalCommitted m, em_TotalPoisoned m, em_AllocatorHash m,
     em_ThreadHash m, em_Checksum m]"

context mixing_accumulator
begin

text \<open>
  A block that differs from an initialised one in exactly one word never verifies: the two words
  that are compared directly fail there, each of the others changes exactly one of the checksum and
  the words it covers.
\<close>

lemma one_word_never_verifies:
  assumes init: "initEnhancedMetadata H (Some h) (Some l0) (Some t0) sz al th b = Some (h', l, t)"
    and i: "i < 6" and x: "x \<noteq> em_words l ! i" and bad: "em_words l' = (em_words l)[i := x]"
  shows "\<not> fst (verifyEnhancedMetadata H (Some g) (Some l') (Some t') sz al th b pol)"
proof -
  note l = initEnhanced_Some [OF init]
  let ?ws = "[al, th, b, sz, sz, sz]"
  have sum: "em_Checksum l = checksum_of H g ?ws"
    using l checksum_of_any [of h ?ws g] by simp
  have chg: "checksum_of H g (?ws[j := y]) \<noteq> checksum_of H g ?ws" if "j < 6" "y \<noteq> ?ws ! j" for j y
    using checksum_detects_word [of j ?ws y g g] that by simp
  from i consider "i = 0" | "i = 1" | "i = 2" | "i = 3" | "i = 4" | "i = 5" by linarith
  then show ?thesis
  proof cases
    case 2
    with bad x l sum chg [of 4 x] show ?thesis by (auto simp: verifyEnhanced_iff em_words_def)
  next
    case 3
    with bad x l sum chg [of 5 x] show ?thesis
      by (auto simp: verifyEnhanced_iff em_words_def numeral_2_eq_2)
  next
    case 5
    with bad x l sum chg [of 1 x] show ?thesis by (auto simp: verifyEnhanced_iff em_words_def)
  qed (use bad x l sum in \<open>auto simp: verifyEnhanced_iff em_words_def\<close>)
qed

end

section \<open>Properties\<close>

text \<open>
  C37: Freshly initialised metadata verifies, whatever the accumulator (any that meets the concept's
  reset law), its state at the two calls, the thread policy and the previous contents of the block.
\<close>

theorem enhanced_metadata_roundtrip:
  assumes "hash_accumulator H"
    and "initEnhancedMetadata H (Some h) (Some l0) (Some t0) sz al th b = Some (h', l, t)"
  shows "fst (verifyEnhancedMetadata H (Some g) (Some l) (Some t) sz al th b pol)"
  using initEnhanced_Some [OF assms(2)] hash_accumulator.checksum_of_any [OF assms(1), of h _ g]
  by (auto simp: verifyEnhanced_iff)

definition demo_meta :: enhanced_metadata where
  "demo_meta = \<lparr>em_TotalSize = 1, em_TotalCommitted = 2, em_TotalPoisoned = 3, em_AllocatorHash = 4,
     em_ThreadHash = 5, em_Checksum = 6\<rparr>"

lemma demo_init:
  "\<exists>h' l t. initEnhancedMetadata SplitMix64Hash (Some \<lparr>sm_State = 9\<rparr>) (Some demo_meta)
     (Some demo_meta) 256 77 5 4096 = Some (h', l, t)"
  by (simp add: initEnhancedMetadata_def Let_def split: prod.splits)

theorem enhanced_metadata_roundtrip_witness:
  "\<exists>h' l t. initEnhancedMetadata SplitMix64Hash (Some \<lparr>sm_State = 9\<rparr>) (Some demo_meta)
       (Some demo_meta) 256 77 5 4096 = Some (h', l, t)
     \<and> fst (verifyEnhancedMetadata SplitMix64Hash (Some \<lparr>sm_State = 3\<rparr>) (Some l) (Some t)
          256 77 5 4096 Strict)"
proof -
  obtain h' l t where i: "initEnhancedMetadata SplitMix64Hash (Some \<lparr>sm_State = 9\<rparr>)
      (Some demo_meta) (Some demo_meta) 256 77 5 4096 = Some (h', l, t)"
    using demo_init by blast
  with enhanced_metadata_roundtrip [OF splitmix.hash_accumulator_axioms i] show ?thesis by blast
qed

text \<open>
  C38: With either mixing accumulator, corrupting any single word of the leading metadata block
  (its sizes, hashes or the checksum itself) makes the verification fail.
\<close>

theorem enhanced_metadata_detects_word:
  assumes "i < 6" and "x \<noteq> em_words l ! i" and "em_words l' = (em_words l)[i := x]"
  shows "(initEnhancedMetadata SplitMix64Hash (Some h) (Some l0) (Some t0) sz al th b
            = Some (h', l, t)
          \<longrightarrow> \<not> fst (verifyEnhancedMetadata SplitMix64Hash (Some g) (Some l') (Some t) sz al th b pol))
       \<and> (initEnhancedMetadata Murmur3Mix64Hash (Some m) (Some l0) (Some t0) sz al th b
            = Some (m', l, t)
          \<longrightarrow> \<not> fst (verifyEnhancedMetadata Murmur3Mix64Hash (Some k) (Some l') (Some t) sz al th b pol))"
  by (intro conjI impI)
     (erule splitmix.one_word_never_verifies [OF _ assms],
      erule murmur.one_word_never_verifies [OF _ assms])

theorem enhanced_metadata_detects_word_witness:
  "\<exists>h' l t. initEnhancedMetadata SplitMix64Hash (Some \<lparr>sm_State = 9\<rparr>) (Some demo_meta)
       (Some demo_meta) 256 77 5 4096 = Some (h', l, t)
     \<and> \<not> fst (verifyEnhancedMetadata SplitMix64Hash (Some \<lparr>sm_State = 3\<rparr>)
          (Some (l\<lparr>em_TotalPoisoned := 0\<rparr>)) (Some t) 256 77 5 4096 Flexible)"
proof -
  obtain h' l t where i: "initEnhancedMetadata SplitMix64Hash (Some \<lparr>sm_State = 9\<rparr>)
      (Some demo_meta) (Some demo_meta) 256 77 5 4096 = Some (h', l, t)"
    using demo_init by blast
  have "(0 :: u64) \<noteq> em_words l ! 2"
    using initEnhanced_Some [OF i] by (simp add: em_words_def)
  moreover have "em_words (l\<lparr>em_TotalPoisoned := 0\<rparr>) = (em_words l)[2 := 0]"
    by (simp add: em_words_def)
  ultimately show ?thesis
    using i enhanced_metadata_detects_word [of 2 0 l "l\<lparr>em_TotalPoisoned := 0\<rparr>"
        "\<lparr>sm_State = 9\<rparr>" demo_meta demo_meta 256 77 5 4096 h' t "\<lparr>sm_State = 3\<rparr>" Flexible]
    by fastforce
qed

text \<open>
  The verification never looks at the trailing copy: it returns the same result for every
  trailing block, so a corrupted mirror goes unnoticed.
\<close>

theorem verify_ignores_trailing_mirror:
  "verifyEnhancedMetadata H p l (Some t1) sz al th b pol
     = verifyEnhancedMetadata H p l (Some t2) sz al th b pol"
  by (simp add: verifyEnhancedMetadata_def split: option.splits)

text \<open>
  \<open>WyHash64\<close> is not mixing: from a reset accumulator the words 0 and the seed give the same
  state, so this checksum cannot tell an allocator id 0 from the seed value.
\<close>

theorem wyhash_collides:
  "fst (computeMetadataChecksum WyHash64 h 0 t b s c p)
     = fst (computeMetadataChecksum WyHash64 h 0xa0761d6478bd642f t b s c p)"
proof -
  have "WyHash64_add (h_reset WyHash64 h) 0 = WyHash64_add (h_reset WyHash64 h) 0xa0761d6478bd642f"
    by (simp add: WyHash64_def WyHash64_add_def)
  then show ?thesis by (simp add: computeMetadataChecksum_def Let_def WyHash64_def)
qed

end
