(* ===== verification/Kerbecs_Registry.thy ===== *)
theory Kerbecs_Registry
  imports Kerbecs_Memory Kerbecs_Stats Kerbecs_Checksums
begin

text \<open>
  \<open>src/Public/RegistryUtils.h\<close>, \<open>src/Public/AllocationRegistry.h\<close> and
  \<open>src/Private/AllocationRegistry.cpp\<close>: the table of allocations of a region, a hash table whose
  chains run through a pool of nodes that is only ever used up from the front.

  A \<open>RegistryNode*\<close> is the index of the node in the pool (\<open>nat option\<close>, \<open>None\<close> for null); \<open>r_nodes\<close> is
  the pool itself. An operation returns \<open>None\<close> where the code would follow a pointer outside the pool,
  run around a cyclic chain for ever, or spin on a lock its own thread holds. Operations are atomic
  here: each runs to its end before the next one starts. \<open>endRetiring\<close>, which hands a block to the
  quarantine, is in \<open>Kerbecs_Retire\<close>.
\<close>

section \<open>RegistryUtils.h\<close>

text \<open>The argument is the address of the thread's own \<open>t_ThreadAnchor\<close>.\<close>

definition currentThreadID :: "addr \<Rightarrow> u32" where
  "currentThreadID anchor = ucast (drop_bit 32 (anchor * 0x9e3779b97f4a7c15))"

datatype alloc_state = SEmpty | SLive | SRetiring | SQuarantine | SDead

text \<open>A spin lock is its flag. \<open>lock\<close> of a held lock spins; \<open>None\<close> says that it does not return.\<close>

definition spin_lock :: "bool \<Rightarrow> bool option" where
  "spin_lock flag = (if flag then None else Some True)"

definition spin_unlock :: "bool \<Rightarrow> bool" where
  "spin_unlock flag = False"

definition spin_tryLock :: "bool \<Rightarrow> bool \<times> bool" where
  "spin_tryLock flag = (True, \<not> flag)"

record node =
  n_BlockBase :: addr
  n_UserPtr :: addr
  n_BlockSize :: u64
  n_UserSize :: u64
  n_AllocatorID :: u64
  n_Name :: addr
  n_ThreadID :: u32
  n_State :: alloc_state
  n_LiveCount :: u64
  n_DtorLock :: bool
  n_Next :: "nat option"
  n_Generation :: u64

record bucket =
  b_Head :: "nat option"
  b_Lock :: bool

text \<open>The all-zero bytes \<open>init\<close> fills the pool with, and a default-initialised bucket.\<close>

definition node_zero :: node where
  "node_zero = \<lparr>n_BlockBase = null, n_UserPtr = null, n_BlockSize = 0, n_UserSize = 0,
     n_AllocatorID = 0, n_Name = null, n_ThreadID = 0, n_State = SEmpty, n_LiveCount = 0,
     n_DtorLock = False, n_Next = None, n_Generation = 0\<rparr>"

definition bucket_zero :: bucket where
  "bucket_zero = \<lparr>b_Head = None, b_Lock = False\<rparr>"

text \<open>\<open>sizeof(RegistryNode)\<close>: two lines of 64 bytes, the lock's own line, rounded up to 128.\<close>

definition sizeof_RegistryNode :: u64 where "sizeof_RegistryNode = 256"

section \<open>AllocationRegistry\<close>

record registry =
  r_Buckets :: "u64 \<Rightarrow> bucket"
  r_NodeCapacity :: u64
  r_NodeCursor :: u64
  r_Count :: u64
  r_NodePool :: addr
  r_nodes :: "node list"

definition registry_new :: "u64 \<Rightarrow> registry" where
  "registry_new v_NodeCapacity = \<lparr>r_Buckets = (\<lambda>_. bucket_zero), r_NodeCapacity = v_NodeCapacity,
     r_NodeCursor = 0, r_Count = 0, r_NodePool = null, r_nodes = []\<rparr>"

definition regIndex :: "addr \<Rightarrow> u64" where
  "regIndex p = (drop_bit 6 p * 0x9e3779b97f4a7c15) AND (2048 - 1)"

text \<open>The pool has as many nodes as fit in the bytes that were asked for.\<close>

definition registry_init :: "'e os_api \<Rightarrow> 'e \<Rightarrow> registry \<Rightarrow> 'e \<times> registry \<times> bool" where
  "registry_init os e reg =
     (if r_NodeCapacity reg = 0 then (e, reg, False)
      else
        let bytes = r_NodeCapacity reg * sizeof_RegistryNode;
            (e', pool) = mem_allocate os e bytes;
            reg = reg\<lparr>r_NodePool := pool, r_nodes := []\<rparr>
        in if pool = null then (e', reg, False)
           else (e', reg\<lparr>r_nodes := replicate (unat bytes div 256) node_zero, r_NodeCursor := 0,
                        r_Count := 0\<rparr>, True))"

definition registry_shutdown :: "'e os_api \<Rightarrow> 'e \<Rightarrow> registry \<Rightarrow> 'e \<times> registry" where
  "registry_shutdown os e reg =
     (let (e', reg) =
            (if r_NodePool reg \<noteq> null
             then let (e', released) = mem_release os e (r_NodePool reg)
                        (r_NodeCapacity reg * sizeof_RegistryNode)
                  in (e', reg\<lparr>r_NodePool := null, r_nodes := []\<rparr>)
             else (e, reg))
      in (e', reg\<lparr>r_NodeCursor := 0, r_Count := 0\<rparr>))"

definition allocateNode :: "registry \<Rightarrow> registry \<times> nat option" where
  "allocateNode reg =
     (let idx = r_NodeCursor reg;
          reg = reg\<lparr>r_NodeCursor := r_NodeCursor reg + 1\<rparr>
      in if idx \<ge> r_NodeCapacity reg then (reg, None) else (reg, Some (unat idx)))"

text \<open>
  Walking a chain: \<open>None\<close> when the walk leaves the pool or does not end (a chain that ends is no
  longer than the pool, so that much fuel is enough), otherwise the first node with the property.
\<close>

fun chain_walk ::
  "node list \<Rightarrow> (node \<Rightarrow> bool) \<Rightarrow> nat \<Rightarrow> nat option \<Rightarrow> nat option option" where
  "chain_walk ns P fuel None = Some None"
| "chain_walk ns P 0 (Some i) = None"
| "chain_walk ns P (Suc fuel) (Some i) =
     (if i < length ns
      then (if P (ns ! i) then Some (Some i) else chain_walk ns P fuel (n_Next (ns ! i)))
      else None)"

definition registry_find :: "registry \<Rightarrow> addr \<Rightarrow> nat option option" where
  "registry_find reg p_BlockBase =
     (if p_BlockBase = null then Some None
      else chain_walk (r_nodes reg)
             (\<lambda>n. n_State n \<noteq> SDead \<and> n_State n \<noteq> SEmpty \<and> n_BlockBase n = p_BlockBase)
             (length (r_nodes reg)) (b_Head (r_Buckets reg (regIndex p_BlockBase))))"

definition registry_findRange :: "registry \<Rightarrow> addr \<Rightarrow> addr \<Rightarrow> nat option option" where
  "registry_findRange reg p_BlockBase p_Address =
     (if p_BlockBase = null \<or> p_Address = null then Some None
      else chain_walk (r_nodes reg)
             (\<lambda>n. n_State n \<noteq> SDead \<and> n_State n \<noteq> SEmpty \<and> n_BlockBase n = p_BlockBase
                \<and> p_Address \<ge> n_UserPtr n \<and> p_Address - n_UserPtr n < n_UserSize n)
             (length (r_nodes reg)) (b_Head (r_Buckets reg (regIndex p_BlockBase))))"

text \<open>
  The duplicate scan of \<open>insert\<close>: \<open>Some None\<close> when a node of the same base is not dead, otherwise
  the generation for the new node.
\<close>

fun insert_scan ::
  "node list \<Rightarrow> addr \<Rightarrow> nat \<Rightarrow> nat option \<Rightarrow> u64 \<Rightarrow> u64 option option" where
  "insert_scan ns base fuel None nextGeneration = Some (Some nextGeneration)"
| "insert_scan ns base 0 (Some i) nextGeneration = None"
| "insert_scan ns base (Suc fuel) (Some i) nextGeneration =
     (if i < length ns
      then
        (if n_BlockBase (ns ! i) = base
         then (if n_State (ns ! i) \<noteq> SDead then Some None
               else let priorGen = n_Generation (ns ! i)
                    in insert_scan ns base fuel (n_Next (ns ! i))
                         (if priorGen + 1 > nextGeneration then priorGen + 1 else nextGeneration))
         else insert_scan ns base fuel (n_Next (ns ! i)) nextGeneration)
      else None)"

definition set_bucket :: "registry \<Rightarrow> u64 \<Rightarrow> bucket \<Rightarrow> registry" where
  "set_bucket reg i b = reg\<lparr>r_Buckets := (r_Buckets reg)(i := b)\<rparr>"

definition set_node :: "registry \<Rightarrow> nat \<Rightarrow> node \<Rightarrow> registry" where
  "set_node reg i n = reg\<lparr>r_nodes := (r_nodes reg)[i := n]\<rparr>"

definition registry_insert ::
  "registry \<Rightarrow> kstats \<Rightarrow> addr \<Rightarrow> addr \<Rightarrow> u64 \<Rightarrow> u64 \<Rightarrow> u64 \<Rightarrow> u32 \<Rightarrow> addr \<Rightarrow> u64 \<Rightarrow>
   (registry \<times> kstats \<times> bool) option" where
  "registry_insert reg st p_BlockBase p_UserPtr v_BlockSize v_UserSize v_AllocatorID v_ThreadID
     p_Name v_ObjectCount =
     (if p_BlockBase = null then Some (reg, st, False)
      else
        let bi = regIndex p_BlockBase;
            bucket = r_Buckets reg bi
        in (case spin_lock (b_Lock bucket) of None \<Rightarrow> None | Some held \<Rightarrow>
        let unlocked = bucket\<lparr>b_Lock := spin_unlock held\<rparr>
        in (case insert_scan (r_nodes reg) p_BlockBase (length (r_nodes reg)) (b_Head bucket) 1 of
              None \<Rightarrow> None
            | Some None \<Rightarrow> Some (set_bucket reg bi unlocked, st, False)
            | Some (Some nextGeneration) \<Rightarrow>
                (case allocateNode reg of
                   (reg1, None) \<Rightarrow> Some (set_bucket reg1 bi unlocked, st, False)
                 | (reg1, Some i) \<Rightarrow>
                     if i < length (r_nodes reg1) then
                       let head = b_Head bucket;
                           newNode = (r_nodes reg1 ! i)
                             \<lparr>n_Generation := nextGeneration, n_BlockBase := p_BlockBase,
                              n_UserPtr := p_UserPtr, n_BlockSize := v_BlockSize,
                              n_UserSize := v_UserSize, n_AllocatorID := v_AllocatorID,
                              n_ThreadID := v_ThreadID, n_Name := p_Name,
                              n_LiveCount := v_ObjectCount, n_State := SLive, n_Next := head\<rparr>;
                           reg2 = set_bucket (set_node reg1 i newNode) bi (unlocked\<lparr>b_Head := Some i\<rparr>)
                       in Some (reg2\<lparr>r_Count := r_Count reg2 + 1\<rparr>, statsOnInit v_BlockSize st, True)
                     else None))))"

definition beginRetiring ::
  "registry \<Rightarrow> addr \<Rightarrow> u32 \<Rightarrow> thread_policy \<Rightarrow> (registry \<times> nat option) option" where
  "beginRetiring reg p_BlockBase v_CallerThreadID v_Policy =
     (if p_BlockBase = null then Some (reg, None)
      else
        (case registry_find reg p_BlockBase of
           None \<Rightarrow> None
         | Some None \<Rightarrow> Some (reg, None)
         | Some (Some i) \<Rightarrow>
             let node = r_nodes reg ! i
             in if v_Policy = Strict \<and> v_CallerThreadID \<noteq> n_ThreadID node then Some (reg, None)
                else
                  let (flag, got) = spin_tryLock (n_DtorLock node);
                      node = node\<lparr>n_DtorLock := flag\<rparr>
                  in if \<not> got then Some (set_node reg i node, None)
                     else if n_State node \<noteq> SLive
                     then Some (set_node reg i (node\<lparr>n_DtorLock := spin_unlock flag\<rparr>), None)
                     else Some (set_node reg i (node\<lparr>n_State := SRetiring\<rparr>), Some i)))"

definition registry_retire :: "registry \<Rightarrow> addr \<Rightarrow> (registry \<times> bool) option" where
  "registry_retire reg p_BlockBase =
     (if p_BlockBase = null then Some (reg, False)
      else
        (case registry_find reg p_BlockBase of
           None \<Rightarrow> None
         | Some None \<Rightarrow> Some (reg, False)
         | Some (Some i) \<Rightarrow>
             let node = r_nodes reg ! i
             in if n_State node \<noteq> SQuarantine then Some (reg, False)
                else Some (set_node reg i (node\<lparr>n_State := SDead\<rparr>), True)))"

definition registry_liveCount :: "registry \<Rightarrow> u64" where
  "registry_liveCount reg = r_Count reg"

lemmas reg_op_defs = registry_insert_def beginRetiring_def registry_retire_def registry_find_def
  registry_findRange_def

end
