(* ===== verification/Kerbecs_RegistryInv.thy ===== *)
theory Kerbecs_RegistryInv
  imports Kerbecs_Registry
begin

text \<open>
  The invariant of \<open>AllocationRegistry\<close> and what each operation does under it. The nodes below
  \<open>reg_used\<close> are the allocations recorded so far, in order; every bucket's chain lists exactly the
  used nodes whose base hashes to it, the newest first. Two used nodes of the same base are both
  recorded only when the older one is dead, and generations grow along them.
\<close>

definition reg_used :: "registry \<Rightarrow> nat" where
  "reg_used reg = min (unat (r_NodeCursor reg)) (unat (r_NodeCapacity reg))"

fun linked :: "node list \<Rightarrow> nat option \<Rightarrow> nat list \<Rightarrow> bool" where
  "linked ns h [] \<longleftrightarrow> h = None"
| "linked ns h (i # is) \<longleftrightarrow> h = Some i \<and> i < length ns \<and> linked ns (n_Next (ns ! i)) is"

definition chain_of :: "node list \<Rightarrow> nat \<Rightarrow> u64 \<Rightarrow> nat list" where
  "chain_of ns used b = rev (filter (\<lambda>i. regIndex (n_BlockBase (ns ! i)) = b) [0..<used])"

definition counted :: "node \<Rightarrow> bool" where
  "counted n \<longleftrightarrow> n_State n = SLive \<or> n_State n = SRetiring"

definition node_ok :: "nat \<Rightarrow> node \<Rightarrow> bool" where
  "node_ok i n \<longleftrightarrow> n_BlockBase n \<noteq> null \<and> n_State n \<noteq> SEmpty \<and> 1 \<le> n_Generation n
     \<and> unat (n_Generation n) \<le> Suc i \<and> (n_DtorLock n \<longleftrightarrow> n_State n = SRetiring)"

definition reg_inv :: "registry \<Rightarrow> bool" where
  "reg_inv reg \<longleftrightarrow>
     length (r_nodes reg) = unat (r_NodeCapacity reg)
     \<and> (\<forall>b. \<not> b_Lock (r_Buckets reg b)
          \<and> linked (r_nodes reg) (b_Head (r_Buckets reg b)) (chain_of (r_nodes reg) (reg_used reg) b))
     \<and> (\<forall>i < reg_used reg. node_ok i (r_nodes reg ! i))
     \<and> (\<forall>i. reg_used reg \<le> i \<longrightarrow> i < length (r_nodes reg) \<longrightarrow> r_nodes reg ! i = node_zero)
     \<and> (\<forall>j < reg_used reg. \<forall>i < j. n_BlockBase (r_nodes reg ! i) = n_BlockBase (r_nodes reg ! j) \<longrightarrow>
          n_State (r_nodes reg ! i) = SDead
          \<and> n_Generation (r_nodes reg ! i) < n_Generation (r_nodes reg ! j))
     \<and> unat (r_Count reg) = card {i. i < reg_used reg \<and> counted (r_nodes reg ! i)}"

text \<open>Node \<open>i\<close> is the record of the allocation at base \<open>p\<close> that has not died.\<close>

definition reg_holds :: "registry \<Rightarrow> addr \<Rightarrow> nat \<Rightarrow> bool" where
  "reg_holds reg p i \<longleftrightarrow>
     i < reg_used reg \<and> n_BlockBase (r_nodes reg ! i) = p \<and> n_State (r_nodes reg ! i) \<noteq> SDead"

lemma reg_used_le: "reg_inv reg \<Longrightarrow> reg_used reg \<le> length (r_nodes reg)"
  by (simp add: reg_inv_def reg_used_def)

lemma reg_holds_unique:
  assumes "reg_inv reg" and "reg_holds reg p i" and "reg_holds reg p j"
  shows "i = j"
proof (rule ccontr)
  assume "i \<noteq> j"
  then consider "i < j" | "j < i" by linarith
  then show False using assms by cases (auto simp: reg_inv_def reg_holds_def)
qed

lemma set_chain_of:
  "set (chain_of ns used b) = {i. i < used \<and> regIndex (n_BlockBase (ns ! i)) = b}"
  by (auto simp: chain_of_def)

lemma length_chain_of: "length (chain_of ns used b) \<le> used"
  using length_filter_le [of _ "[0..<used]"] by (simp add: chain_of_def)

lemma linked_nth_bound: "linked ns h is \<Longrightarrow> i \<in> set is \<Longrightarrow> i < length ns"
  by (induction ns h "is" rule: linked.induct) auto

lemma linked_update:
  assumes "linked ns h is" and "i \<notin> set is \<or> n_Next n = n_Next (ns ! i)"
  shows "linked (ns[i := n]) h is"
  using assms
proof (induction ns h "is" rule: linked.induct)
  case (2 ns h j js)
  then show ?case by (cases "i = j") auto
qed simp

lemma linked_walk:
  assumes "linked ns h is" and "length is \<le> fuel"
  shows "chain_walk ns P fuel h = Some (List.find (\<lambda>i. P (ns ! i)) is)"
  using assms
proof (induction "is" arbitrary: h fuel)
  case (Cons i js)
  then obtain f where "fuel = Suc f" by (cases fuel) auto
  with Cons show ?case by simp
qed simp

lemma find_Some_iff_unique:
  assumes "\<And>i j. \<lbrakk>i \<in> set xs; j \<in> set xs; P i; P j\<rbrakk> \<Longrightarrow> i = j"
  shows "List.find P xs = Some i \<longleftrightarrow> i \<in> set xs \<and> P i"
proof
  assume "List.find P xs = Some i"
  then show "i \<in> set xs \<and> P i" by (induction xs) (auto split: if_splits)
next
  assume i: "i \<in> set xs \<and> P i"
  then have "List.find P xs \<noteq> None" by (auto simp: find_None_iff)
  then obtain j where j: "List.find P xs = Some j" by auto
  then have "j \<in> set xs \<and> P j" by (induction xs) (auto split: if_splits)
  with i j assms show "List.find P xs = Some i" by blast
qed

section \<open>find and findRange\<close>

lemma registry_walk:
  assumes inv: "reg_inv reg" and P: "\<And>n. P n \<Longrightarrow> n_State n \<noteq> SDead \<and> n_BlockBase n = p"
  obtains r where "chain_walk (r_nodes reg) P (length (r_nodes reg))
        (b_Head (r_Buckets reg (regIndex p))) = Some r"
    and "\<And>i. r = Some i \<longleftrightarrow> reg_holds reg p i \<and> P (r_nodes reg ! i)"
proof -
  let ?c = "chain_of (r_nodes reg) (reg_used reg) (regIndex p)"
  have "linked (r_nodes reg) (b_Head (r_Buckets reg (regIndex p))) ?c"
    using inv by (simp add: reg_inv_def)
  moreover have "length ?c \<le> length (r_nodes reg)"
    using length_chain_of reg_used_le [OF inv] order_trans by blast
  ultimately have w: "chain_walk (r_nodes reg) P (length (r_nodes reg))
      (b_Head (r_Buckets reg (regIndex p))) = Some (List.find (\<lambda>i. P (r_nodes reg ! i)) ?c)"
    by (rule linked_walk)
  have h: "i \<in> set ?c \<and> P (r_nodes reg ! i) \<longleftrightarrow> reg_holds reg p i \<and> P (r_nodes reg ! i)" for i
    using P [of "r_nodes reg ! i"] by (auto simp: set_chain_of reg_holds_def)
  have "List.find (\<lambda>i. P (r_nodes reg ! i)) ?c = Some i
      \<longleftrightarrow> reg_holds reg p i \<and> P (r_nodes reg ! i)" for i
    using find_Some_iff_unique [of ?c "\<lambda>i. P (r_nodes reg ! i)" i]
      h reg_holds_unique [OF inv] by blast
  with w show thesis by (rule that)
qed

lemma registry_find_eq:
  assumes inv: "reg_inv reg"
  obtains r where "registry_find reg p = Some r" and "\<And>i. r = Some i \<longleftrightarrow> reg_holds reg p i"
proof (cases "p = null")
  case True
  have "\<not> reg_holds reg p i" for i
    using inv True by (auto simp: reg_inv_def reg_holds_def node_ok_def)
  then show ?thesis using that [of None] by (simp add: registry_find_def True)
next
  case False
  obtain r where w: "chain_walk (r_nodes reg)
        (\<lambda>n. n_State n \<noteq> SDead \<and> n_State n \<noteq> SEmpty \<and> n_BlockBase n = p)
        (length (r_nodes reg)) (b_Head (r_Buckets reg (regIndex p))) = Some r"
    and r: "\<And>i. r = Some i \<longleftrightarrow> reg_holds reg p i \<and> n_State (r_nodes reg ! i) \<noteq> SDead
        \<and> n_State (r_nodes reg ! i) \<noteq> SEmpty \<and> n_BlockBase (r_nodes reg ! i) = p"
    by (rule registry_walk [OF inv, of "\<lambda>n. n_State n \<noteq> SDead \<and> n_State n \<noteq> SEmpty \<and> n_BlockBase n = p" p]) auto
  have "r = Some i \<longleftrightarrow> reg_holds reg p i" for i
    using r [of i] inv by (auto simp: reg_inv_def reg_holds_def node_ok_def)
  moreover have "registry_find reg p = Some r" using w False by (simp add: registry_find_def)
  ultimately show ?thesis using that by blast
qed

lemma registry_findE:
  assumes "reg_inv reg"
  obtains (missing) "registry_find reg p = Some None" "\<And>i. \<not> reg_holds reg p i"
  | (found) i where "registry_find reg p = Some (Some i)" "reg_holds reg p i"
proof -
  obtain r where r: "registry_find reg p = Some r" "\<And>i. r = Some i \<longleftrightarrow> reg_holds reg p i"
    using registry_find_eq [OF assms, of p] by blast
  show thesis using r missing found by (cases r) auto
qed

section \<open>Changing the state of a node\<close>

lemma reg_used_simps [reg_simps, simp]:
  "reg_used (set_node reg i n) = reg_used reg"
  "reg_used (set_bucket reg b k) = reg_used reg"
  "reg_used (reg\<lparr>r_Count := c\<rparr>) = reg_used reg"
  "reg_used (reg\<lparr>r_nodes := ns\<rparr>) = reg_used reg"
  by (simp_all add: reg_used_def set_node_def set_bucket_def)

lemma chain_of_update:
  assumes "n_BlockBase n = n_BlockBase (ns ! i)"
  shows "chain_of (ns[i := n]) used b = chain_of ns used b"
proof -
  have "n_BlockBase (ns[i := n] ! j) = n_BlockBase (ns ! j)" for j
    using assms by (cases "i < length ns") (auto simp: nth_list_update list_update_beyond)
  then show ?thesis by (simp add: chain_of_def)
qed

lemma card_update:
  fixes used :: nat
  assumes "i < used"
  shows "card {j. j < used \<and> (if j = i then c' else P j)}
    = (if c' then (if P i then card {j. j < used \<and> P j} else Suc (card {j. j < used \<and> P j}))
       else (if P i then card {j. j < used \<and> P j} - 1 else card {j. j < used \<and> P j}))"
proof -
  let ?S = "{j. j < used \<and> P j}"
  have fin: "finite ?S" by simp
  have "{j. j < used \<and> (if j = i then c' else P j)} = (if c' then insert i ?S else ?S - {i})"
    using assms by auto
  then show ?thesis using assms fin by (auto simp: insert_absorb card_Diff_singleton)
qed

lemma reg_inv_update:
  assumes inv: "reg_inv reg" and i: "i < reg_used reg"
    and same: "n_BlockBase n = n_BlockBase (r_nodes reg ! i)" "n_Next n = n_Next (r_nodes reg ! i)"
      "n_Generation n = n_Generation (r_nodes reg ! i)"
    and st: "n_State n \<noteq> SEmpty" "n_State (r_nodes reg ! i) = SDead \<Longrightarrow> n_State n = SDead"
    and lk: "n_DtorLock n \<longleftrightarrow> n_State n = SRetiring"
    and c: "unat c = (if counted n then (if counted (r_nodes reg ! i) then unat (r_Count reg) else Suc (unat (r_Count reg)))
              else (if counted (r_nodes reg ! i) then unat (r_Count reg) - 1 else unat (r_Count reg)))"
  shows "reg_inv ((set_node reg i n)\<lparr>r_Count := c\<rparr>)"
proof -
  let ?ns = "r_nodes reg"
  have il: "i < length ?ns" using i reg_used_le [OF inv] by simp
  have cnt: "(\<lambda>j. j < reg_used reg \<and> counted (?ns[i := n] ! j)) =
      (\<lambda>j. j < reg_used reg \<and> (if j = i then counted n else counted (?ns ! j)))"
    using il by (auto simp: fun_eq_iff)
  have ch: "chain_of (?ns[i := n]) used b = chain_of ?ns used b" for used b
    using same(1) by (rule chain_of_update)
  have lnk: "linked (?ns[i := n]) (b_Head (r_Buckets reg b)) (chain_of ?ns (reg_used reg) b)" for b
    using inv same(2) by (intro linked_update) (auto simp: reg_inv_def)
  have pair: "n_State (?ns[i := n] ! k) = SDead
      \<and> n_Generation (?ns[i := n] ! k) < n_Generation (?ns[i := n] ! j)"
    if "k < j" "j < reg_used reg" "n_BlockBase (?ns[i := n] ! k) = n_BlockBase (?ns[i := n] ! j)" for k j
  proof -
    have "n_BlockBase (?ns ! k) = n_BlockBase (?ns ! j)"
      using that(3) same(1) il by (auto simp: nth_list_update split: if_splits)
    then have "n_State (?ns ! k) = SDead \<and> n_Generation (?ns ! k) < n_Generation (?ns ! j)"
      using inv that(1,2) by (auto simp: reg_inv_def)
    then show ?thesis using same(3) st(2) il by (auto simp: nth_list_update)
  qed
  have ok: "node_ok j (?ns[i := n] ! j)" if "j < reg_used reg" for j
  proof (cases "j = i")
    case True
    have "node_ok i (?ns ! i)" using inv i by (simp add: reg_inv_def)
    then show ?thesis using True il same st lk by (simp add: node_ok_def)
  next
    case False
    then show ?thesis using inv that by (simp add: reg_inv_def)
  qed
  have "unat (r_Count reg) = card {j. j < reg_used reg \<and> counted (?ns ! j)}"
    using inv by (simp add: reg_inv_def)
  then have "unat c = card {j. j < reg_used reg \<and> counted (?ns[i := n] ! j)}"
    unfolding cnt by (simp add: c card_update [OF i, of "counted n" "\<lambda>j. counted (?ns ! j)"])
  then show ?thesis
    using inv ch lnk pair ok i unfolding reg_inv_def
    by (simp add: set_node_def)
qed

section \<open>insert\<close>

fun scan_list :: "node list \<Rightarrow> addr \<Rightarrow> nat list \<Rightarrow> u64 \<Rightarrow> u64 option" where
  "scan_list ns base [] g = Some g"
| "scan_list ns base (i # is) g =
     (if n_BlockBase (ns ! i) = base
      then (if n_State (ns ! i) \<noteq> SDead then None
            else scan_list ns base is (if n_Generation (ns ! i) + 1 > g then n_Generation (ns ! i) + 1 else g))
      else scan_list ns base is g)"

lemma linked_scan:
  assumes "linked ns h is" and "length is \<le> fuel"
  shows "insert_scan ns base fuel h g = Some (scan_list ns base is g)"
  using assms
proof (induction "is" arbitrary: h fuel g)
  case (Cons i js)
  then obtain f where "fuel = Suc f" by (cases fuel) auto
  with Cons show ?case by (simp add: Let_def)
qed simp

lemma scan_list_None:
  "scan_list ns base is g = None \<longleftrightarrow>
     (\<exists>i \<in> set is. n_BlockBase (ns ! i) = base \<and> n_State (ns ! i) \<noteq> SDead)"
  by (induction ns base "is" g rule: scan_list.induct) auto

lemma scan_list_Some:
  assumes "scan_list ns base is g = Some g'"
  shows "g \<le> g'"
    and "\<And>i. \<lbrakk>i \<in> set is; n_BlockBase (ns ! i) = base\<rbrakk> \<Longrightarrow> n_Generation (ns ! i) + 1 \<le> g'"
    and "g' = g \<or> (\<exists>i \<in> set is. n_BlockBase (ns ! i) = base \<and> g' = n_Generation (ns ! i) + 1)"
proof -
  have "g \<le> g' \<and> (\<forall>i \<in> set is. n_BlockBase (ns ! i) = base \<longrightarrow> n_Generation (ns ! i) + 1 \<le> g')
    \<and> (g' = g \<or> (\<exists>i \<in> set is. n_BlockBase (ns ! i) = base \<and> g' = n_Generation (ns ! i) + 1))"
    using assms
  proof (induction "is" arbitrary: g)
    case (Cons i js)
    show ?case
    proof (cases "n_BlockBase (ns ! i) = base")
      case True
      define h where "h = (if n_Generation (ns ! i) + 1 > g then n_Generation (ns ! i) + 1 else g)"
      have "scan_list ns base js h = Some g'" using Cons.prems True by (simp add: h_def split: if_splits)
      from Cons.IH [OF this] have IH: "h \<le> g'"
        "\<forall>i \<in> set js. n_BlockBase (ns ! i) = base \<longrightarrow> n_Generation (ns ! i) + 1 \<le> g'"
        "g' = h \<or> (\<exists>i \<in> set js. n_BlockBase (ns ! i) = base \<and> g' = n_Generation (ns ! i) + 1)"
        by blast+
      have h: "g \<le> h" "n_Generation (ns ! i) + 1 \<le> h" "h = g \<or> h = n_Generation (ns ! i) + 1"
        by (auto simp: h_def not_less)
      show ?thesis using IH h True by (auto intro: order_trans)
    next
      case False
      then have "scan_list ns base js g = Some g'" using Cons.prems by simp
      from Cons.IH [OF this] False show ?thesis by auto
    qed
  qed simp
  then show "g \<le> g'"
    and "\<And>i. \<lbrakk>i \<in> set is; n_BlockBase (ns ! i) = base\<rbrakk> \<Longrightarrow> n_Generation (ns ! i) + 1 \<le> g'"
    and "g' = g \<or> (\<exists>i \<in> set is. n_BlockBase (ns ! i) = base \<and> g' = n_Generation (ns ! i) + 1)"
    by blast+
qed

text \<open>The node \<open>insert\<close> fills in.\<close>

definition fresh_node ::
  "registry \<Rightarrow> u64 \<Rightarrow> addr \<Rightarrow> addr \<Rightarrow> u64 \<Rightarrow> u64 \<Rightarrow> u64 \<Rightarrow> u32 \<Rightarrow> addr \<Rightarrow> u64 \<Rightarrow> node" where
  "fresh_node reg g p u bs us aid tid nm cnt =
     node_zero\<lparr>n_BlockBase := p, n_UserPtr := u, n_BlockSize := bs, n_UserSize := us,
       n_AllocatorID := aid, n_Name := nm, n_ThreadID := tid, n_State := SLive,
       n_LiveCount := cnt, n_Next := b_Head (r_Buckets reg (regIndex p)), n_Generation := g\<rparr>"

definition with_node :: "registry \<Rightarrow> node \<Rightarrow> registry" where
  "with_node reg n =
     reg\<lparr>r_NodeCursor := r_NodeCursor reg + 1,
         r_nodes := (r_nodes reg)[unat (r_NodeCursor reg) := n],
         r_Buckets := (r_Buckets reg)(regIndex (n_BlockBase n) :=
            \<lparr>b_Head = Some (unat (r_NodeCursor reg)), b_Lock = False\<rparr>),
         r_Count := r_Count reg + 1\<rparr>"

lemma bucket_relink: "k\<lparr>b_Lock := l, b_Head := h\<rparr> = (\<lparr>b_Head = h, b_Lock = l\<rparr> :: bucket)"
  by (cases k) simp

lemma bucket_unlocked: "reg_inv reg \<Longrightarrow> b_Lock (r_Buckets reg b) = False"
  by (simp add: reg_inv_def)

lemma bucket_unlock_same: "b_Lock k = False \<Longrightarrow> k\<lparr>b_Lock := False\<rparr> = (k :: bucket)"
  by (cases k) simp

lemma set_bucket_same:
  "b_Lock (r_Buckets reg b) = False \<Longrightarrow> set_bucket reg b ((r_Buckets reg b)\<lparr>b_Lock := False\<rparr>) = reg"
proof -
  assume "b_Lock (r_Buckets reg b) = False"
  then have "(r_Buckets reg b)\<lparr>b_Lock := False\<rparr> = r_Buckets reg b"
    by (rule bucket_unlock_same)
  then show ?thesis by (simp add: set_bucket_def)
qed

lemma registry_insert_cases:
  assumes inv: "reg_inv reg"
    and ins: "registry_insert reg st p u bs us aid tid nm cnt = res"
  obtains (null) "p = null" "res = Some (reg, st, False)"
  | (duplicate) i where "p \<noteq> null" "reg_holds reg p i" "res = Some (reg, st, False)"
  | (exhausted) "p \<noteq> null" "\<And>i. \<not> reg_holds reg p i" "r_NodeCapacity reg \<le> r_NodeCursor reg"
      "res = Some (reg\<lparr>r_NodeCursor := r_NodeCursor reg + 1\<rparr>, st, False)"
  | (added) g where "p \<noteq> null" "\<And>i. \<not> reg_holds reg p i" "r_NodeCursor reg < r_NodeCapacity reg"
      "1 \<le> g" "unat g \<le> Suc (reg_used reg)"
      "\<And>i. i < reg_used reg \<Longrightarrow> n_BlockBase (r_nodes reg ! i) = p \<Longrightarrow> n_Generation (r_nodes reg ! i) < g"
      "res = Some (with_node reg (fresh_node reg g p u bs us aid tid nm cnt), statsOnInit bs st, True)"
proof (cases "p = null")
  case True
  then show ?thesis using ins null by (simp add: registry_insert_def)
next
  case False
  let ?b = "regIndex p"
  let ?c = "chain_of (r_nodes reg) (reg_used reg) ?b"
  note unl = bucket_unlocked [OF inv, of ?b]
  have "linked (r_nodes reg) (b_Head (r_Buckets reg ?b)) ?c" using inv by (simp add: reg_inv_def)
  moreover have "length ?c \<le> length (r_nodes reg)"
    using length_chain_of reg_used_le [OF inv] order_trans by blast
  ultimately have scan: "insert_scan (r_nodes reg) p (length (r_nodes reg))
      (b_Head (r_Buckets reg ?b)) 1 = Some (scan_list (r_nodes reg) p ?c 1)"
    by (rule linked_scan)
  have holds: "(\<exists>i \<in> set ?c. n_BlockBase (r_nodes reg ! i) = p \<and> n_State (r_nodes reg ! i) \<noteq> SDead)
      \<longleftrightarrow> (\<exists>i. reg_holds reg p i)"
    by (auto simp: set_chain_of reg_holds_def)
  show ?thesis
  proof (cases "scan_list (r_nodes reg) p ?c 1")
    case None
    then have "\<exists>i. reg_holds reg p i" using scan_list_None holds by blast
    moreover have "res = Some (reg, st, False)"
      using ins False None unl
      by (simp add: registry_insert_def scan spin_lock_def spin_unlock_def Let_def set_bucket_same)
    ultimately show ?thesis using duplicate False by blast
  next
    case (Some g)
    have none: "\<not> reg_holds reg p i" for i
      using Some scan_list_None [of "r_nodes reg" p ?c 1] holds by simp
    show ?thesis
    proof (cases "r_NodeCapacity reg \<le> r_NodeCursor reg")
      case True
      then have "res = Some (reg\<lparr>r_NodeCursor := r_NodeCursor reg + 1\<rparr>, st, False)"
        using ins False Some unl set_bucket_same [of "reg\<lparr>r_NodeCursor := r_NodeCursor reg + 1\<rparr>" ?b]
        by (simp add: registry_insert_def scan spin_lock_def spin_unlock_def Let_def allocateNode_def)
      then show ?thesis using exhausted False none True by blast
    next
      case lt: False
      then have used: "reg_used reg = unat (r_NodeCursor reg)"
        by (simp add: reg_used_def not_le word_less_nat_alt)
      have len: "unat (r_NodeCursor reg) < length (r_nodes reg)"
        using inv lt by (simp add: reg_inv_def not_le word_less_nat_alt)
      have zero: "r_nodes reg ! unat (r_NodeCursor reg) = node_zero"
        using inv len used by (simp add: reg_inv_def)
      have gens: "unat (n_Generation (r_nodes reg ! i)) \<le> reg_used reg" if "i < reg_used reg" for i
        using inv that by (auto simp: reg_inv_def node_ok_def intro: order_trans)
      have nw: "unat (n_Generation (r_nodes reg ! i) + 1) = Suc (unat (n_Generation (r_nodes reg ! i)))"
        if "i < reg_used reg" for i
      proof (rule unat_succ_nowrap)
        have "length (r_nodes reg) < 18446744073709551616" using inv by (simp add: reg_inv_def)
        then show "unat (n_Generation (r_nodes reg ! i)) < 18446744073709551615"
          using gens [OF that] len used by linarith
      qed
      have gen_lt: "n_Generation (r_nodes reg ! i) < g"
        if "i < reg_used reg" "n_BlockBase (r_nodes reg ! i) = p" for i
        using scan_list_Some(2) [OF Some, of i] that nw [OF that(1)]
        by (simp add: set_chain_of word_le_nat_alt word_less_nat_alt)
      have one: "1 \<le> g" by (rule scan_list_Some(1) [OF Some])
      have upper: "unat g \<le> Suc (reg_used reg)"
        using scan_list_Some(3) [OF Some] gens nw by (auto simp: set_chain_of)
      have "res = Some (with_node reg (fresh_node reg g p u bs us aid tid nm cnt), statsOnInit bs st, True)"
        using ins False Some unl lt len zero
        by (simp add: registry_insert_def scan spin_lock_def spin_unlock_def Let_def allocateNode_def
            with_node_def fresh_node_def set_bucket_def set_node_def bucket_relink node_zero_def)
      then show ?thesis using added [OF False none _ one upper gen_lt] lt by (simp add: not_le)
    qed
  qed
qed

lemma chain_of_Suc:
  "chain_of ns (Suc used) b =
     (if regIndex (n_BlockBase (ns ! used)) = b then used # chain_of ns used b else chain_of ns used b)"
  by (simp add: chain_of_def)

lemma chain_of_outside: "used \<le> i \<Longrightarrow> chain_of (ns[i := n]) used b = chain_of ns used b"
  by (auto simp: chain_of_def intro!: filter_cong)

lemma with_node_used:
  assumes "r_NodeCursor reg < r_NodeCapacity reg"
  shows "reg_used reg = unat (r_NodeCursor reg)" and "reg_used (with_node reg n) = Suc (reg_used reg)"
proof -
  have lt: "unat (r_NodeCursor reg) < unat (r_NodeCapacity reg)"
    using assms by (simp add: word_less_nat_alt)
  show u: "reg_used reg = unat (r_NodeCursor reg)" using lt by (simp add: reg_used_def)
  have "unat (r_NodeCursor reg + 1) = Suc (unat (r_NodeCursor reg))"
    using lt unat_lt_64 [of "r_NodeCapacity reg"] by (intro unat_succ_nowrap) linarith
  then show "reg_used (with_node reg n) = Suc (reg_used reg)"
    using lt u by (simp add: reg_used_def with_node_def)
qed

lemma with_node_nth:
  assumes "reg_inv reg" and "r_NodeCursor reg < r_NodeCapacity reg"
  shows "r_nodes (with_node reg n) ! reg_used reg = n"
    and "\<And>i. i < reg_used reg \<Longrightarrow> r_nodes (with_node reg n) ! i = r_nodes reg ! i"
proof -
  note u = with_node_used(1) [OF assms(2)]
  have "reg_used reg < length (r_nodes reg)"
    using assms by (simp add: u reg_inv_def word_less_nat_alt)
  then show "r_nodes (with_node reg n) ! reg_used reg = n"
    by (simp add: with_node_def u)
  show "\<And>i. i < reg_used reg \<Longrightarrow> r_nodes (with_node reg n) ! i = r_nodes reg ! i"
    by (simp add: with_node_def u)
qed

lemma reg_inv_with_node:
  assumes inv: "reg_inv reg" and p: "p \<noteq> null" and lt: "r_NodeCursor reg < r_NodeCapacity reg"
    and none: "\<And>i. \<not> reg_holds reg p i" and g: "1 \<le> g" "unat g \<le> Suc (reg_used reg)"
    and gens: "\<And>i. i < reg_used reg \<Longrightarrow> n_BlockBase (r_nodes reg ! i) = p \<Longrightarrow>
      n_Generation (r_nodes reg ! i) < g"
  shows "reg_inv (with_node reg (fresh_node reg g p u bs us aid tid nm cnt))" (is "reg_inv ?r")
proof -
  let ?n = "fresh_node reg g p u bs us aid tid nm cnt"
  let ?u = "reg_used reg"
  note used = with_node_used [OF lt]
  have ulen: "?u < length (r_nodes reg)"
    using inv lt by (simp add: used reg_inv_def word_less_nat_alt)
  note nth = with_node_nth(1) [OF inv lt, of ?n] with_node_nth(2) [OF inv lt, where n = ?n] ulen
  have nodes: "r_nodes ?r = (r_nodes reg)[?u := ?n]" by (simp add: with_node_def used)
  have base: "n_BlockBase ?n = p" "n_State ?n = SLive" "n_Generation ?n = g" "n_DtorLock ?n = False"
    "n_Next ?n = b_Head (r_Buckets reg (regIndex p))"
    by (simp_all add: fresh_node_def node_zero_def)
  have len: "length (r_nodes ?r) = unat (r_NodeCapacity ?r)" "r_NodeCapacity ?r = r_NodeCapacity reg"
    using inv by (simp_all add: with_node_def reg_inv_def)
  have bk: "r_Buckets ?r = (r_Buckets reg)(regIndex p := \<lparr>b_Head = Some ?u, b_Lock = False\<rparr>)"
    by (simp add: with_node_def base used)
  have lnk: "linked (r_nodes ?r) (b_Head (r_Buckets ?r b)) (chain_of (r_nodes ?r) (reg_used ?r) b)" for b
  proof -
    have old: "linked (r_nodes ?r) (b_Head (r_Buckets reg b)) (chain_of (r_nodes reg) ?u b)"
      unfolding nodes using inv by (intro linked_update) (auto simp: reg_inv_def set_chain_of)
    have ch: "chain_of (r_nodes ?r) (Suc ?u) b =
        (if regIndex p = b then ?u # chain_of (r_nodes reg) ?u b else chain_of (r_nodes reg) ?u b)"
      unfolding chain_of_Suc nth(1) base(1) by (simp add: nodes chain_of_outside)
    show ?thesis
    proof (cases "b = regIndex p")
      case True
      then show ?thesis using old nth(1,3) unfolding used(2) ch bk by (simp add: base nodes)
    next
      case False
      then show ?thesis using old unfolding used(2) ch bk by simp
    qed
  qed
  have ok: "node_ok i (r_nodes ?r ! i)" if "i < reg_used ?r" for i
  proof (cases "i = ?u")
    case True
    then show ?thesis using nth(1) base p g by (simp add: node_ok_def)
  next
    case False
    then have "i < ?u" using that used by simp
    then show ?thesis using nth(2) inv by (simp add: reg_inv_def)
  qed
  have pair: "n_State (r_nodes ?r ! i) = SDead \<and> n_Generation (r_nodes ?r ! i) < n_Generation (r_nodes ?r ! j)"
    if "i < j" "j < reg_used ?r" "n_BlockBase (r_nodes ?r ! i) = n_BlockBase (r_nodes ?r ! j)" for i j
  proof (cases "j = ?u")
    case True
    with that have i: "i < ?u" "n_BlockBase (r_nodes reg ! i) = p" using nth base by simp_all
    then have "n_State (r_nodes reg ! i) = SDead" using none [of i] by (simp add: reg_holds_def)
    then show ?thesis using gens [OF i] nth i True base by simp
  next
    case False
    then have "j < ?u" using that used by simp
    then show ?thesis using that nth(2) inv by (auto simp: reg_inv_def)
  qed
  have zero: "r_nodes ?r ! i = node_zero" if "reg_used ?r \<le> i" "i < length (r_nodes ?r)" for i
    using that inv used by (simp add: nodes reg_inv_def)
  have set: "{i. i < reg_used ?r \<and> counted (r_nodes ?r ! i)}
      = insert ?u {i. i < ?u \<and> counted (r_nodes reg ! i)}" (is "_ = insert _ ?S")
    using nth base unfolding used(2) by (auto simp: counted_def less_Suc_eq)
  have "card ?S \<le> card {..<?u}" by (rule card_mono) auto
  then have "unat (r_Count reg) \<le> ?u" using inv by (simp add: reg_inv_def)
  then have "unat (r_Count reg + 1) = Suc (unat (r_Count reg))"
    using used(1) lt unat_lt_64 [of "r_NodeCapacity reg"]
    by (intro unat_succ_nowrap) (unfold word_less_nat_alt, linarith)
  then have cnt: "unat (r_Count ?r) = card {i. i < reg_used ?r \<and> counted (r_nodes ?r ! i)}"
    unfolding set using inv by (simp add: reg_inv_def with_node_def)
  have lock: "\<not> b_Lock (r_Buckets ?r b)" for b using inv by (simp add: bk reg_inv_def)
  show ?thesis unfolding reg_inv_def using len lnk ok pair zero cnt lock by blast
qed

lemma unat_minus_one_64: "unat (- 1 :: u64) = 18446744073709551615"
  by (simp add: unsigned_minus_1_eq_mask mask_eq_exp_minus_1)

lemma unat_succ_not_max: "x \<noteq> - 1 \<Longrightarrow> unat (x + 1 :: u64) = Suc (unat x)"
  using unat_minus_one_64 unat_lt_64 [of x] word_eq_iff_unat [of x "- 1"] by (intro unat_succ_nowrap) linarith

lemma reg_inv_cursor:
  assumes "reg_inv reg" and "r_NodeCapacity reg \<le> r_NodeCursor reg" and "r_NodeCursor reg \<noteq> - 1"
  shows "reg_inv (reg\<lparr>r_NodeCursor := r_NodeCursor reg + 1\<rparr>)"
    and "reg_used (reg\<lparr>r_NodeCursor := r_NodeCursor reg + 1\<rparr>) = reg_used reg"
proof -
  have "unat (r_NodeCursor reg + 1) = Suc (unat (r_NodeCursor reg))" by (rule unat_succ_not_max [OF assms(3)])
  then show u: "reg_used (reg\<lparr>r_NodeCursor := r_NodeCursor reg + 1\<rparr>) = reg_used reg"
    using assms(2) by (simp add: reg_used_def word_le_nat_alt)
  show "reg_inv (reg\<lparr>r_NodeCursor := r_NodeCursor reg + 1\<rparr>)"
    using assms(1) unfolding reg_inv_def u by simp
qed

lemma registry_insert_inv:
  assumes "reg_inv reg" and "r_NodeCursor reg \<noteq> - 1"
    and "registry_insert reg st p u bs us aid tid nm cnt = Some (reg', st', b)"
  shows "reg_inv reg'"
  by (rule registry_insert_cases [OF assms(1,3)])
    (use assms in \<open>auto intro: reg_inv_with_node reg_inv_cursor(1)\<close>)

lemma registry_insert_total:
  assumes "reg_inv reg"
  shows "\<exists>r. registry_insert reg st p u bs us aid tid nm cnt = Some r"
proof -
  obtain res where r: "registry_insert reg st p u bs us aid tid nm cnt = res" by blast
  show ?thesis unfolding r by (rule registry_insert_cases [OF assms r]) auto
qed

lemma registry_insert_succeeds:
  assumes "reg_inv reg" and "p \<noteq> null" and "\<And>i. \<not> reg_holds reg p i" and "r_NodeCursor reg < r_NodeCapacity reg"
  obtains g where "1 \<le> g" "unat g \<le> Suc (reg_used reg)"
    "\<And>i. i < reg_used reg \<Longrightarrow> n_BlockBase (r_nodes reg ! i) = p \<Longrightarrow> n_Generation (r_nodes reg ! i) < g"
    "registry_insert reg st p u bs us aid tid nm cnt
      = Some (with_node reg (fresh_node reg g p u bs us aid tid nm cnt), statsOnInit bs st, True)"
proof -
  obtain res where r: "registry_insert reg st p u bs us aid tid nm cnt = res" by blast
  show thesis
  proof (rule registry_insert_cases [OF assms(1) r])
    assume "r_NodeCapacity reg \<le> r_NodeCursor reg"
    then show thesis using assms(4) by simp
  next
    fix g
    assume "1 \<le> g" "unat g \<le> Suc (reg_used reg)"
      "\<And>i. i < reg_used reg \<Longrightarrow> n_BlockBase (r_nodes reg ! i) = p \<Longrightarrow> n_Generation (r_nodes reg ! i) < g"
      "res = Some (with_node reg (fresh_node reg g p u bs us aid tid nm cnt), statsOnInit bs st, True)"
    then show thesis using that r by blast
  qed (use assms in auto)
qed

section \<open>beginRetiring and retire\<close>

text \<open>An update of one node that keeps the number of counted nodes.\<close>

lemma reg_count_pos:
  assumes "reg_inv reg" and "i < reg_used reg" and "counted (r_nodes reg ! i)"
  shows "0 < unat (r_Count reg)"
proof -
  let ?S = "{i. i < reg_used reg \<and> counted (r_nodes reg ! i)}"
  have "i \<in> ?S" and "finite ?S" using assms by auto
  then have "0 < card ?S" using card_gt_0_iff by blast
  then show ?thesis using assms(1) by (simp add: reg_inv_def)
qed

lemma set_node_count: "(set_node reg i n)\<lparr>r_Count := r_Count reg\<rparr> = set_node reg i n"
  by (simp add: set_node_def)

lemma reg_inv_set_node:
  assumes "reg_inv reg" and "i < reg_used reg"
    and "n_BlockBase n = n_BlockBase (r_nodes reg ! i)" "n_Next n = n_Next (r_nodes reg ! i)"
      "n_Generation n = n_Generation (r_nodes reg ! i)"
    and "n_State n \<noteq> SEmpty" and "n_State (r_nodes reg ! i) = SDead \<Longrightarrow> n_State n = SDead"
    and "n_DtorLock n \<longleftrightarrow> n_State n = SRetiring" and "counted n \<longleftrightarrow> counted (r_nodes reg ! i)"
  shows "reg_inv (set_node reg i n)"
  using reg_inv_update [OF assms(1-8), of "r_Count reg"] assms(9) by (simp add: set_node_count)

lemma set_node_same: "set_node reg i (r_nodes reg ! i) = reg"
  by (simp add: set_node_def)

lemma node_lock_same: "n_DtorLock n = l \<Longrightarrow> n\<lparr>n_DtorLock := l\<rparr> = (n :: node)"
  by (cases n) simp

lemma beginRetiring_cases:
  assumes inv: "reg_inv reg" and r: "beginRetiring reg p tid pol = res"
  obtains (missing) "\<And>i. \<not> reg_holds reg p i" "res = Some (reg, None)"
  | (refused) i where "reg_holds reg p i" "res = Some (reg, None)"
      "n_State (r_nodes reg ! i) \<noteq> SLive \<or> pol = Strict \<and> tid \<noteq> n_ThreadID (r_nodes reg ! i)"
  | (taken) i where "reg_holds reg p i" "n_State (r_nodes reg ! i) = SLive"
      "pol = Strict \<longrightarrow> tid = n_ThreadID (r_nodes reg ! i)"
      "res = Some (set_node reg i ((r_nodes reg ! i)\<lparr>n_DtorLock := True, n_State := SRetiring\<rparr>), Some i)"
proof (rule registry_findE [OF inv, of p])
  assume f: "registry_find reg p = Some None" and none: "\<And>i. \<not> reg_holds reg p i"
  then have "res = Some (reg, None)" using r by (simp add: beginRetiring_def split: if_splits)
  with none missing show thesis by blast
next
  fix i assume f: "registry_find reg p = Some (Some i)" and h: "reg_holds reg p i"
  let ?n = "r_nodes reg ! i"
  have ok: "node_ok i ?n" and p: "n_BlockBase ?n = p" using inv h by (auto simp: reg_inv_def reg_holds_def)
  then have p0: "p \<noteq> null" by (auto simp: node_ok_def)
  consider (strict) "pol = Strict \<and> tid \<noteq> n_ThreadID ?n"
    | (retiring) "\<not> (pol = Strict \<and> tid \<noteq> n_ThreadID ?n)" "n_State ?n = SRetiring"
    | (other) "\<not> (pol = Strict \<and> tid \<noteq> n_ThreadID ?n)" "n_State ?n \<noteq> SRetiring" "n_State ?n \<noteq> SLive"
    | (live) "\<not> (pol = Strict \<and> tid \<noteq> n_ThreadID ?n)" "n_State ?n = SLive" by blast
  then show thesis
  proof cases
    case strict
    then have "res = Some (reg, None)" using r f p0 by (simp add: beginRetiring_def Let_def)
    with h strict refused show thesis by blast
  next
    case retiring
    then have "n_DtorLock ?n = True" using ok by (simp add: node_ok_def)
    then have "res = Some (reg, None)" using r f p0 retiring(1)
      by (simp add: beginRetiring_def Let_def spin_tryLock_def node_lock_same set_node_same)
    with h retiring(2) refused show thesis by auto
  next
    case other
    then have "n_DtorLock ?n = False" using ok by (simp add: node_ok_def)
    then have "res = Some (reg, None)" using r f p0 other
      by (simp add: beginRetiring_def Let_def spin_tryLock_def spin_unlock_def node_lock_same set_node_same)
    with h other refused show thesis by blast
  next
    case live
    then have "n_DtorLock ?n = False" using ok by (simp add: node_ok_def)
    then have "res = Some (set_node reg i (?n\<lparr>n_DtorLock := True, n_State := SRetiring\<rparr>), Some i)"
      using r f p0 live by (simp add: beginRetiring_def Let_def spin_tryLock_def)
    with h live taken show thesis by blast
  qed
qed

lemma beginRetiring_inv:
  assumes "reg_inv reg" and "beginRetiring reg p tid pol = Some (reg', r)"
  shows "reg_inv reg'"
  by (rule beginRetiring_cases [OF assms])
    (use assms(1) in \<open>auto simp: reg_holds_def counted_def intro!: reg_inv_set_node\<close>)

lemma registry_retire_cases:
  assumes inv: "reg_inv reg" and r: "registry_retire reg p = res"
  obtains (missing) "\<And>i. \<not> reg_holds reg p i" "res = Some (reg, False)"
  | (refused) i where "reg_holds reg p i" "n_State (r_nodes reg ! i) \<noteq> SQuarantine" "res = Some (reg, False)"
  | (retired) i where "reg_holds reg p i" "n_State (r_nodes reg ! i) = SQuarantine"
      "res = Some (set_node reg i ((r_nodes reg ! i)\<lparr>n_State := SDead\<rparr>), True)"
proof (rule registry_findE [OF inv, of p])
  assume f: "registry_find reg p = Some None" and none: "\<And>i. \<not> reg_holds reg p i"
  then have "res = Some (reg, False)" using r by (simp add: registry_retire_def split: if_splits)
  with none missing show thesis by blast
next
  fix i assume f: "registry_find reg p = Some (Some i)" and h: "reg_holds reg p i"
  have p0: "p \<noteq> null" using inv h by (auto simp: reg_inv_def reg_holds_def node_ok_def)
  show thesis
    using r f p0 h refused retired by (auto simp: registry_retire_def Let_def split: if_splits)
qed

lemma registry_retire_inv:
  assumes "reg_inv reg" and "registry_retire reg p = Some (reg', b)"
  shows "reg_inv reg'"
proof (rule registry_retire_cases [OF assms])
  fix i assume h: "reg_holds reg p i" "n_State (r_nodes reg ! i) = SQuarantine"
    and r: "Some (reg', b) = Some (set_node reg i ((r_nodes reg ! i)\<lparr>n_State := SDead\<rparr>), True)"
  have i: "i < reg_used reg" using h(1) by (simp add: reg_holds_def)
  have "n_DtorLock (r_nodes reg ! i) = False" using assms(1) i h(2) by (simp add: reg_inv_def node_ok_def)
  then show "reg_inv reg'"
    using reg_inv_set_node [OF assms(1) i, of "(r_nodes reg ! i)\<lparr>n_State := SDead\<rparr>"] r h
    by (simp add: counted_def)
qed (use assms in auto)

section \<open>init\<close>

lemma registry_init_inv:
  assumes "registry_init os e (registry_new cap) = (e', reg, True)" and "unat cap < 2 ^ 56"
  shows "reg_inv reg"
proof -
  have "unat (cap * sizeof_RegistryNode) = unat cap * 256"
    using assms(2) by (simp add: sizeof_RegistryNode_def unat_word_ariths)
  then have "r_nodes reg = replicate (unat cap) node_zero" "r_NodeCapacity reg = cap"
    "r_NodeCursor reg = 0" "r_Count reg = 0" "r_Buckets reg = (\<lambda>_. bucket_zero)"
    using assms(1) by (auto simp: registry_init_def registry_new_def Let_def split: if_splits prod.splits)
  then show ?thesis
    by (simp add: reg_inv_def reg_used_def bucket_zero_def chain_of_def)
qed

section \<open>The contract of an allocation table\<close>

text \<open>
  What the region and the quarantine rely on: a lookup always returns, and it returns exactly the
  record that holds the base.
\<close>

locale allocation_table =
  fixes inv :: "'s \<Rightarrow> bool"
    and find :: "'s \<Rightarrow> addr \<Rightarrow> nat option option"
    and holds :: "'s \<Rightarrow> addr \<Rightarrow> nat \<Rightarrow> bool"
  assumes find_exact: "inv s \<Longrightarrow> \<exists>r. find s p = Some r \<and> (\<forall>i. r = Some i \<longleftrightarrow> holds s p i)"
begin

lemma find_Some_iff: "inv s \<Longrightarrow> find s p = Some (Some i) \<longleftrightarrow> holds s p i"
proof -
  assume "inv s"
  then obtain r where r: "find s p = Some r" "\<forall>i. r = Some i \<longleftrightarrow> holds s p i"
    using find_exact by blast
  then show ?thesis by simp
qed

lemma find_None_iff: "inv s \<Longrightarrow> find s p = Some None \<longleftrightarrow> (\<forall>i. \<not> holds s p i)"
proof -
  assume "inv s"
  then obtain r where r: "find s p = Some r" "\<forall>i. r = Some i \<longleftrightarrow> holds s p i"
    using find_exact by blast
  then show ?thesis by (cases r) auto
qed

lemma find_cong:
  assumes "inv s" and "inv s'" and "\<And>i. holds s p i \<longleftrightarrow> holds s' q i"
  shows "find s p = find s' q"
proof (cases "\<exists>i. holds s p i")
  case True
  then obtain i where "holds s p i" by blast
  then have "find s p = Some (Some i)" "find s' q = Some (Some i)"
    using find_Some_iff assms by blast+
  then show ?thesis by simp
next
  case False
  then have "find s p = Some None" "find s' q = Some None" using find_None_iff assms by blast+
  then show ?thesis by simp
qed

end

interpretation tbl: allocation_table reg_inv registry_find reg_holds
proof unfold_locales
  fix reg p assume "reg_inv reg"
  then show "\<exists>r. registry_find reg p = Some r \<and> (\<forall>i. r = Some i \<longleftrightarrow> reg_holds reg p i)"
    by (rule registry_find_eq [of reg p]) blast
qed

lemma reg_holds_unused: "\<not> reg_holds reg q (reg_used reg)"
  by (simp add: reg_holds_def)

lemma reg_holds_with_node:
  assumes "reg_inv reg" and "r_NodeCursor reg < r_NodeCapacity reg" and "n_State n \<noteq> SDead"
  shows "reg_holds (with_node reg n) q i \<longleftrightarrow>
    (if i = reg_used reg then n_BlockBase n = q else reg_holds reg q i)"
proof -
  note u = with_node_used [OF assms(2)]
  show ?thesis
    using with_node_nth(1) [OF assms(1,2), of n] with_node_nth(2) [OF assms(1,2), where n = n and i = i] assms(3)
    by (auto simp: reg_holds_def u(2) less_Suc_eq)
qed

section \<open>Properties\<close>

text \<open>A registry of two nodes right after \<open>init\<close>, and the same with one allocation recorded.\<close>

definition registry_demo :: registry where
  "registry_demo = (registry_new 2)\<lparr>r_NodePool := 65536, r_nodes := [node_zero, node_zero]\<rparr>"

definition registry_demo1 :: registry where
  "registry_demo1 = with_node registry_demo (fresh_node registry_demo 1 4096 4160 256 64 1 7 0 1)"

lemma registry_demo_inv: "reg_inv registry_demo"
  by (auto simp: registry_demo_def registry_new_def reg_inv_def reg_used_def bucket_zero_def chain_of_def
      nth_Cons split: nat.splits)

lemma registry_demo1_inv: "reg_inv registry_demo1"
  unfolding registry_demo1_def
  by (rule reg_inv_with_node [OF registry_demo_inv])
    (simp_all add: registry_demo_def registry_new_def reg_used_def reg_holds_def)

lemma registry_demo1_node: "r_nodes registry_demo1 ! 0 =
    \<lparr>n_BlockBase = 4096, n_UserPtr = 4160, n_BlockSize = 256, n_UserSize = 64, n_AllocatorID = 1,
     n_Name = 0, n_ThreadID = 7, n_State = SLive, n_LiveCount = 1, n_DtorLock = False, n_Next = None,
     n_Generation = 1\<rparr>"
  and registry_demo1_used: "reg_used registry_demo1 = 1"
  by (simp_all add: registry_demo1_def with_node_def fresh_node_def node_zero_def registry_demo_def
      registry_new_def reg_used_def bucket_zero_def)

lemma registry_demo1_holds: "reg_holds registry_demo1 4096 0"
  by (simp add: reg_holds_def registry_demo1_node registry_demo1_used)

text \<open>
  C23: \<open>find\<close> returns, and its result is the index of the one recorded allocation at that base that
  is not dead, or null when there is none; \<open>findRange\<close> does the same for an address inside the
  payload of that allocation.
\<close>

theorem registry_find_exact:
  assumes "reg_inv reg"
  shows "(\<exists>r. registry_find reg p = Some r \<and> (\<forall>i. r = Some i \<longleftrightarrow> reg_holds reg p i))
    \<and> (a \<noteq> null \<longrightarrow> (\<exists>r. registry_findRange reg p a = Some r \<and>
         (\<forall>i. r = Some i \<longleftrightarrow> reg_holds reg p i \<and> n_UserPtr (r_nodes reg ! i) \<le> a
            \<and> a - n_UserPtr (r_nodes reg ! i) < n_UserSize (r_nodes reg ! i))))"
proof (intro conjI impI)
  show "\<exists>r. registry_find reg p = Some r \<and> (\<forall>i. r = Some i \<longleftrightarrow> reg_holds reg p i)"
    using assms by (rule tbl.find_exact)
  assume a: "a \<noteq> null"
  let ?in = "\<lambda>n. n_UserPtr n \<le> a \<and> a - n_UserPtr n < n_UserSize n"
  let ?P = "\<lambda>n. n_State n \<noteq> SDead \<and> n_State n \<noteq> SEmpty \<and> n_BlockBase n = p \<and> ?in n"
  have alive: "reg_holds reg p i \<Longrightarrow> n_State (r_nodes reg ! i) \<noteq> SEmpty \<and> p \<noteq> null" for i
    using assms by (auto simp: reg_inv_def reg_holds_def node_ok_def)
  show "\<exists>r. registry_findRange reg p a = Some r \<and> (\<forall>i. r = Some i \<longleftrightarrow> reg_holds reg p i \<and> ?in (r_nodes reg ! i))"
  proof (cases "p = null")
    case True
    then show ?thesis using alive by (auto simp: registry_findRange_def)
  next
    case False
    obtain r where w: "chain_walk (r_nodes reg) ?P (length (r_nodes reg))
          (b_Head (r_Buckets reg (regIndex p))) = Some r"
      and r: "\<And>i. r = Some i \<longleftrightarrow> reg_holds reg p i \<and> ?P (r_nodes reg ! i)"
      by (rule registry_walk [OF assms, of ?P p]) auto
    have "r = Some i \<longleftrightarrow> reg_holds reg p i \<and> ?in (r_nodes reg ! i)" for i
      using r [of i] alive [of i] by (auto simp: reg_holds_def)
    then show ?thesis using w False a by (simp add: registry_findRange_def)
  qed
qed

theorem registry_find_exact_witness:
  "registry_find registry_demo1 4096 = Some (Some 0) \<and> registry_findRange registry_demo1 4096 4223 = Some (Some 0)"
  using registry_find_exact [OF registry_demo1_inv, of 4096 4223] registry_demo1_holds
  by (auto simp: registry_demo1_node)

text \<open>
  C4: \<open>insert\<close> on every branch. It always returns. It fails on a null base, on a base whose recorded
  allocation is not dead, and when every node of the pool has been used once; the failures change
  no record. Otherwise the new record is live, is what \<open>find\<close> returns for its base, has a generation
  above that of every earlier allocation at that base, no other base's lookup changes, the live
  count grows by one and the statistics count the block.
\<close>

theorem registry_insert_exact:
  assumes inv: "reg_inv reg" and wrap: "r_NodeCursor reg \<noteq> - 1"
  shows "\<exists>reg' st' ok. registry_insert reg st p u bs us aid tid nm cnt = Some (reg', st', ok)
    \<and> reg_inv reg'
    \<and> (ok \<longleftrightarrow> p \<noteq> null \<and> registry_find reg p = Some None \<and> r_NodeCursor reg < r_NodeCapacity reg)
    \<and> (\<not> ok \<longrightarrow> r_nodes reg' = r_nodes reg \<and> st' = st \<and> r_Count reg' = r_Count reg)
    \<and> (ok \<longrightarrow> (\<exists>i. registry_find reg' p = Some (Some i) \<and> n_State (r_nodes reg' ! i) = SLive
          \<and> n_UserPtr (r_nodes reg' ! i) = u \<and> n_BlockSize (r_nodes reg' ! i) = bs
          \<and> n_UserSize (r_nodes reg' ! i) = us \<and> n_ThreadID (r_nodes reg' ! i) = tid
          \<and> n_LiveCount (r_nodes reg' ! i) = cnt
          \<and> (\<forall>j < reg_used reg. r_nodes reg' ! j = r_nodes reg ! j \<and>
               (n_BlockBase (r_nodes reg ! j) = p \<longrightarrow>
                 n_Generation (r_nodes reg ! j) < n_Generation (r_nodes reg' ! i))))
        \<and> (\<forall>q. q \<noteq> p \<longrightarrow> registry_find reg' q = registry_find reg q)
        \<and> r_Count reg' = r_Count reg + 1 \<and> st' = statsOnInit bs st)"
    (is "\<exists>reg' st' ok. ?R = _ \<and> ?Q reg' st' ok")
proof -
  obtain res where r: "?R = res" by blast
  show ?thesis
  proof (rule registry_insert_cases [OF inv r])
    assume h: "p = null" "res = Some (reg, st, False)"
    show ?thesis unfolding r h(2) using inv h(1) by auto
  next
    fix i assume h: "p \<noteq> null" "reg_holds reg p i" "res = Some (reg, st, False)"
    then have "registry_find reg p = Some (Some i)" by (simp add: tbl.find_Some_iff [OF inv])
    then show ?thesis unfolding r h(3) using inv h(1) by auto
  next
    assume h: "r_NodeCapacity reg \<le> r_NodeCursor reg"
      "res = Some (reg\<lparr>r_NodeCursor := r_NodeCursor reg + 1\<rparr>, st, False)"
    then show ?thesis using reg_inv_cursor(1) [OF inv h(1) wrap] by (simp add: r not_less)
  next
    fix g
    let ?n = "fresh_node reg g p u bs us aid tid nm cnt"
    let ?r = "with_node reg ?n"
    let ?i = "reg_used reg"
    assume a: "p \<noteq> null" "\<And>i. \<not> reg_holds reg p i" "r_NodeCursor reg < r_NodeCapacity reg"
      "1 \<le> g" "unat g \<le> Suc ?i"
      "\<And>i. i < ?i \<Longrightarrow> n_BlockBase (r_nodes reg ! i) = p \<Longrightarrow> n_Generation (r_nodes reg ! i) < g"
      "res = Some (?r, statsOnInit bs st, True)"
    have inv': "reg_inv ?r" using reg_inv_with_node [OF inv a(1,3,2,4,5,6)] .
    have n: "n_State ?n = SLive" "n_BlockBase ?n = p" "n_UserPtr ?n = u" "n_BlockSize ?n = bs"
      "n_UserSize ?n = us" "n_ThreadID ?n = tid" "n_LiveCount ?n = cnt" "n_Generation ?n = g"
      by (simp_all add: fresh_node_def)
    have holds: "reg_holds ?r q j \<longleftrightarrow> (if j = ?i then p = q else reg_holds reg q j)" for q j
      using reg_holds_with_node [OF inv a(3), of ?n q j] n by simp
    have "registry_find ?r p = Some (Some ?i)" by (simp add: tbl.find_Some_iff [OF inv'] holds)
    moreover have "registry_find ?r q = registry_find reg q" if "q \<noteq> p" for q
      using that by (intro tbl.find_cong [OF inv' inv]) (auto simp: holds reg_holds_unused)
    moreover have "registry_find reg p = Some None" using a(2) tbl.find_None_iff [OF inv] by blast
    ultimately show ?thesis
      using inv' a n with_node_nth(1) [OF inv a(3), of ?n] with_node_nth(2) [OF inv a(3), where n = ?n]
      unfolding r a(7)
      by (intro exI [of _ ?r] exI [of _ "statsOnInit bs st"] exI [of _ True])
        (auto simp: with_node_def)
  qed
qed

theorem registry_insert_exact_witness:
  "\<exists>reg' st' i. registry_insert registry_demo1 stats_zero 8192 8256 256 64 1 7 0 1 = Some (reg', st', True)
     \<and> registry_find reg' 8192 = Some (Some i) \<and> registry_find reg' 4096 = Some (Some 0)"
proof -
  have c: "r_NodeCursor registry_demo1 = 1" "r_NodeCapacity registry_demo1 = 2"
    by (simp_all add: registry_demo1_def with_node_def registry_demo_def registry_new_def)
  have "\<not> reg_holds registry_demo1 8192 i" for i
    by (cases "i = 0") (simp_all add: reg_holds_def registry_demo1_used registry_demo1_node)
  then have none: "registry_find registry_demo1 8192 = Some None"
    using tbl.find_None_iff [OF registry_demo1_inv] by blast
  have "registry_find registry_demo1 4096 = Some (Some 0)"
    using tbl.find_Some_iff [OF registry_demo1_inv] registry_demo1_holds by blast
  with registry_insert_exact [OF registry_demo1_inv, of stats_zero 8192 8256 256 64 1 7 0 1] none
  show ?thesis by (auto simp: c)
qed

text \<open>
  C12: \<open>beginRetiring\<close> hands a block to exactly one destroyer: it returns the node precisely when the
  base has a record in state live and, under the strict policy, the caller is the thread that
  allocated it; it always returns; and after it has handed the block out, every further call for that
  base fails and changes nothing until the retirement ends.
\<close>

theorem beginRetiring_exclusive:
  assumes inv: "reg_inv reg"
  shows "\<exists>reg' r. beginRetiring reg p tid pol = Some (reg', r) \<and> reg_inv reg'
    \<and> (r \<noteq> None \<longleftrightarrow> (\<exists>i. registry_find reg p = Some (Some i) \<and> n_State (r_nodes reg ! i) = SLive
          \<and> (pol = Strict \<longrightarrow> tid = n_ThreadID (r_nodes reg ! i))))
    \<and> (r = None \<longrightarrow> reg' = reg)
    \<and> (\<forall>i. r = Some i \<longrightarrow> n_State (r_nodes reg' ! i) = SRetiring
          \<and> registry_find reg' p = Some (Some i) \<and> registry_find reg p = Some (Some i)
          \<and> (\<forall>tid' pol'. beginRetiring reg' p tid' pol' = Some (reg', None)))"
    (is "\<exists>reg' r. ?R = _ \<and> ?Q reg' r")
proof -
  obtain res where r: "?R = res" by blast
  show ?thesis
  proof (rule beginRetiring_cases [OF inv r])
    assume h: "\<And>i. \<not> reg_holds reg p i" "res = Some (reg, None)"
    then show ?thesis unfolding r h(2) using inv by (auto simp: tbl.find_Some_iff [OF inv])
  next
    fix i assume h: "reg_holds reg p i" "res = Some (reg, None)"
      "n_State (r_nodes reg ! i) \<noteq> SLive \<or> pol = Strict \<and> tid \<noteq> n_ThreadID (r_nodes reg ! i)"
    have "registry_find reg p = Some (Some i)" using h(1) by (simp add: tbl.find_Some_iff [OF inv])
    then show ?thesis unfolding r h(2)
      using inv h(3) by (intro exI [of _ reg] exI [of _ None]) auto
  next
    fix i
    let ?n = "(r_nodes reg ! i)\<lparr>n_DtorLock := True, n_State := SRetiring\<rparr>"
    let ?r = "set_node reg i ?n"
    assume h: "reg_holds reg p i" "n_State (r_nodes reg ! i) = SLive"
      "pol = Strict \<longrightarrow> tid = n_ThreadID (r_nodes reg ! i)" "res = Some (?r, Some i)"
    have inv': "reg_inv ?r" using beginRetiring_inv [OF inv] r h(4) by simp
    have i: "i < length (r_nodes reg)" using h(1) reg_used_le [OF inv] by (simp add: reg_holds_def)
    then have node: "r_nodes ?r ! i = ?n" by (simp add: set_node_def)
    have holds: "reg_holds ?r p i" using h(1) node by (simp add: reg_holds_def)
    have again: "beginRetiring ?r p tid' pol' = Some (?r, None)" for tid' pol'
    proof (rule beginRetiring_cases [OF inv' refl, of p tid' pol'])
      fix j assume "reg_holds ?r p j" "n_State (r_nodes ?r ! j) = SLive"
      then show ?thesis using reg_holds_unique [OF inv' holds, of j] node by simp
    qed (use holds in auto)
    have "registry_find reg p = Some (Some i)" "registry_find ?r p = Some (Some i)"
      using h(1) holds by (simp_all add: tbl.find_Some_iff [OF inv] tbl.find_Some_iff [OF inv'])
    then show ?thesis unfolding r h(4)
      using inv' h(2,3) again by (intro exI [of _ ?r] exI [of _ "Some i"]) (auto simp: node)
  qed
qed

theorem beginRetiring_exclusive_witness:
  "\<exists>reg' i. beginRetiring registry_demo1 4096 7 Strict = Some (reg', Some i)
     \<and> beginRetiring reg' 4096 7 Strict = Some (reg', None)"
proof -
  have "registry_find registry_demo1 4096 = Some (Some 0)"
    using tbl.find_Some_iff [OF registry_demo1_inv] registry_demo1_holds by blast
  then show ?thesis
    using beginRetiring_exclusive [OF registry_demo1_inv, of 4096 7 Strict]
    by (auto simp: registry_demo1_node)
qed

text \<open>
  Nodes are never recycled: once as many allocations have been recorded as the pool has nodes,
  \<open>insert\<close> fails for every base, dead ones included, and keeps failing after any number \<open>k\<close> of such
  failures (each moves the cursor one further), with the result it also has for a duplicate base.
\<close>

theorem registry_exhaustion_permanent:
  assumes inv: "reg_inv reg" and full: "r_NodeCapacity reg \<le> r_NodeCursor reg"
    and room: "unat (r_NodeCursor reg) + k < 2 ^ 64"
  shows "\<exists>reg'. registry_insert (reg\<lparr>r_NodeCursor := r_NodeCursor reg + of_nat k\<rparr>) st p u bs us aid tid nm cnt
      = Some (reg', st, False)
    \<and> r_nodes reg' = r_nodes reg \<and> r_NodeCapacity reg' \<le> r_NodeCursor reg + of_nat k"
proof -
  let ?r = "reg\<lparr>r_NodeCursor := r_NodeCursor reg + of_nat k\<rparr>"
  have "unat (r_NodeCursor reg + of_nat k) = unat (r_NodeCursor reg) + k"
    using room by (subst unat_plus_nowrap) (simp_all add: unat_of_nat_64)
  then have full': "r_NodeCapacity ?r \<le> r_NodeCursor ?r" and u: "reg_used ?r = reg_used reg"
    using full by (simp_all add: word_le_nat_alt reg_used_def)
  have inv': "reg_inv ?r" using inv unfolding reg_inv_def u by simp
  obtain res where r: "registry_insert ?r st p u bs us aid tid nm cnt = res" by blast
  show ?thesis unfolding r
    by (rule registry_insert_cases [OF inv' r]) (use full' in \<open>auto simp: not_less\<close>)
qed

theorem registry_exhaustion_permanent_witness:
  "\<exists>reg reg'. reg_inv reg \<and> n_BlockBase (r_nodes reg ! 0) = 4096 \<and> n_State (r_nodes reg ! 0) = SDead
     \<and> registry_insert reg stats_zero 4096 4160 256 64 1 7 0 1 = Some (reg', stats_zero, False)"
proof -
  let ?d = "node_zero\<lparr>n_BlockBase := 4096, n_State := SDead, n_Generation := 1\<rparr>"
  let ?b = "(\<lambda>_. bucket_zero)(regIndex 4096 := \<lparr>b_Head = Some 0, b_Lock = False\<rparr>)"
  let ?reg = "\<lparr>r_Buckets = ?b, r_NodeCapacity = 1, r_NodeCursor = 1, r_Count = 0, r_NodePool = 65536,
    r_nodes = [?d]\<rparr>"
  have u: "reg_used ?reg = 1" by (simp add: reg_used_def)
  have ch: "chain_of [?d] 1 b = (if b = regIndex 4096 then [0] else [])" for b
    by (auto simp: chain_of_def node_zero_def)
  have none: "{i. i < (1::nat) \<and> counted ([?d] ! i)} = {}"
    by (auto simp: counted_def node_zero_def less_Suc_eq)
  have links: "linked [?d] (b_Head (?b b)) (chain_of [?d] 1 b) \<and> \<not> b_Lock (?b b)" for b
    unfolding ch by (simp add: bucket_zero_def node_zero_def)
  have "node_ok 0 ?d" by (simp add: node_ok_def node_zero_def)
  then have inv: "reg_inv ?reg"
    unfolding reg_inv_def u using none links by simp
  obtain reg' where "registry_insert ?reg stats_zero 4096 4160 256 64 1 7 0 1 = Some (reg', stats_zero, False)"
    using registry_exhaustion_permanent [OF inv, of 0 stats_zero 4096 4160 256 64 1 7 0 1] by auto
  then show ?thesis
    using inv by (intro exI [of _ ?reg] exI [of _ reg']) simp
qed

end
