(* ===== verification/Kerbecs_Quarantine.thy ===== *)
theory Kerbecs_Quarantine
  imports Kerbecs_RegistryInv
begin

text \<open>
  \<open>src/Public/QuarantineQueue.h\<close> and \<open>src/Private/QuarantineQueue.cpp\<close>: the ring buffer in which
  destroyed blocks wait for two epochs before their memory is given back.

  \<open>kcore\<close> is the state the queue works on: the runtime's counters, its epoch and its queue, the
  registries by address (a missing one has been destroyed), and the environment \<open>'e\<close> of the operating
  system and of the user's allocator. \<open>m_Stats\<close> is null or the address of the runtime's counters,
  which is what \<open>q_Stats\<close> tells. A deallocation thunk is a function on the environment. \<open>None\<close> and
  \<open>Undefined\<close> stand for a dangling pointer or a lock that is never released, \<open>Trap\<close> for
  \<open>KERBECS_TRAP\<close> followed by \<open>abort\<close>.
\<close>

section \<open>State\<close>

record 'e qentry =
  e_BlockSize :: u64
  e_Epoch :: u64
  e_Allocator :: addr
  e_DeallocThunk :: "('e \<Rightarrow> addr \<Rightarrow> addr \<Rightarrow> u64 \<Rightarrow> 'e) option"
  e_OwningRegistry :: addr
  e_BlockBase :: addr

definition qentry_zero :: "'e qentry" where
  "qentry_zero = \<lparr>e_BlockSize = 0, e_Epoch = 0, e_Allocator = null, e_DeallocThunk = None,
     e_OwningRegistry = null, e_BlockBase = null\<rparr>"

definition sizeof_QuarantineEntry :: u64 where "sizeof_QuarantineEntry = 64"

record 'e queue =
  q_Slots :: addr
  q_slots :: "'e qentry list"
  q_Capacity :: u64
  q_Head :: u64
  q_Tail :: u64
  q_FlushLock :: bool
  q_Stats :: bool

definition queue_new :: "'e queue" where
  "queue_new = \<lparr>q_Slots = null, q_slots = [], q_Capacity = 0, q_Head = 0, q_Tail = 0,
     q_FlushLock = False, q_Stats = False\<rparr>"

record 'e kcore =
  k_stats :: kstats
  k_epoch :: u64
  k_queue :: "'e queue"
  k_regs :: "addr \<Rightarrow> registry option"
  k_env :: 'e

section \<open>Operations\<close>

definition queue_init ::
  "'e os_api \<Rightarrow> 'e \<Rightarrow> 'e queue \<Rightarrow> u64 \<Rightarrow> bool \<Rightarrow> 'e \<times> 'e queue \<times> bool" where
  "queue_init os e q v_Capacity p_Stats =
     (if v_Capacity = 0 \<or> \<not> p_Stats then (e, q, False)
      else
        let bytes = v_Capacity * sizeof_QuarantineEntry;
            (e', slots) = mem_allocate os e bytes;
            q = q\<lparr>q_Slots := slots, q_slots := []\<rparr>
        in if slots = null then (e', q, False)
           else (e', q\<lparr>q_slots := replicate (unat bytes div 64) qentry_zero,
                      q_Capacity := v_Capacity, q_Stats := p_Stats, q_Head := 0, q_Tail := 0\<rparr>, True))"

definition queue_shutdown :: "'e os_api \<Rightarrow> 'e \<Rightarrow> 'e queue \<Rightarrow> 'e \<times> 'e queue" where
  "queue_shutdown os e q =
     (let (e', q) =
            (if q_Slots q \<noteq> null
             then let (e', released) = mem_release os e (q_Slots q) (q_Capacity q * sizeof_QuarantineEntry)
                  in (e', q\<lparr>q_Slots := null, q_slots := [], q_Capacity := 0\<rparr>)
             else (e, q))
      in (e', q\<lparr>q_Head := 0, q_Tail := 0, q_Stats := False\<rparr>))"

definition queue_onSaturation :: "'e kcore \<Rightarrow> ('e kcore, bool) outcome" where
  "queue_onSaturation k = Trap (k\<lparr>k_stats := statsVia (q_Stats (k_queue k)) statsOnViolation (k_stats k)\<rparr>)"

definition queue_enqueue ::
  "'e kcore \<Rightarrow> addr \<Rightarrow> u64 \<Rightarrow> u64 \<Rightarrow> addr \<Rightarrow> ('e \<Rightarrow> addr \<Rightarrow> addr \<Rightarrow> u64 \<Rightarrow> 'e) option \<Rightarrow> addr \<Rightarrow>
   ('e kcore, bool) outcome" where
  "queue_enqueue k p_BlockBase v_BlockSize v_Epoch p_Allocator p_DeallocThunk p_OwningRegistry =
     (let q = k_queue k in
      if q_Slots q = null \<or> p_BlockBase = null \<or> p_OwningRegistry = null then Ret k False
      else
        let msk = q_Capacity q - 1;
            tail = q_Tail q;
            q = q\<lparr>q_Tail := q_Tail q + 1\<rparr>;
            head = q_Head q
        in if tail - head \<ge> q_Capacity q then queue_onSaturation (k\<lparr>k_queue := q\<rparr>)
           else
             let idx = tail AND msk
             in if \<not> unat idx < length (q_slots q) then Undefined
                else
                  let slot = \<lparr>e_BlockSize = v_BlockSize, e_Epoch = v_Epoch, e_Allocator = p_Allocator,
                        e_DeallocThunk = p_DeallocThunk, e_OwningRegistry = p_OwningRegistry,
                        e_BlockBase = p_BlockBase\<rparr>
                  in Ret (k\<lparr>k_queue := q\<lparr>q_slots := (q_slots q)[unat idx := slot]\<rparr>,
                           k_stats := statsVia (q_Stats q) statsOnQuarantineEnqueue (k_stats k)\<rparr>) True)"

text \<open>What \<open>_retireSlot\<close> does with the contents of a slot, and then the slot itself.\<close>

definition retire_entry :: "'e kcore \<Rightarrow> 'e qentry \<Rightarrow> 'e kcore option" where
  "retire_entry k v_Entry =
     (let base = e_BlockBase v_Entry;
          owner = e_OwningRegistry v_Entry
      in (case (if owner = null then Some k
                else (case k_regs k owner of
                        None \<Rightarrow> None
                      | Some reg \<Rightarrow>
                          (case registry_retire reg base of
                             None \<Rightarrow> None
                           | Some (reg', ok) \<Rightarrow> Some (k\<lparr>k_regs := (k_regs k)(owner := Some reg')\<rparr>)))) of
            None \<Rightarrow> None
          | Some k \<Rightarrow>
              let k = (case e_DeallocThunk v_Entry of
                         None \<Rightarrow> k
                       | Some thunk \<Rightarrow>
                           if e_Allocator v_Entry = null then k
                           else k\<lparr>k_env := thunk (k_env k) (e_Allocator v_Entry) base (e_BlockSize v_Entry)\<rparr>);
                  st = statsVia (q_Stats (k_queue k)) (statsOnDestroy (e_BlockSize v_Entry)) (k_stats k);
                  st = statsVia (q_Stats (k_queue k)) statsOnQuarantineDequeue st
              in Some (k\<lparr>k_stats := st\<rparr>)))"

definition queue_retireSlot :: "'e kcore \<Rightarrow> nat \<Rightarrow> 'e kcore option" where
  "queue_retireSlot k idx =
     (case retire_entry k (q_slots (k_queue k) ! idx) of
        None \<Rightarrow> None
      | Some k' \<Rightarrow>
          Some (k'\<lparr>k_queue := (k_queue k')\<lparr>q_slots := (q_slots (k_queue k'))[idx := qentry_zero]\<rparr>\<rparr>))"

lemma retire_entry_frame:
  assumes "retire_entry k e = Some k'"
  shows "k_queue k' = k_queue k" and "k_epoch k' = k_epoch k"
  using assms by (auto simp: retire_entry_def Let_def split: if_splits option.splits)

lemma queue_retireSlot_frame:
  assumes "queue_retireSlot k idx = Some k'"
  shows "q_Head (k_queue k') = q_Head (k_queue k)" and "q_Tail (k_queue k') = q_Tail (k_queue k)"
  using assms by (auto simp: queue_retireSlot_def dest: retire_entry_frame split: option.splits)

function flush_loop :: "'e kcore \<Rightarrow> u64 \<Rightarrow> u64 \<Rightarrow> bool \<Rightarrow> ('e kcore \<times> u64) option" where
  "flush_loop k flushed v_MaxCount v_Force =
     (if \<not> flushed < v_MaxCount then Some (k, flushed)
      else
        let q = k_queue k; head = q_Head q; tail = q_Tail q
        in if head \<ge> tail then Some (k, flushed)
           else
             let idx = head AND (q_Capacity q - 1)
             in if \<not> unat idx < length (q_slots q) then None
                else
                  let slot = q_slots q ! unat idx
                  in if e_BlockBase slot = null then Some (k, flushed)
                     else if \<not> v_Force \<and> e_Epoch slot + 2 > k_epoch k then Some (k, flushed)
                     else
                       (case queue_retireSlot k (unat idx) of
                          None \<Rightarrow> None
                        | Some k' \<Rightarrow>
                            flush_loop (k'\<lparr>k_queue := (k_queue k')\<lparr>q_Head := q_Head (k_queue k') + 1\<rparr>\<rparr>)
                              (flushed + 1) v_MaxCount v_Force))"
  by pat_completeness auto

termination
proof (relation "measure (\<lambda>(k, _, _, _). unat (q_Tail (k_queue k)) - unat (q_Head (k_queue k)))")
  fix k :: "'e kcore" and flushed v_MaxCount v_Force q head tail idx slot k'
  assume q: "q = k_queue k" "head = q_Head q" "tail = q_Tail q" "\<not> tail \<le> head"
    and r: "queue_retireSlot k (unat idx) = Some k'"
  have lt: "unat head < unat tail" using q(4) by (simp add: not_le word_less_nat_alt)
  then have "unat (head + 1) = Suc (unat head)"
    using unat_lt_64 [of tail] by (intro unat_succ_nowrap) linarith
  with lt show "((k'\<lparr>k_queue := (k_queue k')\<lparr>q_Head := q_Head (k_queue k') + 1\<rparr>\<rparr>, flushed + 1,
      v_MaxCount, v_Force), (k, flushed, v_MaxCount, v_Force))
    \<in> measure (\<lambda>(k, _, _, _). unat (q_Tail (k_queue k)) - unat (q_Head (k_queue k)))"
    using queue_retireSlot_frame [OF r] q by simp
qed simp

declare flush_loop.simps [simp del]

definition queue_flushEligible :: "'e kcore \<Rightarrow> u64 \<Rightarrow> bool \<Rightarrow> ('e kcore \<times> u64) option" where
  "queue_flushEligible k v_MaxCount v_Force =
     (if q_Slots (k_queue k) = null then Some (k, 0)
      else
        (case spin_lock (q_FlushLock (k_queue k)) of
           None \<Rightarrow> None
         | Some held \<Rightarrow>
             (case flush_loop (k\<lparr>k_queue := (k_queue k)\<lparr>q_FlushLock := held\<rparr>\<rparr>) 0 v_MaxCount v_Force of
                None \<Rightarrow> None
              | Some (k', flushed) \<Rightarrow>
                  Some (k'\<lparr>k_queue := (k_queue k')\<lparr>q_FlushLock := spin_unlock (q_FlushLock (k_queue k'))\<rparr>\<rparr>,
                        flushed))))"

definition queue_depth :: "'e queue \<Rightarrow> u64" where
  "queue_depth q = (let tail = q_Tail q; head = q_Head q in if tail \<ge> head then tail - head else 0)"

definition queue_full :: "'e queue \<Rightarrow> bool" where
  "queue_full q \<longleftrightarrow> queue_depth q \<ge> q_Capacity q"

definition queue_empty :: "'e queue \<Rightarrow> bool" where
  "queue_empty q \<longleftrightarrow> queue_depth q = 0"

end
