(* ===== verification/Kerbecs_QuarantineSpec.thy ===== *)
theory Kerbecs_QuarantineSpec
  imports Kerbecs_Quarantine
begin

text \<open>
  The quarantine as a bounded FIFO. \<open>q_list\<close> is the list of waiting entries, oldest first; the ring
  operations refine appending and dropping on it (locale \<open>bounded_fifo\<close>), and \<open>flushEligible\<close> refines
  "take the longest eligible prefix, retire its entries in order, drop it".
\<close>

definition q_window :: "'e queue \<Rightarrow> nat set" where
  "q_window q = {i. unat (q_Head q) \<le> i \<and> i < unat (q_Tail q)}"

definition q_list :: "'e queue \<Rightarrow> 'e qentry list" where
  "q_list q = map (\<lambda>i. q_slots q ! (i mod unat (q_Capacity q))) [unat (q_Head q)..<unat (q_Tail q)]"

definition q_inv :: "'e queue \<Rightarrow> bool" where
  "q_inv q \<longleftrightarrow> q_Slots q \<noteq> null \<and> is_pow2 (q_Capacity q)
     \<and> length (q_slots q) = unat (q_Capacity q)
     \<and> unat (q_Head q) \<le> unat (q_Tail q)
     \<and> unat (q_Tail q) - unat (q_Head q) \<le> unat (q_Capacity q)
     \<and> (\<forall>i \<in> q_window q. e_BlockBase (q_slots q ! (i mod unat (q_Capacity q))) \<noteq> null)
     \<and> (\<forall>j < unat (q_Capacity q). (\<forall>i \<in> q_window q. i mod unat (q_Capacity q) \<noteq> j) \<longrightarrow>
          q_slots q ! j = qentry_zero)"

definition ring_put :: "'e queue \<Rightarrow> 'e qentry \<Rightarrow> 'e queue" where
  "ring_put q e = q\<lparr>q_Tail := q_Tail q + 1,
     q_slots := (q_slots q)[unat (q_Tail q AND (q_Capacity q - 1)) := e]\<rparr>"

definition ring_drop :: "'e queue \<Rightarrow> 'e queue" where
  "ring_drop q = q\<lparr>q_slots := (q_slots q)[unat (q_Head q AND (q_Capacity q - 1)) := qentry_zero],
     q_Head := q_Head q + 1\<rparr>"

lemma pow2_mask_mod:
  assumes "is_pow2 c"
  shows "unat (w AND (c - 1)) = unat w mod unat c"
proof -
  obtain k where k: "k < 64" "c = 2 ^ k" using assms by (rule is_pow2E)
  have "w AND (c - 1) = take_bit k w" by (simp add: k(2) take_bit_eq_mask mask_eq_exp_minus_1)
  moreover have "unat (take_bit k w) = unat w mod 2 ^ k"
    unfolding unsigned_take_bit_eq by (simp add: take_bit_eq_mod)
  ultimately show ?thesis using k by (simp add: unat_pow2)
qed

lemma window_mod_inj:
  fixes i j c :: nat
  assumes "h \<le> i" "i < t" "h \<le> j" "j < t" "t - h \<le> c" "i mod c = j mod c"
  shows "i = j"
proof (rule ccontr)
  assume "i \<noteq> j"
  then consider "i < j" | "j < i" by linarith
  then show False
  proof cases
    case 1
    then have "c dvd j - i" using assms(6) mod_eq_dvd_iff_nat [of i j c] by simp
    with 1 have "c \<le> j - i" by (simp add: dvd_imp_le)
    with assms 1 show False by linarith
  next
    case 2
    then have "c dvd i - j" using assms(6) mod_eq_dvd_iff_nat [of j i c] by simp
    with 2 have "c \<le> i - j" by (simp add: dvd_imp_le)
    with assms 2 show False by linarith
  qed
qed

lemma length_q_list: "length (q_list q) = unat (q_Tail q) - unat (q_Head q)"
  by (simp add: q_list_def)

lemma q_inv_cap: "q_inv q \<Longrightarrow> 0 < unat (q_Capacity q)"
  using pow2_unat_le by (auto simp: q_inv_def)

lemma ring_put_spec:
  assumes inv: "q_inv q" and room: "length (q_list q) < unat (q_Capacity q)"
    and wrap: "unat (q_Tail q) < 18446744073709551615" and e: "e_BlockBase e \<noteq> null"
  shows "q_inv (ring_put q e)" and "q_list (ring_put q e) = q_list q @ [e]"
proof -
  let ?c = "unat (q_Capacity q)" and ?h = "unat (q_Head q)" and ?t = "unat (q_Tail q)"
  let ?q = "ring_put q e"
  note c0 = q_inv_cap [OF inv]
  have w: "?h \<le> ?t" "?t - ?h < ?c" "length (q_slots q) = ?c" using inv room by (simp_all add: q_inv_def length_q_list)
  have idx: "unat (q_Tail q AND (q_Capacity q - 1)) = ?t mod ?c"
    using inv by (simp add: q_inv_def pow2_mask_mod)
  have t': "unat (q_Tail ?q) = Suc ?t" using wrap by (simp add: ring_put_def unat_succ_nowrap)
  have other: "q_slots ?q ! (i mod ?c) = q_slots q ! (i mod ?c)" if "?h \<le> i" "i < ?t" for i
  proof -
    have "i mod ?c \<noteq> ?t mod ?c"
    proof
      assume eq: "i mod ?c = ?t mod ?c"
      have "Suc ?t - ?h \<le> ?c" using w by linarith
      then have "i = ?t" using window_mod_inj [of ?h i "Suc ?t" ?t ?c] that w eq by simp
      then show False using that by simp
    qed
    then show ?thesis by (simp add: ring_put_def idx)
  qed
  have new: "q_slots ?q ! (?t mod ?c) = e" using c0 w by (simp add: ring_put_def idx)
  show "q_list ?q = q_list q @ [e]"
  proof -
    have "map (\<lambda>i. q_slots ?q ! (i mod ?c)) [?h..<?t] = map (\<lambda>i. q_slots q ! (i mod ?c)) [?h..<?t]"
      by (rule map_cong) (auto intro: other)
    moreover have "q_Head ?q = q_Head q" "q_Capacity ?q = q_Capacity q" by (simp_all add: ring_put_def)
    ultimately show ?thesis using w(1) new unfolding q_list_def t' by simp
  qed
  show "q_inv ?q"
    unfolding q_inv_def
  proof (intro conjI ballI allI impI)
    fix i assume "i \<in> q_window ?q"
    then have "?h \<le> i" "i \<le> ?t" using t' by (auto simp: q_window_def ring_put_def)
    then show "e_BlockBase (q_slots ?q ! (i mod unat (q_Capacity ?q))) \<noteq> null"
      using other [of i] new e inv by (cases "i = ?t") (auto simp: ring_put_def q_inv_def q_window_def)
  next
    fix j assume j: "j < unat (q_Capacity ?q)" "\<forall>i \<in> q_window ?q. i mod unat (q_Capacity ?q) \<noteq> j"
    have "?t \<in> q_window ?q" using t' w by (simp add: q_window_def ring_put_def)
    then have "j \<noteq> ?t mod ?c" using j(2) by (auto simp: ring_put_def)
    moreover have "q_window q \<subseteq> q_window ?q" using t' by (auto simp: q_window_def ring_put_def)
    moreover from calculation(2) have "\<forall>i \<in> q_window q. i mod ?c \<noteq> j"
      using j(2) by (auto simp: ring_put_def)
    ultimately show "q_slots ?q ! j = qentry_zero"
      using inv j(1) by (auto simp: ring_put_def idx q_inv_def)
  qed (use inv w t' in \<open>auto simp: q_inv_def ring_put_def\<close>)
qed

lemma ring_drop_spec:
  assumes inv: "q_inv q" and ne: "q_list q \<noteq> []"
  shows "q_inv (ring_drop q)" and "q_list (ring_drop q) = tl (q_list q)"
    and "hd (q_list q) = q_slots q ! unat (q_Head q AND (q_Capacity q - 1))"
proof -
  let ?c = "unat (q_Capacity q)" and ?h = "unat (q_Head q)" and ?t = "unat (q_Tail q)"
  let ?q = "ring_drop q"
  note c0 = q_inv_cap [OF inv]
  have w: "?h < ?t" "?t - ?h \<le> ?c" "length (q_slots q) = ?c"
    using inv ne length_q_list [of q] by (auto simp: q_inv_def length_0_conv [symmetric] simp del: length_0_conv)
  have idx: "unat (q_Head q AND (q_Capacity q - 1)) = ?h mod ?c"
    using inv by (simp add: q_inv_def pow2_mask_mod)
  have h': "unat (q_Head ?q) = Suc ?h"
  proof -
    have "?h < 18446744073709551615" using w(1) unat_lt_64 [of "q_Tail q"] by linarith
    then show ?thesis by (simp add: ring_drop_def unat_succ_nowrap)
  qed
  have other: "q_slots ?q ! (i mod ?c) = q_slots q ! (i mod ?c)" if "?h < i" "i < ?t" for i
  proof -
    have "i mod ?c \<noteq> ?h mod ?c" using window_mod_inj [of ?h i ?t ?h ?c] that w by auto
    then show ?thesis by (simp add: ring_drop_def idx)
  qed
  have up: "[?h..<?t] = ?h # [Suc ?h..<?t]" using w(1) by (simp add: upt_conv_Cons)
  show "hd (q_list q) = q_slots q ! unat (q_Head q AND (q_Capacity q - 1))"
    by (simp add: q_list_def up idx)
  have "map (\<lambda>i. q_slots ?q ! (i mod ?c)) [Suc ?h..<?t] = map (\<lambda>i. q_slots q ! (i mod ?c)) [Suc ?h..<?t]"
    by (rule map_cong) (auto intro: other)
  then show "q_list ?q = tl (q_list q)"
    unfolding q_list_def h' up by (simp add: ring_drop_def)
  show "q_inv ?q"
    unfolding q_inv_def
  proof (intro conjI ballI allI impI)
    fix i assume "i \<in> q_window ?q"
    then have "?h < i" "i < ?t" using h' by (auto simp: q_window_def ring_drop_def)
    then show "e_BlockBase (q_slots ?q ! (i mod unat (q_Capacity ?q))) \<noteq> null"
      using other [of i] inv by (auto simp: ring_drop_def q_inv_def q_window_def)
  next
    fix j assume j: "j < unat (q_Capacity ?q)" "\<forall>i \<in> q_window ?q. i mod unat (q_Capacity ?q) \<noteq> j"
    show "q_slots ?q ! j = qentry_zero"
    proof (cases "j = ?h mod ?c")
      case True
      then show ?thesis using c0 w by (simp add: ring_drop_def idx)
    next
      case False
      have "q_window q \<subseteq> insert ?h (q_window ?q)" using h' by (auto simp: q_window_def ring_drop_def)
      then have "\<forall>i \<in> q_window q. i mod ?c \<noteq> j" using j(2) False by (auto simp: ring_drop_def)
      then show ?thesis using inv j False by (auto simp: ring_drop_def idx q_inv_def)
    qed
  qed (use inv w h' in \<open>auto simp: q_inv_def ring_drop_def\<close>)
qed

section \<open>The contract of a bounded FIFO\<close>

locale bounded_fifo =
  fixes put :: "'q \<Rightarrow> 'a \<Rightarrow> 'q" and rest :: "'q \<Rightarrow> 'q" and contents :: "'q \<Rightarrow> 'a list"
    and inv :: "'q \<Rightarrow> bool" and accepts :: "'q \<Rightarrow> 'a \<Rightarrow> bool"
  assumes put_inv: "\<lbrakk>inv q; accepts q a\<rbrakk> \<Longrightarrow> inv (put q a)"
    and put_contents: "\<lbrakk>inv q; accepts q a\<rbrakk> \<Longrightarrow> contents (put q a) = contents q @ [a]"
    and rest_inv: "\<lbrakk>inv q; contents q \<noteq> []\<rbrakk> \<Longrightarrow> inv (rest q)"
    and rest_contents: "\<lbrakk>inv q; contents q \<noteq> []\<rbrakk> \<Longrightarrow> contents (rest q) = tl (contents q)"
begin

lemma rest_many:
  assumes "inv q" and "n \<le> length (contents q)"
  shows "inv ((rest ^^ n) q) \<and> contents ((rest ^^ n) q) = drop n (contents q)"
  using assms
proof (induction n arbitrary: q)
  case (Suc n)
  then have ne: "contents q \<noteq> []" by auto
  have "inv ((rest ^^ n) (rest q)) \<and> contents ((rest ^^ n) (rest q)) = drop n (contents (rest q))"
    using Suc.prems rest_inv [OF _ ne] rest_contents [OF _ ne] by (intro Suc.IH) auto
  then show ?case using Suc.prems rest_contents [OF _ ne] by (simp add: funpow_swap1 drop_Suc)
qed simp

text \<open>Entries leave in the order in which they were put.\<close>

lemma put_then_rest:
  assumes "inv q" and "accepts q a"
  shows "contents ((rest ^^ length (contents q)) (put q a)) = [a]"
  using rest_many [OF put_inv [OF assms], of "length (contents q)"] put_contents [OF assms] by simp

end

definition ring_accepts :: "'e queue \<Rightarrow> 'e qentry \<Rightarrow> bool" where
  "ring_accepts q e \<longleftrightarrow> length (q_list q) < unat (q_Capacity q) \<and> unat (q_Tail q) < 18446744073709551615
     \<and> e_BlockBase e \<noteq> null"

interpretation ring: bounded_fifo ring_put ring_drop q_list q_inv ring_accepts
  by unfold_locales (simp_all add: ring_accepts_def ring_put_spec ring_drop_spec)

section \<open>enqueue and flushEligible refine the FIFO\<close>

lemma enqueue_cases:
  assumes inv: "q_inv (k_queue k)" and b: "p \<noteq> null" and ow: "own \<noteq> null"
    and e: "e = \<lparr>e_BlockSize = sz, e_Epoch = ep, e_Allocator = al, e_DeallocThunk = th,
      e_OwningRegistry = own, e_BlockBase = p\<rparr>"
  shows "queue_enqueue k p sz ep al th own =
    (if length (q_list (k_queue k)) < unat (q_Capacity (k_queue k))
     then Ret (k\<lparr>k_queue := ring_put (k_queue k) e,
              k_stats := statsVia (q_Stats (k_queue k)) statsOnQuarantineEnqueue (k_stats k)\<rparr>) True
     else Trap (k\<lparr>k_queue := (k_queue k)\<lparr>q_Tail := q_Tail (k_queue k) + 1\<rparr>,
              k_stats := statsVia (q_Stats (k_queue k)) statsOnViolation (k_stats k)\<rparr>))"
proof -
  let ?q = "k_queue k"
  have "q_Head ?q \<le> q_Tail ?q" using inv by (simp add: q_inv_def word_le_nat_alt)
  then have "unat (q_Tail ?q - q_Head ?q) = length (q_list ?q)"
    by (simp add: unat_minus_le length_q_list)
  then have sat: "q_Capacity ?q \<le> q_Tail ?q - q_Head ?q \<longleftrightarrow> \<not> length (q_list ?q) < unat (q_Capacity ?q)"
    by (simp add: word_le_nat_alt not_less)
  have idx: "unat (q_Tail ?q AND (q_Capacity ?q - 1)) < length (q_slots ?q)"
    using inv q_inv_cap [OF inv] by (simp add: q_inv_def pow2_mask_mod)
  show ?thesis
    using inv b ow idx
    by (simp add: queue_enqueue_def queue_onSaturation_def Let_def sat ring_put_def e q_inv_def)
qed

definition eligible :: "bool \<Rightarrow> u64 \<Rightarrow> 'e qentry \<Rightarrow> bool" where
  "eligible v_Force curEpoch e \<longleftrightarrow> v_Force \<or> e_Epoch e + 2 \<le> curEpoch"

primrec retire_all :: "'e kcore \<Rightarrow> 'e qentry list \<Rightarrow> 'e kcore option" where
  "retire_all k [] = Some k"
| "retire_all k (e # es) = Option.bind (retire_entry k e) (\<lambda>k'. retire_all k' es)"

lemma retire_entry_queue:
  assumes "q_Stats q = q_Stats (k_queue k)"
  shows "retire_entry (k\<lparr>k_queue := q\<rparr>) e = map_option (\<lambda>k'. k'\<lparr>k_queue := q\<rparr>) (retire_entry k e)"
  using assms
  by (cases k) (auto simp: retire_entry_def Let_def split: option.splits prod.splits)

lemma retire_all_queue:
  assumes "q_Stats q = q_Stats (k_queue k)"
  shows "retire_all (k\<lparr>k_queue := q\<rparr>) es = map_option (\<lambda>k'. k'\<lparr>k_queue := q\<rparr>) (retire_all k es)"
  using assms
proof (induction es arbitrary: k)
  case (Cons e es)
  show ?case
  proof (cases "retire_entry k e")
    case (Some k')
    then show ?thesis using Cons retire_entry_frame(1) [OF Some] by (simp add: retire_entry_queue)
  qed (simp add: retire_entry_queue Cons.prems)
qed simp

lemma ring_drop_stats [simp]: "q_Stats (ring_drop q) = q_Stats q"
  and ring_drop_many_stats [simp]: "q_Stats ((ring_drop ^^ n) q) = q_Stats q"
proof -
  show one: "q_Stats (ring_drop q) = q_Stats q" for q :: "'e queue" by (simp add: ring_drop_def)
  show "q_Stats ((ring_drop ^^ n) q) = q_Stats q" by (induction n) (simp_all add: one)
qed

lemma flush_loop_spec:
  assumes "q_inv (k_queue k)" and "flushed \<le> mx"
    and es: "es = take (unat (mx - flushed))
      (takeWhile (eligible force (k_epoch k)) (q_list (k_queue k)))"
  shows "flush_loop k flushed mx force =
    map_option (\<lambda>k'. (k'\<lparr>k_queue := (ring_drop ^^ length es) (k_queue k)\<rparr>, flushed + of_nat (length es)))
      (retire_all k es)"
  using assms(1,2) unfolding es
proof (induction "length (q_list (k_queue k))" arbitrary: k flushed)
  case 0
  then have "q_Tail (k_queue k) \<le> q_Head (k_queue k)" by (simp add: length_q_list word_le_nat_alt)
  then show ?case using 0 by (subst flush_loop.simps) (simp add: Let_def)
next
  case (Suc n)
  let ?q = "k_queue k"
  let ?idx = "unat (q_Head ?q AND (q_Capacity ?q - 1))"
  have ne: "q_list ?q \<noteq> []" using Suc.hyps(2) by auto
  note inv = Suc.prems(1)
  note drop = ring_drop_spec [OF inv ne]
  obtain e es where l: "q_list ?q = e # es" using ne by (cases "q_list ?q") auto
  have slot: "q_slots ?q ! ?idx = e" using drop(3) l by simp
  have lt: "\<not> q_Tail ?q \<le> q_Head ?q" using Suc.hyps(2) by (simp add: length_q_list word_le_nat_alt)
  have idx: "?idx < length (q_slots ?q)"
    using inv q_inv_cap [OF inv] by (simp add: q_inv_def pow2_mask_mod)
  have "unat (q_Head ?q) \<in> q_window ?q" using lt by (simp add: q_window_def word_le_nat_alt)
  then have base: "e_BlockBase e \<noteq> null"
    using inv slot by (auto simp: q_inv_def pow2_mask_mod)
  show ?case
  proof (cases "flushed < mx \<and> eligible force (k_epoch k) e")
    case False
    then have stop: "flush_loop k flushed mx force = Some (k, flushed)"
      using lt idx slot base
      by (subst flush_loop.simps) (auto simp: Let_def eligible_def not_less not_le)
    have "flushed = mx \<or> \<not> eligible force (k_epoch k) e" using False Suc.prems(2) by auto
    then have nil: "take (unat (mx - flushed)) (takeWhile (eligible force (k_epoch k)) (q_list ?q)) = []"
      by (auto simp: l)
    show ?thesis unfolding nil stop by simp
  next
    case True
    have le: "flushed + 1 \<le> mx" and n: "unat (mx - flushed) = Suc (unat (mx - (flushed + 1)))"
    proof -
      have lt': "unat flushed < unat mx" using True by (simp add: word_less_nat_alt)
      then have s: "unat (flushed + 1) = Suc (unat flushed)"
        using unat_lt_64 [of mx] by (intro unat_succ_nowrap) linarith
      show "flushed + 1 \<le> mx" using s lt' by (simp add: word_le_nat_alt)
      then show "unat (mx - flushed) = Suc (unat (mx - (flushed + 1)))"
        using s lt' Suc.prems(2) by (simp add: unat_minus_le)
    qed
    have step: "flush_loop k flushed mx force =
        (case retire_entry k e of None \<Rightarrow> None
         | Some k' \<Rightarrow> flush_loop (k'\<lparr>k_queue := ring_drop ?q\<rparr>) (flushed + 1) mx force)"
      using True lt idx slot base
      by (subst flush_loop.simps)
        (auto simp: Let_def eligible_def queue_retireSlot_def not_less ring_drop_def
          dest: retire_entry_frame split: option.split)
    show ?thesis
    proof (cases "retire_entry k e")
      case None
      then show ?thesis using True unfolding step by (simp add: l n)
    next
      case (Some k')
      note fr = retire_entry_frame [OF Some]
      let ?k1 = "k'\<lparr>k_queue := ring_drop ?q\<rparr>"
      let ?es = "take (unat (mx - (flushed + 1))) (takeWhile (eligible force (k_epoch k)) es)"
      have "flush_loop ?k1 (flushed + 1) mx force =
          map_option (\<lambda>k''. (k''\<lparr>k_queue := (ring_drop ^^ length ?es) (ring_drop ?q)\<rparr>,
              flushed + 1 + of_nat (length ?es))) (retire_all ?k1 ?es)"
        using Suc.hyps(1) [of ?k1 "flushed + 1"] Suc.hyps(2) drop l le fr(2) by simp
      also have "retire_all ?k1 ?es = map_option (\<lambda>k''. k''\<lparr>k_queue := ring_drop ?q\<rparr>) (retire_all k' ?es)"
        using fr(1) by (intro retire_all_queue) simp
      finally show ?thesis
        using True unfolding step
        by (simp add: Some l n option.map_comp comp_def funpow_swap1 algebra_simps)
    qed
  qed
qed

definition regs_ok :: "'e kcore \<Rightarrow> bool" where
  "regs_ok k \<longleftrightarrow> (\<forall>a reg. k_regs k a = Some reg \<longrightarrow> reg_inv reg)"

lemma registry_retire_total: "reg_inv reg \<Longrightarrow> \<exists>reg' b. registry_retire reg p = Some (reg', b)"
proof -
  assume inv: "reg_inv reg"
  obtain res where r: "registry_retire reg p = res" by blast
  show ?thesis unfolding r by (rule registry_retire_cases [OF inv r]) auto
qed

lemma retire_entry_total:
  assumes "regs_ok k" and "e_OwningRegistry e \<in> dom (k_regs k)"
  obtains k' where "retire_entry k e = Some k'" and "regs_ok k'" and "dom (k_regs k') = dom (k_regs k)"
proof -
  obtain reg where reg: "k_regs k (e_OwningRegistry e) = Some reg" using assms(2) by auto
  then have inv: "reg_inv reg" using assms(1) by (auto simp: regs_ok_def)
  obtain reg' b where r: "registry_retire reg (e_BlockBase e) = Some (reg', b)"
    using registry_retire_total [OF inv] by blast
  have inv': "reg_inv reg'" using registry_retire_inv [OF inv r] .
  show thesis
  proof (cases "retire_entry k e")
    case None
    then show ?thesis using reg r by (auto simp: retire_entry_def Let_def split: if_splits)
  next
    case (Some k')
    then have "k_regs k' = k_regs k \<or> k_regs k' = (k_regs k)(e_OwningRegistry e := Some reg')"
      using reg r by (auto simp: retire_entry_def Let_def split: if_splits option.splits)
    then have "regs_ok k'" and "dom (k_regs k') = dom (k_regs k)"
      using assms(1) reg inv' by (auto simp: regs_ok_def split: if_splits)
    with Some show ?thesis by (rule that)
  qed
qed

lemma retire_all_total:
  assumes "regs_ok k" and "e_OwningRegistry ` set es \<subseteq> dom (k_regs k)"
  shows "\<exists>k'. retire_all k es = Some k' \<and> regs_ok k' \<and> dom (k_regs k') = dom (k_regs k)"
  using assms
proof (induction es arbitrary: k)
  case (Cons e es)
  obtain k1 where k1: "retire_entry k e = Some k1" "regs_ok k1" "dom (k_regs k1) = dom (k_regs k)"
    using retire_entry_total [of k e] Cons.prems by auto
  then show ?case using Cons.IH [of k1] Cons.prems(2) by auto
qed simp

lemma ring_drop_lock:
  "ring_drop (q\<lparr>q_FlushLock := b\<rparr>) = (ring_drop q)\<lparr>q_FlushLock := b\<rparr>"
  by (cases q) (simp add: ring_drop_def)

lemma ring_drop_many_lock:
  "(ring_drop ^^ n) (q\<lparr>q_FlushLock := b\<rparr>) = ((ring_drop ^^ n) q)\<lparr>q_FlushLock := b\<rparr>"
  by (induction n) (simp_all add: ring_drop_lock)

lemma ring_drop_many_unlocked:
  "q_FlushLock q = b \<Longrightarrow> ((ring_drop ^^ n) q)\<lparr>q_FlushLock := b\<rparr> = (ring_drop ^^ n) q"
proof -
  have "q_FlushLock ((ring_drop ^^ n) q) = q_FlushLock q"
    by (induction n) (simp_all add: ring_drop_def)
  then show "q_FlushLock q = b \<Longrightarrow> ((ring_drop ^^ n) q)\<lparr>q_FlushLock := b\<rparr> = (ring_drop ^^ n) q"
    by (cases "(ring_drop ^^ n) q") simp
qed

definition due :: "'e kcore \<Rightarrow> u64 \<Rightarrow> bool \<Rightarrow> 'e qentry list" where
  "due k mx force = take (unat mx) (takeWhile (eligible force (k_epoch k)) (q_list (k_queue k)))"

lemma flushEligible_eq:
  assumes inv: "q_inv (k_queue k)" and free: "\<not> q_FlushLock (k_queue k)"
  shows "queue_flushEligible k mx force =
    map_option (\<lambda>k'. (k'\<lparr>k_queue := (ring_drop ^^ length (due k mx force)) (k_queue k)\<rparr>,
        of_nat (length (due k mx force)))) (retire_all k (due k mx force))"
proof -
  let ?q = "(k_queue k)\<lparr>q_FlushLock := True\<rparr>"
  let ?k = "k\<lparr>k_queue := ?q\<rparr>"
  have "q_list ?q = q_list (k_queue k)" and "q_inv ?q"
    using inv by (simp_all add: q_list_def q_inv_def q_window_def)
  then have "flush_loop ?k 0 mx force =
    map_option (\<lambda>k'. (k'\<lparr>k_queue := (ring_drop ^^ length (due k mx force)) ?q\<rparr>,
        of_nat (length (due k mx force)))) (retire_all ?k (due k mx force))"
    using flush_loop_spec [of ?k 0 mx "due k mx force" force] by (simp add: due_def)
  also have "retire_all ?k (due k mx force) =
      map_option (\<lambda>k'. k'\<lparr>k_queue := ?q\<rparr>) (retire_all k (due k mx force))"
    by (rule retire_all_queue) simp
  finally show ?thesis
    using inv free
    by (cases "retire_all k (due k mx force)")
      (simp_all add: queue_flushEligible_def spin_lock_def spin_unlock_def ring_drop_many_lock
        ring_drop_many_unlocked q_inv_def)
qed

text \<open>The memory effect of retiring an entry, and of retiring many.\<close>

definition dealloc_entry :: "'e \<Rightarrow> 'e qentry \<Rightarrow> 'e" where
  "dealloc_entry env e =
     (case e_DeallocThunk e of
        None \<Rightarrow> env
      | Some thunk \<Rightarrow> if e_Allocator e = null then env
          else thunk env (e_Allocator e) (e_BlockBase e) (e_BlockSize e))"

lemma retire_entry_env: "retire_entry k e = Some k' \<Longrightarrow> k_env k' = dealloc_entry (k_env k) e"
  by (auto simp: retire_entry_def dealloc_entry_def Let_def split: if_splits option.splits)

lemma retire_entry_stats:
  "retire_entry k e = Some k' \<Longrightarrow> k_stats k' =
     (if q_Stats (k_queue k) then statsOnQuarantineDequeue (statsOnDestroy (e_BlockSize e) (k_stats k)) else k_stats k)"
  by (auto simp: retire_entry_def statsVia_def Let_def split: if_splits option.splits)

lemma retire_all_env: "retire_all k es = Some k' \<Longrightarrow> k_env k' = foldl dealloc_entry (k_env k) es"
  by (induction es arbitrary: k) (auto simp: Option.bind_eq_Some_conv retire_entry_env)

lemma retire_all_stats:
  assumes "retire_all k es = Some k'" and "q_Stats (k_queue k)"
  shows "k_stats k' = foldl (\<lambda>st e. statsOnQuarantineDequeue (statsOnDestroy (e_BlockSize e) st)) (k_stats k) es"
  using assms
proof (induction es arbitrary: k)
  case (Cons e es)
  then obtain k1 where k1: "retire_entry k e = Some k1" "retire_all k1 es = Some k'"
    by (auto simp: Option.bind_eq_Some_conv)
  show ?case
    using Cons.IH [OF k1(2)] Cons.prems(2) retire_entry_frame(1) [OF k1(1)] retire_entry_stats [OF k1(1)] by simp
qed simp

lemma retire_all_frame: "retire_all k es = Some k' \<Longrightarrow> k_queue k' = k_queue k \<and> k_epoch k' = k_epoch k"
  by (induction es arbitrary: k) (auto simp: Option.bind_eq_Some_conv dest: retire_entry_frame)

lemma due_eligible: "e \<in> set (due k mx force) \<Longrightarrow> eligible force (k_epoch k) e"
  unfolding due_def by (metis in_set_takeD set_takeWhileD)

lemma length_due: "length (due k mx force) \<le> length (q_list (k_queue k))"
  using length_takeWhile_le [of "eligible force (k_epoch k)" "q_list (k_queue k)"]
  unfolding due_def by (simp add: min_le_iff_disj)

text \<open>A forced flush without a limit takes everything.\<close>

lemma due_forced: "due k (- 1) True = q_list (k_queue k)"
proof -
  have "length (q_list (k_queue k)) \<le> unat (- 1 :: u64)"
    unfolding length_q_list unat_minus_one_64 using unat_lt_64 [of "q_Tail (k_queue k)"] by linarith
  moreover have tw: "takeWhile (eligible True (k_epoch k)) (q_list (k_queue k)) = q_list (k_queue k)"
    by (simp add: takeWhile_eq_all_conv eligible_def)
  ultimately show ?thesis unfolding due_def tw by simp
qed

text \<open>The due entries are a prefix of the waiting list.\<close>

lemma due_append: "due k mx force @ drop (length (due k mx force)) (q_list (k_queue k)) = q_list (k_queue k)"
  and due_take: "due k mx force = take (length (due k mx force)) (q_list (k_queue k))"
proof -
  let ?l = "q_list (k_queue k)" and ?p = "eligible force (k_epoch k)"
  have "due k mx force @ (drop (unat mx) (takeWhile ?p ?l) @ dropWhile ?p ?l) = ?l"
    unfolding due_def by (simp add: append_assoc [symmetric] del: append_assoc)
  note eq = this [unfolded append_eq_conv_conj]
  show "due k mx force = take (length (due k mx force)) ?l" using eq by (rule conjunct1)
  then show "due k mx force @ drop (length (due k mx force)) ?l = ?l"
    using append_take_drop_id [of "length (due k mx force)" ?l] by (simp only: flip: due_def)
qed

lemma due_maximal:
  assumes "length (due k mx force) < unat mx"
    and "length (due k mx force) < length (q_list (k_queue k))"
  shows "\<not> eligible force (k_epoch k) (q_list (k_queue k) ! length (due k mx force))"
proof -
  have "length (due k mx force) = length (takeWhile (eligible force (k_epoch k)) (q_list (k_queue k)))"
    using assms(1) by (simp add: due_def)
  then show ?thesis using nth_length_takeWhile [of "eligible force (k_epoch k)" "q_list (k_queue k)"] assms(2)
    by simp
qed

section \<open>Properties\<close>

text \<open>
  C26: \<open>enqueue\<close> of a block of a registered owner: when the queue has room it always succeeds, the
  entry becomes the last of the waiting list with its size, epoch, allocator and thunk as given, and
  the slot it takes is an empty one (the assertion in the code holds); when all slots are taken the
  process stops after counting a violation.
\<close>

theorem quarantine_enqueue_exact:
  assumes inv: "q_inv (k_queue k)" and "p \<noteq> null" and "own \<noteq> null"
    and wrap: "unat (q_Tail (k_queue k)) < 2 ^ 64 - 1"
  shows "if length (q_list (k_queue k)) < unat (q_Capacity (k_queue k))
    then (\<exists>k'. queue_enqueue k p sz ep al th own = Ret k' True \<and> q_inv (k_queue k')
        \<and> q_list (k_queue k') = q_list (k_queue k) @ [\<lparr>e_BlockSize = sz, e_Epoch = ep, e_Allocator = al,
            e_DeallocThunk = th, e_OwningRegistry = own, e_BlockBase = p\<rparr>]
        \<and> q_slots (k_queue k) ! unat (q_Tail (k_queue k) AND (q_Capacity (k_queue k) - 1)) = qentry_zero
        \<and> k_regs k' = k_regs k \<and> k_env k' = k_env k \<and> k_epoch k' = k_epoch k)
    else (\<exists>k'. queue_enqueue k p sz ep al th own = Trap k'
        \<and> (q_Stats (k_queue k) \<longrightarrow> k_stats k' = statsOnViolation (k_stats k)))"
proof (cases "length (q_list (k_queue k)) < unat (q_Capacity (k_queue k))")
  case True
  let ?q = "k_queue k"
  let ?e = "\<lparr>e_BlockSize = sz, e_Epoch = ep, e_Allocator = al, e_DeallocThunk = th,
      e_OwningRegistry = own, e_BlockBase = p\<rparr>"
  let ?c = "unat (q_Capacity ?q)"
  have acc: "ring_accepts ?q ?e" using True wrap assms(2) by (simp add: ring_accepts_def)
  have "i mod ?c \<noteq> unat (q_Tail ?q) mod ?c" if "i \<in> q_window ?q" for i
  proof
    assume "i mod ?c = unat (q_Tail ?q) mod ?c"
    moreover have "Suc (unat (q_Tail ?q)) - unat (q_Head ?q) \<le> ?c"
      using True inv by (simp add: length_q_list q_inv_def)
    ultimately have "i = unat (q_Tail ?q)"
      using that window_mod_inj [of "unat (q_Head ?q)" i "Suc (unat (q_Tail ?q))" "unat (q_Tail ?q)" ?c] inv
      by (simp add: q_window_def q_inv_def)
    then show False using that by (simp add: q_window_def)
  qed
  then have "q_slots ?q ! (unat (q_Tail ?q) mod ?c) = qentry_zero"
    using inv q_inv_cap [OF inv] by (simp add: q_inv_def)
  moreover have "unat (q_Tail ?q AND (q_Capacity ?q - 1)) = unat (q_Tail ?q) mod ?c"
    using inv by (simp add: q_inv_def pow2_mask_mod)
  ultimately show ?thesis
    using True enqueue_cases [OF inv assms(2,3) refl] ring.put_inv [OF inv acc] ring.put_contents [OF inv acc]
    by simp
next
  case False
  then show ?thesis using enqueue_cases [OF inv assms(2,3) refl] by (simp add: statsVia_def)
qed

definition demo_queue :: "nat queue" where
  "demo_queue = \<lparr>q_Slots = 65536, q_slots = [qentry_zero, qentry_zero], q_Capacity = 2, q_Head = 0,
     q_Tail = 0, q_FlushLock = False, q_Stats = True\<rparr>"

definition demo_entry :: "addr \<Rightarrow> u64 \<Rightarrow> nat qentry" where
  "demo_entry p ep = \<lparr>e_BlockSize = 256, e_Epoch = ep, e_Allocator = 8,
     e_DeallocThunk = Some (\<lambda>n a b s. Suc n), e_OwningRegistry = 16, e_BlockBase = p\<rparr>"

definition demo_core :: "nat kcore" where
  "demo_core = \<lparr>k_stats = stats_zero, k_epoch = 7, k_queue = ring_put (ring_put demo_queue (demo_entry 4096 5)) (demo_entry 8192 6),
     k_regs = [16 \<mapsto> registry_demo], k_env = 0\<rparr>"

lemma demo_queue_inv: "q_inv demo_queue" and demo_queue_list: "q_list demo_queue = []"
  by (simp_all add: q_inv_def demo_queue_def q_window_def q_list_def is_pow2_def less_2_cases_iff nth_Cons')

lemma demo_core_queue:
  "q_inv (k_queue demo_core)" "q_list (k_queue demo_core) = [demo_entry 4096 5, demo_entry 8192 6]"
  "\<not> q_FlushLock (k_queue demo_core)" "q_Capacity (k_queue demo_core) = 2" "q_Tail (k_queue demo_core) = 2"
  "q_Stats (k_queue demo_core)"
proof -
  let ?q1 = "ring_put demo_queue (demo_entry 4096 5)"
  let ?q2 = "ring_put ?q1 (demo_entry 8192 6)"
  have a1: "ring_accepts demo_queue (demo_entry 4096 5)"
    by (simp add: ring_accepts_def demo_queue_list demo_entry_def) (simp add: demo_queue_def)
  note r1 = ring.put_inv [OF demo_queue_inv a1] ring.put_contents [OF demo_queue_inv a1]
  have a2: "ring_accepts ?q1 (demo_entry 8192 6)"
    by (simp add: ring_accepts_def r1 demo_queue_list) (simp add: demo_queue_def demo_entry_def ring_put_def)
  note r2 = ring.put_inv [OF r1(1) a2] ring.put_contents [OF r1(1) a2]
  show "q_inv (k_queue demo_core)" "q_list (k_queue demo_core) = [demo_entry 4096 5, demo_entry 8192 6]"
    using r2 by (simp_all add: demo_core_def r1 demo_queue_list)
  show "\<not> q_FlushLock (k_queue demo_core)" "q_Capacity (k_queue demo_core) = 2"
    "q_Tail (k_queue demo_core) = 2" "q_Stats (k_queue demo_core)"
    by (simp_all add: demo_core_def ring_put_def demo_queue_def)
qed

theorem quarantine_enqueue_exact_witness:
  "\<exists>k'. queue_enqueue demo_core 12288 256 7 8 None 16 = Trap k'
     \<and> k_stats k' = statsOnViolation (k_stats demo_core)"
  using quarantine_enqueue_exact [of demo_core 12288 16 256 7 8 None] by (simp add: demo_core_queue)

text \<open>
  C5: \<open>flushEligible\<close> returns, and removes from the front of the queue exactly the entries that are due:
  the longest prefix, at most \<open>v_MaxCount\<close> long, of entries that are forced or at least two epochs old.
  It gives the memory of each of them back once, oldest first, retires each in its registry, counts
  each, and leaves the rest of the queue as it was. A forced flush without a limit empties the queue.
\<close>

theorem quarantine_flush_exact:
  assumes inv: "q_inv (k_queue k)" and free: "\<not> q_FlushLock (k_queue k)" and regs: "regs_ok k"
    and owners: "e_OwningRegistry ` set (q_list (k_queue k)) \<subseteq> dom (k_regs k)"
    and stats: "q_Stats (k_queue k)"
  shows "\<exists>k' n. queue_flushEligible k mx force = Some (k', of_nat n)
    \<and> n = length (due k mx force) \<and> due k mx force = take n (q_list (k_queue k))
    \<and> q_list (k_queue k') = drop n (q_list (k_queue k))
    \<and> (\<forall>e \<in> set (due k mx force). force \<or> e_Epoch e + 2 \<le> k_epoch k)
    \<and> (n < length (q_list (k_queue k)) \<longrightarrow> n = unat mx \<or> \<not> force \<and> k_epoch k < e_Epoch (q_list (k_queue k) ! n) + 2)
    \<and> k_env k' = foldl dealloc_entry (k_env k) (due k mx force)
    \<and> k_stats k' = foldl (\<lambda>st e. statsOnQuarantineDequeue (statsOnDestroy (e_BlockSize e) st)) (k_stats k) (due k mx force)
    \<and> q_inv (k_queue k') \<and> \<not> q_FlushLock (k_queue k') \<and> regs_ok k'
    \<and> dom (k_regs k') = dom (k_regs k) \<and> k_epoch k' = k_epoch k"
proof -
  let ?es = "due k mx force"
  have pre: "?es = take (length ?es) (q_list (k_queue k))" by (rule due_take)
  have "set ?es \<subseteq> set (q_list (k_queue k))" by (subst pre) (rule set_take_subset)
  then have "e_OwningRegistry ` set ?es \<subseteq> dom (k_regs k)" using owners by blast
  then obtain k0 where k0: "retire_all k ?es = Some k0" "regs_ok k0" "dom (k_regs k0) = dom (k_regs k)"
    using retire_all_total [OF regs] by blast
  let ?k = "k0\<lparr>k_queue := (ring_drop ^^ length ?es) (k_queue k)\<rparr>"
  have run: "queue_flushEligible k mx force = Some (?k, of_nat (length ?es))"
    using flushEligible_eq [OF inv free] k0(1) by simp
  note many = ring.rest_many [OF inv length_due [of k mx force]]
  have unl: "\<not> q_FlushLock ((ring_drop ^^ n) (k_queue k))" for n
    using free by (induction n) (simp_all add: ring_drop_def)
  have stop: "length ?es = unat mx \<or> \<not> force \<and> k_epoch k < e_Epoch (q_list (k_queue k) ! length ?es) + 2"
    if "length ?es < length (q_list (k_queue k))"
  proof (cases "length ?es < unat mx")
    case True
    then show ?thesis using due_maximal [OF True that] by (auto simp: eligible_def not_le)
  next
    case False
    then show ?thesis by (simp add: due_def)
  qed
  have el: "force \<or> e_Epoch e + 2 \<le> k_epoch k" if "e \<in> set ?es" for e
    using due_eligible [OF that] by (simp add: eligible_def)
  have "regs_ok ?k" using k0(2) by (simp add: regs_ok_def)
  then show ?thesis
    using run pre many unl stop el k0(3) retire_all_env [OF k0(1)] retire_all_stats [OF k0(1) stats]
      retire_all_frame [OF k0(1)]
    by (intro exI [of _ ?k] exI [of _ "length ?es"]) simp
qed

theorem quarantine_flush_exact_witness:
  "\<exists>k'. queue_flushEligible demo_core (- 1) False = Some (k', 1)
     \<and> q_list (k_queue k') = [demo_entry 8192 6] \<and> k_env k' = 1"
proof -
  have d: "due demo_core (- 1) False = [demo_entry 4096 5]"
    by (simp add: due_def demo_core_queue eligible_def unat_minus_one_64 take_Cons')
      (simp add: demo_core_def demo_entry_def)
  have "regs_ok demo_core" by (simp add: regs_ok_def demo_core_def registry_demo_inv)
  moreover have "e_OwningRegistry ` set (q_list (k_queue demo_core)) \<subseteq> dom (k_regs demo_core)"
    by (simp add: demo_core_queue) (simp add: demo_entry_def demo_core_def)
  moreover have "k_env demo_core = 0" by (simp add: demo_core_def)
  ultimately show ?thesis
    using quarantine_flush_exact [OF demo_core_queue(1,3) _ _ demo_core_queue(6), of "- 1" False]
    by (auto simp: d demo_core_queue dealloc_entry_def demo_entry_def)
qed

end
