(* ===== verification/Kerbecs_QueueSteps.thy ===== *)
theory Kerbecs_QueueSteps
  imports Kerbecs_QuarantineSpec
begin

text \<open>
  The quarantine among threads: any number of threads inside \<open>enqueue\<close> and any number that want to
  flush (\<open>src/Private/QuarantineQueue.cpp\<close>). A step is one atomic access of \<open>m_Head\<close>, \<open>m_Tail\<close>, \<open>m_FlushLock\<close>
  or \<open>m_BlockBase\<close> together with the plain accesses that go with it, in any order that the threads allow
  (sequentially consistent interleavings; weaker orders are not modelled).

  A thread in \<open>enqueue\<close> has taken its ticket (\<open>ETail\<close>), has found the slot inside the window (\<open>EClear\<close>), has
  written the plain fields (\<open>EFilled\<close>), and then publishes \<open>m_BlockBase\<close>. The one thread that holds the
  flush lock is between two rounds (\<open>FLoop\<close>), has seen a head below the tail (\<open>FSlot\<close>), has retired the entry
  and cleared its fields (\<open>FRetired\<close>), and has cleared \<open>m_BlockBase\<close> (\<open>FEmptied\<close>). The reasons to end a flush
  (empty slot, young epoch, enough flushed) only matter for when it happens, so \<open>leave\<close> is always
  possible. The histories \<open>rs_entries\<close>, by ticket, and \<open>rs_retired\<close> are not part of the program.
\<close>

datatype 'e enq_pc = EIdle | ETail u64 "'e qentry" | EClear u64 "'e qentry" | EFilled u64 "'e qentry"

datatype flush_pc = FOut | FLoop nat | FSlot nat u64 | FRetired nat u64 | FEmptied nat u64

record 'e ring_sys =
  rs_queue :: "'e queue"
  rs_pc :: "nat \<Rightarrow> 'e enq_pc"
  rs_flush :: flush_pc
  rs_entries :: "'e qentry list"
  rs_retired :: "'e qentry list"
  rs_trapped :: bool

definition slot_idx :: "'e queue \<Rightarrow> u64 \<Rightarrow> nat" where
  "slot_idx q ticket = unat (ticket AND (q_Capacity q - 1))"

inductive ring_step :: "'e ring_sys \<Rightarrow> 'e ring_sys \<Rightarrow> bool" where
  reserve: "\<lbrakk>\<not> rs_trapped s; rs_pc s t = EIdle; q_Slots (rs_queue s) \<noteq> null; e_BlockBase e \<noteq> null;
     e_OwningRegistry e \<noteq> null; unat (q_Tail (rs_queue s)) < 18446744073709551615\<rbrakk>
    \<Longrightarrow> ring_step s (s\<lparr>rs_queue := (rs_queue s)\<lparr>q_Tail := q_Tail (rs_queue s) + 1\<rparr>,
          rs_pc := (rs_pc s)(t := ETail (q_Tail (rs_queue s)) e), rs_entries := rs_entries s @ [e]\<rparr>)"
| accept: "\<lbrakk>\<not> rs_trapped s; rs_pc s t = ETail k e; \<not> k - q_Head (rs_queue s) \<ge> q_Capacity (rs_queue s)\<rbrakk>
    \<Longrightarrow> ring_step s (s\<lparr>rs_pc := (rs_pc s)(t := EClear k e)\<rparr>)"
| saturate: "\<lbrakk>\<not> rs_trapped s; rs_pc s t = ETail k e; k - q_Head (rs_queue s) \<ge> q_Capacity (rs_queue s)\<rbrakk>
    \<Longrightarrow> ring_step s (s\<lparr>rs_trapped := True\<rparr>)"
| fill: "\<lbrakk>\<not> rs_trapped s; rs_pc s t = EClear k e; q = rs_queue s; i = slot_idx q k\<rbrakk>
    \<Longrightarrow> ring_step s (s\<lparr>rs_queue := q\<lparr>q_slots := (q_slots q)[i := e\<lparr>e_BlockBase := e_BlockBase (q_slots q ! i)\<rparr>]\<rparr>,
          rs_pc := (rs_pc s)(t := EFilled k e)\<rparr>)"
| publish: "\<lbrakk>\<not> rs_trapped s; rs_pc s t = EFilled k e; q = rs_queue s; i = slot_idx q k\<rbrakk>
    \<Longrightarrow> ring_step s (s\<lparr>rs_queue := q\<lparr>q_slots := (q_slots q)[i := (q_slots q ! i)\<lparr>e_BlockBase := e_BlockBase e\<rparr>]\<rparr>,
          rs_pc := (rs_pc s)(t := EIdle)\<rparr>)"
| lock: "\<lbrakk>\<not> rs_trapped s; q_Slots (rs_queue s) \<noteq> null; rs_flush s = FOut; \<not> q_FlushLock (rs_queue s)\<rbrakk>
    \<Longrightarrow> ring_step s (s\<lparr>rs_queue := (rs_queue s)\<lparr>q_FlushLock := True\<rparr>, rs_flush := FLoop t\<rparr>)"
| look: "\<lbrakk>\<not> rs_trapped s; rs_flush s = FLoop t; q_Head (rs_queue s) < q_Tail (rs_queue s)\<rbrakk>
    \<Longrightarrow> ring_step s (s\<lparr>rs_flush := FSlot t (q_Head (rs_queue s))\<rparr>)"
| leave: "\<lbrakk>\<not> rs_trapped s; rs_flush s = FLoop t \<or> rs_flush s = FSlot t k\<rbrakk>
    \<Longrightarrow> ring_step s (s\<lparr>rs_queue := (rs_queue s)\<lparr>q_FlushLock := False\<rparr>, rs_flush := FOut\<rparr>)"
| retire: "\<lbrakk>\<not> rs_trapped s; rs_flush s = FSlot t k; q = rs_queue s; i = slot_idx q k; e_BlockBase (q_slots q ! i) \<noteq> null\<rbrakk>
    \<Longrightarrow> ring_step s (s\<lparr>rs_queue := q\<lparr>q_slots := (q_slots q)[i := qentry_zero\<lparr>e_BlockBase := e_BlockBase (q_slots q ! i)\<rparr>]\<rparr>,
          rs_flush := FRetired t k, rs_retired := rs_retired s @ [q_slots q ! i]\<rparr>)"
| empty: "\<lbrakk>\<not> rs_trapped s; rs_flush s = FRetired t k; q = rs_queue s; i = slot_idx q k\<rbrakk>
    \<Longrightarrow> ring_step s (s\<lparr>rs_queue := q\<lparr>q_slots := (q_slots q)[i := (q_slots q ! i)\<lparr>e_BlockBase := null\<rparr>]\<rparr>,
          rs_flush := FEmptied t k\<rparr>)"
| advance: "\<lbrakk>\<not> rs_trapped s; rs_flush s = FEmptied t k\<rbrakk>
    \<Longrightarrow> ring_step s (s\<lparr>rs_queue := (rs_queue s)\<lparr>q_Head := q_Head (rs_queue s) + 1\<rparr>, rs_flush := FLoop t\<rparr>)"

definition ring_start :: "'e queue \<Rightarrow> 'e ring_sys" where
  "ring_start q = \<lparr>rs_queue = q, rs_pc = (\<lambda>_. EIdle), rs_flush = FOut, rs_entries = [], rs_retired = [],
     rs_trapped = False\<rparr>"

section \<open>The state of a ticket\<close>

definition taken :: "(nat \<Rightarrow> 'e enq_pc) \<Rightarrow> nat \<Rightarrow> bool" where
  "taken pc i \<longleftrightarrow> (\<exists>t k e. (pc t = ETail k e \<or> pc t = EClear k e) \<and> unat k = i)"

definition filled :: "(nat \<Rightarrow> 'e enq_pc) \<Rightarrow> nat \<Rightarrow> bool" where
  "filled pc i \<longleftrightarrow> (\<exists>t k e. pc t = EFilled k e \<and> unat k = i)"

fun mid :: "flush_pc \<Rightarrow> bool" where
  "mid (FRetired t k) = True"
| "mid (FEmptied t k) = True"
| "mid _ = False"

definition head_nat :: "'e ring_sys \<Rightarrow> nat" where "head_nat s = unat (q_Head (rs_queue s))"
definition cap_nat :: "'e ring_sys \<Rightarrow> nat" where "cap_nat s = unat (q_Capacity (rs_queue s))"

definition done_nat :: "'e ring_sys \<Rightarrow> nat" where
  "done_nat s = head_nat s + (if mid (rs_flush s) then 1 else 0)"

text \<open>What the slot of ticket \<open>i\<close> holds, for the tickets of the window that starts at the head.\<close>

definition slot_holds :: "'e ring_sys \<Rightarrow> nat \<Rightarrow> 'e qentry" where
  "slot_holds s i =
     (if i \<ge> length (rs_entries s) then qentry_zero
      else if i = head_nat s \<and> mid (rs_flush s)
      then (if \<exists>t k. rs_flush s = FRetired t k then qentry_zero\<lparr>e_BlockBase := e_BlockBase (rs_entries s ! i)\<rparr>
            else qentry_zero)
      else if filled (rs_pc s) i then (rs_entries s ! i)\<lparr>e_BlockBase := null\<rparr>
      else if taken (rs_pc s) i then qentry_zero
      else rs_entries s ! i)"

fun ticket :: "'e enq_pc \<Rightarrow> (u64 \<times> 'e qentry) option" where
  "ticket EIdle = None"
| "ticket (ETail k e) = Some (k, e)"
| "ticket (EClear k e) = Some (k, e)"
| "ticket (EFilled k e) = Some (k, e)"

fun flush_head :: "flush_pc \<Rightarrow> u64 option" where
  "flush_head FOut = None"
| "flush_head (FLoop t) = None"
| "flush_head (FSlot t k) = Some k"
| "flush_head (FRetired t k) = Some k"
| "flush_head (FEmptied t k) = Some k"

definition ring_sys_inv :: "'e ring_sys \<Rightarrow> bool" where
  "ring_sys_inv s \<longleftrightarrow>
     q_Slots (rs_queue s) \<noteq> null \<and> is_pow2 (q_Capacity (rs_queue s))
     \<and> length (q_slots (rs_queue s)) = cap_nat s
     \<and> unat (q_Tail (rs_queue s)) = length (rs_entries s) \<and> done_nat s \<le> length (rs_entries s)
     \<and> (\<forall>e \<in> set (rs_entries s). e_BlockBase e \<noteq> null)
     \<and> (\<forall>t k e. ticket (rs_pc s t) = Some (k, e) \<longrightarrow>
          done_nat s \<le> unat k \<and> unat k < length (rs_entries s) \<and> rs_entries s ! unat k = e)
     \<and> (\<forall>t t' k e e'. ticket (rs_pc s t) = Some (k, e) \<longrightarrow> ticket (rs_pc s t') = Some (k, e') \<longrightarrow> t = t')
     \<and> (\<forall>t k e. rs_pc s t = EClear k e \<or> rs_pc s t = EFilled k e \<longrightarrow> unat k < head_nat s + cap_nat s)
     \<and> (\<forall>i. head_nat s + cap_nat s \<le> i \<longrightarrow> i < length (rs_entries s) \<longrightarrow> taken (rs_pc s) i)
     \<and> (\<forall>i. head_nat s \<le> i \<longrightarrow> i < head_nat s + cap_nat s \<longrightarrow>
          q_slots (rs_queue s) ! (i mod cap_nat s) = slot_holds s i)
     \<and> (\<forall>k. flush_head (rs_flush s) = Some k \<longrightarrow> unat k = head_nat s \<and> head_nat s < length (rs_entries s))
     \<and> (q_FlushLock (rs_queue s) \<longleftrightarrow> rs_flush s \<noteq> FOut)
     \<and> rs_retired s = take (done_nat s) (rs_entries s)
     \<and> (rs_trapped s \<longrightarrow> head_nat s + cap_nat s < length (rs_entries s))"

section \<open>The invariant\<close>

lemma slot_idx_mod: "is_pow2 (q_Capacity q) \<Longrightarrow> slot_idx q k = unat k mod unat (q_Capacity q)"
  by (simp add: slot_idx_def pow2_mask_mod)

lemma ring_invD:
  assumes "ring_sys_inv s"
  shows ring_shape: "q_Slots (rs_queue s) \<noteq> null" "is_pow2 (q_Capacity (rs_queue s))"
      "length (q_slots (rs_queue s)) = cap_nat s" "unat (q_Tail (rs_queue s)) = length (rs_entries s)"
      "done_nat s \<le> length (rs_entries s)"
    and ring_bases: "\<And>i. i < length (rs_entries s) \<Longrightarrow> e_BlockBase (rs_entries s ! i) \<noteq> null"
    and ring_ticket: "\<And>t k e. ticket (rs_pc s t) = Some (k, e) \<Longrightarrow>
      done_nat s \<le> unat k \<and> unat k < length (rs_entries s) \<and> rs_entries s ! unat k = e"
    and ring_owner: "\<And>t t' k e e'. ticket (rs_pc s t) = Some (k, e) \<Longrightarrow> ticket (rs_pc s t') = Some (k, e') \<Longrightarrow> t = t'"
    and ring_window: "\<And>t k e. rs_pc s t = EClear k e \<or> rs_pc s t = EFilled k e \<Longrightarrow> unat k < head_nat s + cap_nat s"
    and ring_late: "\<And>i. head_nat s + cap_nat s \<le> i \<Longrightarrow> i < length (rs_entries s) \<Longrightarrow> taken (rs_pc s) i"
    and ring_slots: "\<And>i. head_nat s \<le> i \<Longrightarrow> i < head_nat s + cap_nat s \<Longrightarrow>
      q_slots (rs_queue s) ! (i mod cap_nat s) = slot_holds s i"
    and ring_flush: "\<And>k. flush_head (rs_flush s) = Some k \<Longrightarrow> unat k = head_nat s \<and> head_nat s < length (rs_entries s)"
    and ring_lock: "q_FlushLock (rs_queue s) \<longleftrightarrow> rs_flush s \<noteq> FOut"
    and ring_retired: "rs_retired s = take (done_nat s) (rs_entries s)"
    and ring_trap: "rs_trapped s \<Longrightarrow> head_nat s + cap_nat s < length (rs_entries s)"
    and ring_cap: "0 < cap_nat s"
  using assms pow2_unat_le unfolding ring_sys_inv_def cap_nat_def by (blast | (simp add: in_set_conv_nth, blast) | fastforce)+

text \<open>A ticket is held by one thread, and its state is where that thread is.\<close>

lemma phase_owner:
  assumes inv: "ring_sys_inv s" and tk: "ticket (rs_pc s t) = Some (k, e)"
  shows "filled (rs_pc s) (unat k) \<longleftrightarrow> rs_pc s t = EFilled k e"
    and "taken (rs_pc s) (unat k) \<longleftrightarrow> rs_pc s t \<noteq> EFilled k e"
proof -
  have own: "t' = t" if "ticket (rs_pc s t') = Some (k, e')" for t' e'
    using ring_owner [OF inv that tk] .
  show "filled (rs_pc s) (unat k) \<longleftrightarrow> rs_pc s t = EFilled k e"
  proof
    assume "filled (rs_pc s) (unat k)"
    then obtain t' e' where p: "rs_pc s t' = EFilled k e'" by (auto simp: filled_def word_eq_iff_unat [symmetric])
    then have "t' = t" using own by simp
    then show "rs_pc s t = EFilled k e" using p tk by simp
  qed (auto simp: filled_def)
  show "taken (rs_pc s) (unat k) \<longleftrightarrow> rs_pc s t \<noteq> EFilled k e"
  proof
    assume "taken (rs_pc s) (unat k)"
    then obtain t' e' where p: "rs_pc s t' = ETail k e' \<or> rs_pc s t' = EClear k e'"
      by (auto simp: taken_def word_eq_iff_unat [symmetric])
    then have "t' = t" using own by auto
    then show "rs_pc s t \<noteq> EFilled k e" using p by auto
  next
    assume "rs_pc s t \<noteq> EFilled k e"
    then have "rs_pc s t = ETail k e \<or> rs_pc s t = EClear k e" using tk by (cases "rs_pc s t") auto
    then show "taken (rs_pc s) (unat k)" by (auto simp: taken_def)
  qed
qed

lemma phase_move_gen:
  assumes inv: "ring_sys_inv s" and Q: "\<And>p k e. Q p k e \<Longrightarrow> ticket p = Some (k, e)"
  shows "(\<exists>t' k e. Q (((rs_pc s)(t := p)) t') k e \<and> unat k = i) \<longleftrightarrow> (\<exists>k e. Q p k e \<and> unat k = i)
      \<or> (\<exists>t' k e. Q (rs_pc s t') k e \<and> unat k = i) \<and> (\<forall>k e. ticket (rs_pc s t) = Some (k, e) \<longrightarrow> unat k \<noteq> i)"
    (is "?L \<longleftrightarrow> ?P \<or> ?O \<and> ?N")
proof
  assume ?L
  then obtain t' k e where l: "Q (((rs_pc s)(t := p)) t') k e" "unat k = i" by blast
  show "?P \<or> ?O \<and> ?N"
  proof (cases "t' = t")
    case True
    then show ?thesis using l by auto
  next
    case False
    then have q: "Q (rs_pc s t') k e" using l(1) by simp
    have "unat k' \<noteq> i" if "ticket (rs_pc s t) = Some (k', e')" for k' e'
      using ring_owner [OF inv that, of t' e] Q [OF q] False l(2) by (auto simp: word_eq_iff_unat [symmetric])
    then show ?thesis using q l(2) by blast
  qed
next
  assume r: "?P \<or> ?O \<and> ?N"
  show ?L
  proof (cases ?P)
    case True
    then obtain k e where "Q p k e" "unat k = i" by blast
    then show ?thesis by (intro exI [of _ t] exI [of _ k] exI [of _ e]) simp
  next
    case False
    then obtain t' k e where q: "Q (rs_pc s t') k e" "unat k = i" and n: ?N using r by blast
    have "t' \<noteq> t" using Q [OF q(1)] n q(2) by auto
    then show ?thesis using q by (intro exI [of _ t'] exI [of _ k] exI [of _ e]) simp
  qed
qed

lemma phase_move:
  assumes inv: "ring_sys_inv s"
  shows "filled ((rs_pc s)(t := p)) i \<longleftrightarrow> (\<exists>k e. p = EFilled k e \<and> unat k = i)
      \<or> filled (rs_pc s) i \<and> (\<forall>k e. ticket (rs_pc s t) = Some (k, e) \<longrightarrow> unat k \<noteq> i)"
    and "taken ((rs_pc s)(t := p)) i \<longleftrightarrow> (\<exists>k e. (p = ETail k e \<or> p = EClear k e) \<and> unat k = i)
      \<or> taken (rs_pc s) i \<and> (\<forall>k e. ticket (rs_pc s t) = Some (k, e) \<longrightarrow> unat k \<noteq> i)"
  unfolding filled_def taken_def
  by (rule phase_move_gen [OF inv], simp) (rule phase_move_gen [OF inv], auto)

lemma ring_sys_invI:
  assumes "q_Slots (rs_queue s) \<noteq> null" "is_pow2 (q_Capacity (rs_queue s))"
      "length (q_slots (rs_queue s)) = cap_nat s" "unat (q_Tail (rs_queue s)) = length (rs_entries s)"
      "done_nat s \<le> length (rs_entries s)" "\<And>e. e \<in> set (rs_entries s) \<Longrightarrow> e_BlockBase e \<noteq> null"
    and "\<And>t k e. ticket (rs_pc s t) = Some (k, e) \<Longrightarrow>
      done_nat s \<le> unat k \<and> unat k < length (rs_entries s) \<and> rs_entries s ! unat k = e"
    and "\<And>t t' k e e'. ticket (rs_pc s t) = Some (k, e) \<Longrightarrow> ticket (rs_pc s t') = Some (k, e') \<Longrightarrow> t = t'"
    and "\<And>t k e. rs_pc s t = EClear k e \<or> rs_pc s t = EFilled k e \<Longrightarrow> unat k < head_nat s + cap_nat s"
    and "\<And>i. head_nat s + cap_nat s \<le> i \<Longrightarrow> i < length (rs_entries s) \<Longrightarrow> taken (rs_pc s) i"
    and "\<And>i. head_nat s \<le> i \<Longrightarrow> i < head_nat s + cap_nat s \<Longrightarrow>
      q_slots (rs_queue s) ! (i mod cap_nat s) = slot_holds s i"
    and "\<And>k. flush_head (rs_flush s) = Some k \<Longrightarrow> unat k = head_nat s \<and> head_nat s < length (rs_entries s)"
    and "q_FlushLock (rs_queue s) \<longleftrightarrow> rs_flush s \<noteq> FOut"
    and "rs_retired s = take (done_nat s) (rs_entries s)"
    and "rs_trapped s \<Longrightarrow> head_nat s + cap_nat s < length (rs_entries s)"
  shows "ring_sys_inv s"
  using assms unfolding ring_sys_inv_def by blast

lemma ticket_upd: "ticket (((rs_pc s)(t := p)) t') = Some (k, e) \<Longrightarrow> ticket p = ticket (rs_pc s t) \<Longrightarrow>
    ticket (rs_pc s t') = Some (k, e)"
  by (cases "t' = t") simp_all

text \<open>A thread that moves on with its ticket.\<close>

lemma ring_move:
  assumes inv: "ring_sys_inv s" and pc: "ticket (rs_pc s t) = Some (k, e)" and p: "ticket p = Some (k, e)"
    and win: "p = EClear k e \<or> p = EFilled k e \<Longrightarrow> unat k < head_nat s + cap_nat s"
    and q: "q_Slots q = q_Slots (rs_queue s)" "q_Capacity q = q_Capacity (rs_queue s)" "q_Head q = q_Head (rs_queue s)"
      "q_Tail q = q_Tail (rs_queue s)" "q_FlushLock q = q_FlushLock (rs_queue s)" "length (q_slots q) = cap_nat s"
    and slots: "\<And>i. head_nat s \<le> i \<Longrightarrow> i < head_nat s + cap_nat s \<Longrightarrow>
      q_slots q ! (i mod cap_nat s) = slot_holds (s\<lparr>rs_queue := q, rs_pc := (rs_pc s)(t := p)\<rparr>) i"
  shows "ring_sys_inv (s\<lparr>rs_queue := q, rs_pc := (rs_pc s)(t := p)\<rparr>)" (is "ring_sys_inv ?s")
proof -
  have n: "head_nat ?s = head_nat s" "cap_nat ?s = cap_nat s" "done_nat ?s = done_nat s"
    by (simp_all add: head_nat_def cap_nat_def done_nat_def q)
  have tk: "ticket (rs_pc s t') = Some (k', e')" if "ticket (rs_pc ?s t') = Some (k', e')" for t' k' e'
    using ticket_upd [of s t p t' k' e'] that pc p by simp
  show ?thesis
  proof (rule ring_sys_invI, goal_cases)
    case (9 t' k' e')
    then show ?case
    proof (cases "t' = t")
      case True
      then show ?thesis using 9 p win n by auto
    next
      case False
      then show ?thesis using 9 ring_window [OF inv, of t' k' e'] n by simp
    qed
  next
    case (10 i)
    then have "taken (rs_pc s) i" "i < length (rs_entries s)" using ring_late [OF inv] n by simp_all
    moreover have "\<not> unat k = i \<or> (\<exists>e. p = ETail k e \<or> p = EClear k e)"
    proof (cases "unat k = i")
      case True
      then have "p \<noteq> EClear k e" "p \<noteq> EFilled k e" using win 10 n by auto
      then show ?thesis using p by (cases p) auto
    qed simp
    ultimately show ?case using phase_move(2) [OF inv, of t p i] pc by auto
  next
    case (7 t' k' e')
    then show ?case using ring_ticket [OF inv tk [OF 7]] n by simp
  next
    case (8 t1 t2 k' e1 e2)
    then show ?case using ring_owner [OF inv tk [OF 8(1)] tk [OF 8(2)]] by simp
  next
    case (11 i)
    then show ?case using slots n by simp
  qed (use inv q ring_bases [OF inv] ring_shape [OF inv] ring_flush [OF inv] ring_lock [OF inv] ring_retired [OF inv] ring_trap [OF inv] n
    in \<open>auto simp: in_set_conv_nth\<close>)
qed

text \<open>The slot of a ticket in the window, and what becomes of the others.\<close>

lemma window_slot:
  assumes inv: "ring_sys_inv s" and i: "head_nat s \<le> i" "i < head_nat s + cap_nat s"
    and j: "head_nat s \<le> j" "j < head_nat s + cap_nat s"
  shows "((q_slots (rs_queue s))[j mod cap_nat s := v]) ! (i mod cap_nat s)
    = (if i = j then v else q_slots (rs_queue s) ! (i mod cap_nat s))"
proof (cases "i = j")
  case True
  then show ?thesis using ring_cap [OF inv] ring_shape(3) [OF inv] by simp
next
  case False
  then have "i mod cap_nat s \<noteq> j mod cap_nat s"
    using window_mod_inj [of "head_nat s" i "head_nat s + cap_nat s" j "cap_nat s"] i j by auto
  then show ?thesis using False by simp
qed

lemma owner_slot:
  assumes inv: "ring_sys_inv s" and tk: "ticket (rs_pc s t) = Some (k, e)" and win: "unat k < head_nat s + cap_nat s"
  shows "slot_idx (rs_queue s) k = unat k mod cap_nat s" and "head_nat s \<le> unat k"
    and "q_slots (rs_queue s) ! slot_idx (rs_queue s) k
      = (if rs_pc s t = EFilled k e then e\<lparr>e_BlockBase := null\<rparr> else qentry_zero)"
proof -
  show i: "slot_idx (rs_queue s) k = unat k mod cap_nat s"
    using slot_idx_mod [OF ring_shape(2) [OF inv]] by (simp add: cap_nat_def)
  note t = ring_ticket [OF inv tk]
  then show h: "head_nat s \<le> unat k" by (simp add: done_nat_def)
  have "\<not> (unat k = head_nat s \<and> mid (rs_flush s))" using t by (auto simp: done_nat_def split: if_splits)
  then show "q_slots (rs_queue s) ! slot_idx (rs_queue s) k
      = (if rs_pc s t = EFilled k e then e\<lparr>e_BlockBase := null\<rparr> else qentry_zero)"
    unfolding i ring_slots [OF inv h win] slot_holds_def phase_owner [OF inv tk] using t by auto
qed

lemma ring_accept_inv:
  assumes inv: "ring_sys_inv s" and pc: "rs_pc s t = ETail k e" and ok: "\<not> k - q_Head (rs_queue s) \<ge> q_Capacity (rs_queue s)"
  shows "ring_sys_inv (s\<lparr>rs_pc := (rs_pc s)(t := EClear k e)\<rparr>)"
proof -
  have tk: "ticket (rs_pc s t) = Some (k, e)" using pc by simp
  have h: "head_nat s \<le> unat k" using ring_ticket [OF inv tk] by (simp add: done_nat_def)
  then have "unat (k - q_Head (rs_queue s)) = unat k - head_nat s"
    by (simp add: head_nat_def unat_minus_le word_le_nat_alt)
  then have win: "unat k < head_nat s + cap_nat s" using ok h by (simp add: cap_nat_def word_le_nat_alt not_le)
  have "ring_sys_inv (s\<lparr>rs_queue := rs_queue s, rs_pc := (rs_pc s)(t := EClear k e)\<rparr>)"
  proof (rule ring_move [OF inv tk])
    fix i assume i: "head_nat s \<le> i" "i < head_nat s + cap_nat s"
    have "taken ((rs_pc s)(t := EClear k e)) i = taken (rs_pc s) i" "filled ((rs_pc s)(t := EClear k e)) i = filled (rs_pc s) i"
      using phase_owner [OF inv tk] pc by (auto simp: phase_move [OF inv] tk)
    then show "q_slots (rs_queue s) ! (i mod cap_nat s)
        = slot_holds (s\<lparr>rs_queue := rs_queue s, rs_pc := (rs_pc s)(t := EClear k e)\<rparr>) i"
      using ring_slots [OF inv i] by (simp add: slot_holds_def head_nat_def)
  qed (simp_all add: win ring_shape [OF inv])
  then show ?thesis by simp
qed

lemma ring_fill_inv:
  assumes inv: "ring_sys_inv s" and pc: "rs_pc s t = EClear k e" and q: "q = rs_queue s" "i = slot_idx q k"
  shows "ring_sys_inv (s\<lparr>rs_queue := q\<lparr>q_slots := (q_slots q)[i := e\<lparr>e_BlockBase := e_BlockBase (q_slots q ! i)\<rparr>]\<rparr>,
    rs_pc := (rs_pc s)(t := EFilled k e)\<rparr>)"
proof -
  have tk: "ticket (rs_pc s t) = Some (k, e)" using pc by simp
  have win: "unat k < head_nat s + cap_nat s" using ring_window [OF inv] pc by blast
  note o = owner_slot [OF inv tk win]
  note rt = ring_ticket [OF inv tk]
  have base: "e_BlockBase (q_slots (rs_queue s) ! (unat k mod cap_nat s)) = null"
    using o(3) pc unfolding o(1) by (simp add: qentry_zero_def)
  let ?q = "rs_queue s\<lparr>q_slots := (q_slots (rs_queue s))[unat k mod cap_nat s := e\<lparr>e_BlockBase := null\<rparr>]\<rparr>"
  have "ring_sys_inv (s\<lparr>rs_queue := ?q, rs_pc := (rs_pc s)(t := EFilled k e)\<rparr>)"
  proof (rule ring_move [OF inv tk])
    fix j assume j: "head_nat s \<le> j" "j < head_nat s + cap_nat s"
    have "taken ((rs_pc s)(t := EFilled k e)) j \<longleftrightarrow> taken (rs_pc s) j \<and> unat k \<noteq> j"
      "filled ((rs_pc s)(t := EFilled k e)) j \<longleftrightarrow> filled (rs_pc s) j \<or> unat k = j"
      using phase_owner [OF inv tk] pc by (auto simp: phase_move [OF inv] tk)
    then show "q_slots ?q ! (j mod cap_nat s) = slot_holds (s\<lparr>rs_queue := ?q, rs_pc := (rs_pc s)(t := EFilled k e)\<rparr>) j"
      using ring_slots [OF inv j] rt window_slot [OF inv j o(2) win]
      by (cases "j = unat k") (auto simp: slot_holds_def head_nat_def done_nat_def split: if_splits)
  qed (simp_all add: win ring_shape [OF inv])
  then show ?thesis by (simp add: q o(1) base)
qed

lemma ring_publish_inv:
  assumes inv: "ring_sys_inv s" and pc: "rs_pc s t = EFilled k e" and q: "q = rs_queue s" "i = slot_idx q k"
  shows "ring_sys_inv (s\<lparr>rs_queue := q\<lparr>q_slots := (q_slots q)[i := (q_slots q ! i)\<lparr>e_BlockBase := e_BlockBase e\<rparr>]\<rparr>,
    rs_pc := (rs_pc s)(t := EIdle)\<rparr>)"
proof -
  have tk: "ticket (rs_pc s t) = Some (k, e)" using pc by simp
  have win: "unat k < head_nat s + cap_nat s" using ring_window [OF inv] pc by blast
  note o = owner_slot [OF inv tk win]
  note rt = ring_ticket [OF inv tk]
  have new: "(q_slots q ! i)\<lparr>e_BlockBase := e_BlockBase e\<rparr> = e" using o(3) pc by (simp add: q)
  let ?q = "rs_queue s\<lparr>q_slots := (q_slots (rs_queue s))[unat k mod cap_nat s := e]\<rparr>"
  let ?s = "s\<lparr>rs_queue := ?q, rs_pc := (rs_pc s)(t := EIdle)\<rparr>"
  have n: "head_nat ?s = head_nat s" "cap_nat ?s = cap_nat s" "done_nat ?s = done_nat s"
    by (simp_all add: head_nat_def cap_nat_def done_nat_def)
  have idle: "t' \<noteq> t \<and> ticket (rs_pc s t') = Some x" if "ticket (rs_pc ?s t') = Some x" for t' x
    using that by (auto split: if_splits)
  have ph: "taken ((rs_pc s)(t := EIdle)) j \<longleftrightarrow> taken (rs_pc s) j"
      "filled ((rs_pc s)(t := EIdle)) j \<longleftrightarrow> filled (rs_pc s) j \<and> unat k \<noteq> j" for j
    using phase_owner [OF inv tk] pc by (auto simp: phase_move [OF inv] tk)
  have "ring_sys_inv ?s"
  proof (rule ring_sys_invI, goal_cases)
    case (7 t' k' e')
    from idle [OF 7] have "ticket (rs_pc s t') = Some (k', e')" ..
    from ring_ticket [OF inv this] show ?case unfolding n by simp
  next
    case (8 t1 t2 k' e1 e2)
    from idle [OF 8(1)] idle [OF 8(2)] have "ticket (rs_pc s t1) = Some (k', e1)" "ticket (rs_pc s t2) = Some (k', e2)"
      by blast+
    then show ?case by (rule ring_owner [OF inv])
  next
    case (9 t' k' e')
    then have "rs_pc s t' = EClear k' e' \<or> rs_pc s t' = EFilled k' e'" by (auto split: if_splits)
    then show ?case using ring_window [OF inv] n by simp
  next
    case (10 j)
    then show ?case using ring_late [OF inv, of j] n ph by simp
  next
    case (11 j)
    then have j: "head_nat s \<le> j" "j < head_nat s + cap_nat s" using n by simp_all
    show ?case
      using ring_slots [OF inv j] rt window_slot [OF inv j o(2) win, of e] phase_owner [OF inv tk] pc ph n
      by (cases "j = unat k") (auto simp: slot_holds_def done_nat_def split: if_splits)
  qed (use ring_bases [OF inv] ring_shape [OF inv] ring_flush [OF inv] ring_lock [OF inv] ring_retired [OF inv]
      ring_trap [OF inv] n in \<open>auto simp: in_set_conv_nth\<close>)
  then show ?thesis unfolding new by (simp add: q o(1))
qed

lemma ring_reserve_inv:
  assumes inv: "ring_sys_inv s" and pc: "rs_pc s t = EIdle" and e: "e_BlockBase e \<noteq> null" and live: "\<not> rs_trapped s"
    and room: "unat (q_Tail (rs_queue s)) < 18446744073709551615"
  shows "ring_sys_inv (s\<lparr>rs_queue := (rs_queue s)\<lparr>q_Tail := q_Tail (rs_queue s) + 1\<rparr>,
    rs_pc := (rs_pc s)(t := ETail (q_Tail (rs_queue s)) e), rs_entries := rs_entries s @ [e]\<rparr>)" (is "ring_sys_inv ?s")
proof -
  let ?T = "q_Tail (rs_queue s)"
  note sh = ring_shape [OF inv]
  have n: "head_nat ?s = head_nat s" "cap_nat ?s = cap_nat s" "done_nat ?s = done_nat s"
    by (simp_all add: head_nat_def cap_nat_def done_nat_def)
  have cases_t: "t' = t \<and> x = (?T, e) \<or> t' \<noteq> t \<and> ticket (rs_pc s t') = Some x" if "ticket (rs_pc ?s t') = Some x" for t' x
    using that by (auto split: if_splits)
  have lt: "unat k' < unat ?T" if "ticket (rs_pc s t') = Some (k', e')" for t' k' e'
    using ring_ticket [OF inv that] sh(4) by simp
  have ph: "taken ((rs_pc s)(t := ETail ?T e)) j \<longleftrightarrow> unat ?T = j \<or> taken (rs_pc s) j"
      "filled ((rs_pc s)(t := ETail ?T e)) j \<longleftrightarrow> filled (rs_pc s) j" for j
    by (auto simp: phase_move [OF inv] pc)
  have nf: "\<not> filled (rs_pc s) (unat ?T)"
  proof
    assume "filled (rs_pc s) (unat ?T)"
    then obtain t' k' e' where "rs_pc s t' = EFilled k' e'" "unat k' = unat ?T" by (auto simp: filled_def)
    then show False using lt [of t' k' e'] by simp
  qed
  show ?thesis
  proof (rule ring_sys_invI, goal_cases)
    case (7 t' k' e')
    then show ?case
      using cases_t [of t' "(k', e')"] ring_ticket [OF inv, of t' k' e'] sh(4,5) n by (auto simp: nth_append)
  next
    case (8 t1 t2 k' e1 e2)
    then show ?case
      using cases_t [of t1 "(k', e1)"] cases_t [of t2 "(k', e2)"] ring_owner [OF inv, of t1 k' e1 t2 e2]
        lt [of t1 k' e1] lt [of t2 k' e2] by auto
  next
    case (9 t' k' e')
    then have "rs_pc s t' = EClear k' e' \<or> rs_pc s t' = EFilled k' e'" by (auto split: if_splits)
    then show ?case using ring_window [OF inv] n by simp
  next
    case (10 j)
    then show ?case using ring_late [OF inv, of j] sh(4) n ph(1) by (cases "j = length (rs_entries s)") auto
  next
    case (11 j)
    then have j: "head_nat s \<le> j" "j < head_nat s + cap_nat s" using n by simp_all
    have "slot_holds ?s j = slot_holds s j"
    proof (cases "j = length (rs_entries s)")
      case True
      have "\<not> (j = head_nat s \<and> mid (rs_flush s))" using sh(5) True by (auto simp: done_nat_def split: if_splits)
      then show ?thesis using True sh(4) nf ph n by (auto simp: slot_holds_def)
    next
      case False
      then show ?thesis using ph sh(4) n by (auto simp: slot_holds_def nth_append)
    qed
    then show ?case using ring_slots [OF inv j] n by simp
  next
    case (12 k)
    then show ?case using ring_flush [OF inv, of k] n by simp
  qed (use ring_bases [OF inv] sh room e live ring_lock [OF inv] ring_retired [OF inv] n
      in \<open>auto simp: in_set_conv_nth unat_succ_nowrap\<close>)
qed

text \<open>The steps of the thread that flushes.\<close>

lemma head_in_window: "ring_sys_inv s \<Longrightarrow> head_nat s < head_nat s + cap_nat s"
  using ring_cap by simp

lemma head_idx:
  assumes "ring_sys_inv s" and "flush_head (rs_flush s) = Some k"
  shows "slot_idx (rs_queue s) k = head_nat s mod cap_nat s"
  using ring_flush [OF assms] slot_idx_mod [OF ring_shape(2) [OF assms(1)]] by (simp add: cap_nat_def)

lemma ring_flush_move:
  assumes inv: "ring_sys_inv s"
    and q: "q_Slots q = q_Slots (rs_queue s)" "q_Capacity q = q_Capacity (rs_queue s)" "q_Head q = q_Head (rs_queue s)"
      "q_Tail q = q_Tail (rs_queue s)" "length (q_slots q) = cap_nat s"
    and lk: "q_FlushLock q \<longleftrightarrow> f \<noteq> FOut"
    and fh: "\<And>k. flush_head f = Some k \<Longrightarrow> unat k = head_nat s \<and> head_nat s < length (rs_entries s)"
    and later: "mid f \<and> \<not> mid (rs_flush s) \<Longrightarrow> \<not> filled (rs_pc s) (head_nat s) \<and> \<not> taken (rs_pc s) (head_nat s)"
    and same: "mid (rs_flush s) \<Longrightarrow> mid f"
    and R: "R = take (head_nat s + (if mid f then 1 else 0)) (rs_entries s)"
    and slots: "\<And>i. head_nat s \<le> i \<Longrightarrow> i < head_nat s + cap_nat s \<Longrightarrow>
      q_slots q ! (i mod cap_nat s) = slot_holds (s\<lparr>rs_queue := q, rs_flush := f, rs_retired := R\<rparr>) i"
  shows "ring_sys_inv (s\<lparr>rs_queue := q, rs_flush := f, rs_retired := R\<rparr>)" (is "ring_sys_inv ?s")
proof -
  have n: "head_nat ?s = head_nat s" "cap_nat ?s = cap_nat s" by (simp_all add: head_nat_def cap_nat_def q)
  have d: "done_nat ?s = head_nat s + (if mid f then 1 else 0)" by (simp add: done_nat_def head_nat_def q)
  show ?thesis
  proof (rule ring_sys_invI, goal_cases)
    case 5
    show ?case
    proof (cases "mid f")
      case True
      then have "\<exists>k. flush_head f = Some k" by (cases f) auto
      then show ?thesis using fh d True by auto
    next
      case False
      then show ?thesis using d ring_shape(5) [OF inv] by (simp add: done_nat_def split: if_splits)
    qed
  next
    case (7 t k e)
    then have tk: "ticket (rs_pc s t) = Some (k, e)" by simp
    have "unat k \<noteq> head_nat s" if "mid f"
    proof (cases "mid (rs_flush s)")
      case True
      then show ?thesis using ring_ticket [OF inv tk] by (auto simp: done_nat_def)
    next
      case False
      then show ?thesis using later that phase_owner [OF inv tk] by auto
    qed
    then show ?case using ring_ticket [OF inv tk] d by (auto simp: done_nat_def split: if_splits)
  next
    case (8 t1 t2 k e1 e2)
    then have "ticket (rs_pc s t1) = Some (k, e1)" "ticket (rs_pc s t2) = Some (k, e2)" by simp_all
    then show ?case by (rule ring_owner [OF inv])
  next
    case (9 t k e)
    then have "rs_pc s t = EClear k e \<or> rs_pc s t = EFilled k e" by simp
    then show ?case using ring_window [OF inv] n by simp
  next
    case (11 i)
    then show ?case using slots n by simp
  qed (use q lk fh R ring_bases [OF inv] ring_shape [OF inv] ring_late [OF inv] ring_trap [OF inv] n d
      in \<open>auto simp: in_set_conv_nth\<close>)
qed

lemma ring_wait_inv:
  assumes inv: "ring_sys_inv s" and f: "\<not> mid f" "\<not> mid (rs_flush s)"
    and fh: "\<And>k. flush_head f = Some k \<Longrightarrow> unat k = head_nat s \<and> head_nat s < length (rs_entries s)"
  shows "ring_sys_inv (s\<lparr>rs_queue := (rs_queue s)\<lparr>q_FlushLock := (f \<noteq> FOut)\<rparr>, rs_flush := f\<rparr>)"
proof -
  let ?q = "(rs_queue s)\<lparr>q_FlushLock := (f \<noteq> FOut)\<rparr>"
  have R: "rs_retired s = take (head_nat s + (if mid f then 1 else 0)) (rs_entries s)"
    using ring_retired [OF inv] f by (simp add: done_nat_def)
  have "ring_sys_inv (s\<lparr>rs_queue := ?q, rs_flush := f, rs_retired := rs_retired s\<rparr>)"
  proof (rule ring_flush_move [OF inv _ _ _ _ _ _ fh _ _ R])
    fix i assume "head_nat s \<le> i" "i < head_nat s + cap_nat s"
    then show "q_slots ?q ! (i mod cap_nat s) = slot_holds (s\<lparr>rs_queue := ?q, rs_flush := f, rs_retired := rs_retired s\<rparr>) i"
      using ring_slots [OF inv, of i] f by (simp add: slot_holds_def head_nat_def)
  qed (use f ring_shape(3) [OF inv] in simp_all)
  then show ?thesis by simp
qed

lemma ring_retire_inv:
  assumes inv: "ring_sys_inv s" and f: "rs_flush s = FSlot t k" and q: "q = rs_queue s" "i = slot_idx q k"
    and base: "e_BlockBase (q_slots q ! i) \<noteq> null"
  shows "q_slots q ! i = rs_entries s ! head_nat s"
    and "ring_sys_inv (s\<lparr>rs_queue := q\<lparr>q_slots := (q_slots q)[i := qentry_zero\<lparr>e_BlockBase := e_BlockBase (q_slots q ! i)\<rparr>]\<rparr>,
      rs_flush := FRetired t k, rs_retired := rs_retired s @ [q_slots q ! i]\<rparr>)"
proof -
  have fk: "flush_head (rs_flush s) = Some k" using f by simp
  note fl = ring_flush [OF inv fk] and idx = head_idx [OF inv fk]
  have nm: "\<not> mid (rs_flush s)" using f by simp
  note hs = ring_slots [OF inv order_refl head_in_window [OF inv]]
  have ent: "q_slots q ! i = rs_entries s ! head_nat s" and free: "\<not> filled (rs_pc s) (head_nat s)" "\<not> taken (rs_pc s) (head_nat s)"
    using base fl nm unfolding q idx hs by (auto simp: slot_holds_def qentry_zero_def split: if_splits)
  show "q_slots q ! i = rs_entries s ! head_nat s" by (rule ent)
  let ?e = "qentry_zero\<lparr>e_BlockBase := e_BlockBase (rs_entries s ! head_nat s)\<rparr>"
  let ?q = "(rs_queue s)\<lparr>q_slots := (q_slots (rs_queue s))[head_nat s mod cap_nat s := ?e]\<rparr>"
  let ?R = "rs_retired s @ [rs_entries s ! head_nat s]"
  have R: "?R = take (head_nat s + (if mid (FRetired t k) then 1 else 0)) (rs_entries s)"
    using ring_retired [OF inv] fl nm by (simp add: done_nat_def take_Suc_conv_app_nth)
  have "ring_sys_inv (s\<lparr>rs_queue := ?q, rs_flush := FRetired t k, rs_retired := ?R\<rparr>)"
  proof (rule ring_flush_move [OF inv _ _ _ _ _ _ _ _ _ R])
    fix j assume j: "head_nat s \<le> j" "j < head_nat s + cap_nat s"
    show "q_slots ?q ! (j mod cap_nat s) = slot_holds (s\<lparr>rs_queue := ?q, rs_flush := FRetired t k, rs_retired := ?R\<rparr>) j"
      using window_slot [OF inv j order_refl head_in_window [OF inv], of ?e] ring_slots [OF inv j] fl nm
      by (auto simp: slot_holds_def head_nat_def)
  qed (use fl free f ring_shape(3) [OF inv] ring_lock [OF inv] in auto)
  then show "ring_sys_inv (s\<lparr>rs_queue := q\<lparr>q_slots := (q_slots q)[i := qentry_zero\<lparr>e_BlockBase := e_BlockBase (q_slots q ! i)\<rparr>]\<rparr>,
      rs_flush := FRetired t k, rs_retired := rs_retired s @ [q_slots q ! i]\<rparr>)"
    unfolding ent unfolding q idx by simp
qed

lemma ring_empty_inv:
  assumes inv: "ring_sys_inv s" and f: "rs_flush s = FRetired t k" and q: "q = rs_queue s" "i = slot_idx q k"
  shows "ring_sys_inv (s\<lparr>rs_queue := q\<lparr>q_slots := (q_slots q)[i := (q_slots q ! i)\<lparr>e_BlockBase := null\<rparr>]\<rparr>,
    rs_flush := FEmptied t k\<rparr>)"
proof -
  have fk: "flush_head (rs_flush s) = Some k" using f by simp
  note fl = ring_flush [OF inv fk] and idx = head_idx [OF inv fk]
  note hs = ring_slots [OF inv order_refl head_in_window [OF inv]]
  have zero: "(q_slots q ! i)\<lparr>e_BlockBase := null\<rparr> = qentry_zero"
    using fl f unfolding q idx hs by (auto simp: slot_holds_def qentry_zero_def)
  let ?q = "(rs_queue s)\<lparr>q_slots := (q_slots (rs_queue s))[head_nat s mod cap_nat s := qentry_zero]\<rparr>"
  have R: "rs_retired s = take (head_nat s + (if mid (FEmptied t k) then 1 else 0)) (rs_entries s)"
    using ring_retired [OF inv] f by (simp add: done_nat_def)
  have "ring_sys_inv (s\<lparr>rs_queue := ?q, rs_flush := FEmptied t k, rs_retired := rs_retired s\<rparr>)"
  proof (rule ring_flush_move [OF inv _ _ _ _ _ _ _ _ _ R])
    fix j assume j: "head_nat s \<le> j" "j < head_nat s + cap_nat s"
    show "q_slots ?q ! (j mod cap_nat s) = slot_holds (s\<lparr>rs_queue := ?q, rs_flush := FEmptied t k, rs_retired := rs_retired s\<rparr>) j"
      using window_slot [OF inv j order_refl head_in_window [OF inv], of qentry_zero] ring_slots [OF inv j] fl f
      by (auto simp: slot_holds_def head_nat_def)
  qed (use fl f ring_shape(3) [OF inv] ring_lock [OF inv] in auto)
  then show ?thesis unfolding zero unfolding q idx by simp
qed

lemma ring_advance_inv:
  assumes inv: "ring_sys_inv s" and f: "rs_flush s = FEmptied t k" and live: "\<not> rs_trapped s"
  shows "ring_sys_inv (s\<lparr>rs_queue := (rs_queue s)\<lparr>q_Head := q_Head (rs_queue s) + 1\<rparr>, rs_flush := FLoop t\<rparr>)"
    (is "ring_sys_inv ?s")
proof -
  have fk: "flush_head (rs_flush s) = Some k" using f by simp
  note fl = ring_flush [OF inv fk]
  have "head_nat s < 18446744073709551615"
    using fl ring_shape(4) [OF inv] unat_lt_64 [of "q_Tail (rs_queue s)"] by linarith
  then have h: "head_nat ?s = Suc (head_nat s)" by (simp add: head_nat_def unat_succ_nowrap)
  have c: "cap_nat ?s = cap_nat s" by (simp add: cap_nat_def)
  have d: "done_nat ?s = done_nat s" "done_nat s = Suc (head_nat s)" using h f by (simp_all add: done_nat_def)
  show ?thesis
  proof (rule ring_sys_invI, goal_cases)
    case (8 t1 t2 k' e1 e2)
    then have "ticket (rs_pc s t1) = Some (k', e1)" "ticket (rs_pc s t2) = Some (k', e2)" by simp_all
    then show ?case by (rule ring_owner [OF inv])
  next
    case (9 t' k' e')
    then have "rs_pc s t' = EClear k' e' \<or> rs_pc s t' = EFilled k' e'" by simp
    then show ?case using ring_window [OF inv] h c by fastforce
  next
    case (11 i)
    then have i: "Suc (head_nat s) \<le> i" "i \<le> head_nat s + cap_nat s" using h c by simp_all
    show ?case
    proof (cases "i = head_nat s + cap_nat s")
      case True
      have z: "q_slots (rs_queue s) ! (i mod cap_nat s) = qentry_zero"
        using ring_slots [OF inv order_refl head_in_window [OF inv]] fl f True by (simp add: slot_holds_def)
      have "\<not> filled (rs_pc s) i"
      proof
        assume "filled (rs_pc s) i"
        then obtain t' k' e' where "rs_pc s t' = EFilled k' e'" "unat k' = i" by (auto simp: filled_def)
        then show False using ring_window [OF inv, of t' k' e'] True by simp
      qed
      then have "slot_holds ?s i = qentry_zero" using ring_late [OF inv, of i] True by (auto simp: slot_holds_def)
      then show ?thesis using z c by simp
    next
      case False
      then show ?thesis using ring_slots [OF inv, of i] i c by (auto simp: slot_holds_def)
    qed
  qed (use live fl ring_ticket [OF inv] ring_bases [OF inv] ring_shape [OF inv] ring_late [OF inv] ring_lock [OF inv]
      ring_retired [OF inv] h c d f in \<open>auto simp: in_set_conv_nth\<close>)
qed

lemma ring_saturate_inv:
  assumes inv: "ring_sys_inv s" and pc: "rs_pc s t = ETail k e" and full: "k - q_Head (rs_queue s) \<ge> q_Capacity (rs_queue s)"
  shows "ring_sys_inv (s\<lparr>rs_trapped := True\<rparr>)"
proof -
  have tk: "ticket (rs_pc s t) = Some (k, e)" using pc by simp
  note rt = ring_ticket [OF inv tk]
  then have h: "head_nat s \<le> unat k" by (simp add: done_nat_def)
  then have "unat (k - q_Head (rs_queue s)) = unat k - head_nat s"
    by (simp add: head_nat_def unat_minus_le word_le_nat_alt)
  then have "head_nat s + cap_nat s \<le> unat k" using full h by (simp add: cap_nat_def word_le_nat_alt)
  then have "head_nat s + cap_nat s < length (rs_entries s)" using rt by linarith
  then show ?thesis
    using inv unfolding ring_sys_inv_def by (simp add: head_nat_def cap_nat_def done_nat_def slot_holds_def)
qed

lemma ring_step_inv:
  assumes "ring_step s s'" and inv: "ring_sys_inv s"
  shows "ring_sys_inv s'"
  using assms(1)
proof (cases rule: ring_step.cases)
  case (reserve t e)
  then show ?thesis using ring_reserve_inv [OF inv] by simp
next
  case (accept t k e)
  then show ?thesis using ring_accept_inv [OF inv] by simp
next
  case (saturate t k e)
  then show ?thesis using ring_saturate_inv [OF inv] by simp
next
  case (fill t k e q i)
  then show ?thesis using ring_fill_inv [OF inv] by simp
next
  case (publish t k e q i)
  then show ?thesis using ring_publish_inv [OF inv] by simp
next
  case (lock t)
  then show ?thesis using ring_wait_inv [OF inv, of "FLoop t"] by simp
next
  case (look t)
  then have "(rs_queue s)\<lparr>q_FlushLock := True\<rparr> = rs_queue s" using ring_lock [OF inv] by (cases "rs_queue s") simp
  moreover have "head_nat s < length (rs_entries s)"
    using look(4) ring_shape(4) [OF inv] by (simp add: head_nat_def word_less_nat_alt)
  ultimately show ?thesis
    using look ring_wait_inv [OF inv, of "FSlot t (q_Head (rs_queue s))"] by (simp add: head_nat_def)
next
  case (leave t k)
  then have "\<not> mid (rs_flush s)" by auto
  then show ?thesis using leave ring_wait_inv [OF inv, of FOut] by simp
next
  case (retire t k q i)
  then show ?thesis using ring_retire_inv(2) [OF inv] by simp
next
  case (empty t k q i)
  then show ?thesis using ring_empty_inv [OF inv] by simp
next
  case (advance t k)
  then show ?thesis using ring_advance_inv [OF inv] by simp
qed

lemma ring_step_cap: "ring_step s s' \<Longrightarrow> q_Capacity (rs_queue s') = q_Capacity (rs_queue s)"
  by (induction rule: ring_step.induct) auto

lemma ring_steps:
  assumes "ring_step\<^sup>*\<^sup>* s s'" and "ring_sys_inv s"
  shows "ring_sys_inv s' \<and> q_Capacity (rs_queue s') = q_Capacity (rs_queue s)"
  using assms by (induction rule: rtranclp_induct) (auto dest: ring_step_inv ring_step_cap)

lemma ring_start_inv:
  assumes "q_inv q" and "q_Head q = 0" and "q_Tail q = 0" and "\<not> q_FlushLock q"
  shows "ring_sys_inv (ring_start q)"
  using assms
  by (simp add: ring_sys_inv_def ring_start_def head_nat_def cap_nat_def done_nat_def slot_holds_def q_inv_def q_window_def)

lemma residue_in_window:
  fixes h c j :: nat
  assumes "j < c"
  shows "\<exists>i. h \<le> i \<and> i < h + c \<and> i mod c = j"
proof -
  let ?n = "h + c - 1 - j" and ?i = "j + c * ((h + c - 1 - j) div c)"
  have "c * (?n div c) + ?n mod c = ?n" by simp
  moreover have "?n mod c < c" using assms by simp
  ultimately have "h \<le> ?i" "?i < h + c" using assms by linarith+
  moreover have "?i mod c = j" using assms by simp
  ultimately show ?thesis by blast
qed

lemma ring_quiet:
  assumes inv: "ring_sys_inv s" and idle: "\<And>t. rs_pc s t = EIdle" and out: "rs_flush s = FOut"
  shows "q_inv (rs_queue s)" and "q_list (rs_queue s) = drop (length (rs_retired s)) (rs_entries s)"
proof -
  let ?q = "rs_queue s" and ?h = "head_nat s" and ?c = "cap_nat s" and ?T = "length (rs_entries s)"
  note sh = ring_shape [OF inv]
  have d: "done_nat s = ?h" using out by (simp add: done_nat_def)
  have np: "\<not> taken (rs_pc s) i" "\<not> filled (rs_pc s) i" for i using idle by (simp_all add: taken_def filled_def)
  have room: "?T \<le> ?h + ?c" using ring_late [OF inv, of "?h + ?c"] np by force
  have slot: "q_slots ?q ! (i mod ?c) = (if i < ?T then rs_entries s ! i else qentry_zero)" if "?h \<le> i" "i < ?h + ?c" for i
    using ring_slots [OF inv that] np out by (simp add: slot_holds_def)
  have win: "q_window ?q = {i. ?h \<le> i \<and> i < ?T}" by (simp add: q_window_def head_nat_def sh(4))
  have "q_list ?q = map ((!) (rs_entries s)) [?h..<?T]"
    unfolding q_list_def using slot room by (simp add: head_nat_def cap_nat_def sh(4))
  also have "\<dots> = drop ?h (rs_entries s)" by (rule nth_equalityI) simp_all
  finally show "q_list ?q = drop (length (rs_retired s)) (rs_entries s)"
    using ring_retired [OF inv] sh(5) d by simp
  show "q_inv ?q"
    unfolding q_inv_def win
  proof (intro conjI ballI allI impI)
    fix i assume "i \<in> {i. ?h \<le> i \<and> i < ?T}"
    then show "e_BlockBase (q_slots ?q ! (i mod unat (q_Capacity ?q))) \<noteq> null"
      using slot [of i] room ring_bases [OF inv] by (simp add: cap_nat_def)
  next
    fix j assume j: "j < unat (q_Capacity ?q)" "\<forall>i \<in> {i. ?h \<le> i \<and> i < ?T}. i mod unat (q_Capacity ?q) \<noteq> j"
    obtain i where "?h \<le> i" "i < ?h + ?c" "i mod ?c = j"
      using residue_in_window [of j ?c ?h] j(1) by (auto simp: cap_nat_def)
    then show "q_slots ?q ! j = qentry_zero" using slot [of i] j(2) by (auto simp: cap_nat_def)
  qed (use sh d room in \<open>auto simp: head_nat_def cap_nat_def\<close>)
qed

section \<open>Property\<close>

text \<open>
  C15: However the steps of enqueuing threads and flushes interleave, starting from an empty queue: the blocks
  that have been retired are exactly the first ones by ticket, in that order, each once and with the fields
  it was enqueued with; a thread that is about to write a slot always finds it cleared (the assertion in
  \<open>enqueue\<close>), so that no waiting entry is overwritten; the queue only reports saturation when at least as
  many blocks as it has slots have not been retired; and whenever no operation is under way the queue is
  the well-formed FIFO of all blocks that are still waiting.
\<close>

theorem quarantine_interleavings_safe:
  assumes q: "q_inv q" "q_Head q = 0" "q_Tail q = 0" "\<not> q_FlushLock q" and run: "ring_step\<^sup>*\<^sup>* (ring_start q) s"
  shows "rs_retired s = take (length (rs_retired s)) (rs_entries s)
    \<and> (\<forall>t k e. rs_pc s t = EClear k e \<longrightarrow> q_slots (rs_queue s) ! slot_idx (rs_queue s) k = qentry_zero)
    \<and> (\<forall>t k e. rs_pc s t = EFilled k e \<longrightarrow>
          q_slots (rs_queue s) ! slot_idx (rs_queue s) k = e\<lparr>e_BlockBase := null\<rparr>)
    \<and> (rs_trapped s \<longrightarrow> unat (q_Capacity q) \<le> length (rs_entries s) - length (rs_retired s))
    \<and> ((\<forall>t. rs_pc s t = EIdle) \<and> rs_flush s = FOut \<longrightarrow>
          q_inv (rs_queue s) \<and> q_list (rs_queue s) = drop (length (rs_retired s)) (rs_entries s))"
proof -
  have inv: "ring_sys_inv s" and cap: "cap_nat s = unat (q_Capacity q)"
    using ring_steps [OF run ring_start_inv [OF q]] by (simp_all add: cap_nat_def ring_start_def)
  have len: "length (rs_retired s) = done_nat s" using ring_retired [OF inv] ring_shape(5) [OF inv] by simp
  have clear: "q_slots (rs_queue s) ! slot_idx (rs_queue s) k = qentry_zero" if "rs_pc s t = EClear k e" for t k e
    using owner_slot(3) [OF inv, of t k e] ring_window [OF inv, of t k e] that by simp
  have half: "q_slots (rs_queue s) ! slot_idx (rs_queue s) k = e\<lparr>e_BlockBase := null\<rparr>" if "rs_pc s t = EFilled k e" for t k e
    using owner_slot(3) [OF inv, of t k e] ring_window [OF inv, of t k e] that by simp
  have "cap_nat s \<le> length (rs_entries s) - done_nat s" if "rs_trapped s"
    using ring_trap [OF inv that] by (cases "mid (rs_flush s)") (simp_all add: done_nat_def)
  then show ?thesis
    using ring_retired [OF inv] len clear half ring_quiet [OF inv] cap by simp
qed

text \<open>A run: a block is enqueued and retired while a second thread has already taken the next ticket.\<close>

lemma demo_run:
  "\<exists>s. ring_step\<^sup>*\<^sup>* (ring_start demo_queue) s \<and> rs_retired s = [demo_entry 4096 5]
    \<and> rs_pc s 3 = EClear 1 (demo_entry 8192 6)"
proof -
  let ?e = "demo_entry 4096 5" and ?e2 = "demo_entry 8192 6"
  let ?s0 = "ring_start demo_queue"
  let ?q1 = "demo_queue\<lparr>q_Tail := 1\<rparr>" and ?q2 = "demo_queue\<lparr>q_Tail := 2\<rparr>"
  let ?es = "[?e, ?e2]"
  let ?p1 = "(\<lambda>_. EIdle)(0 := ETail 0 ?e)"
  let ?p2 = "?p1(3 := ETail 1 ?e2)"
  let ?st = "\<lambda>q p f en re. \<lparr>rs_queue = q, rs_pc = p, rs_flush = f, rs_entries = en, rs_retired = re, rs_trapped = False\<rparr>"
  let ?s1 = "?st ?q1 ?p1 FOut [?e] []"
  let ?s2 = "?st ?q2 ?p2 FOut ?es []"
  let ?s3 = "?st ?q2 (?p2(0 := EClear 0 ?e)) FOut ?es []"
  let ?s4 = "?st ?q2 (?p2(0 := EClear 0 ?e, 3 := EClear 1 ?e2)) FOut ?es []"
  let ?q5 = "?q2\<lparr>q_slots := [?e\<lparr>e_BlockBase := null\<rparr>, qentry_zero]\<rparr>"
  let ?s5 = "?st ?q5 (?p2(0 := EFilled 0 ?e, 3 := EClear 1 ?e2)) FOut ?es []"
  let ?q6 = "?q2\<lparr>q_slots := [?e, qentry_zero]\<rparr>"
  let ?p6 = "?p2(0 := EIdle, 3 := EClear 1 ?e2)"
  let ?s6 = "?st ?q6 ?p6 FOut ?es []"
  let ?q7 = "?q6\<lparr>q_FlushLock := True\<rparr>"
  let ?s7 = "?st ?q7 ?p6 (FLoop 9) ?es []"
  let ?s8 = "?st ?q7 ?p6 (FSlot 9 0) ?es []"
  let ?s9 = "?st (?q7\<lparr>q_slots := [qentry_zero\<lparr>e_BlockBase := 4096\<rparr>, qentry_zero]\<rparr>) ?p6 (FRetired 9 0) ?es [?e]"
  note d = demo_queue_def demo_entry_def qentry_zero_def slot_idx_def ring_start_def
  have h1: "ring_step ?s0 ?s1" using ring_step.reserve [of ?s0 0 ?e] by (simp add: d)
  have h2: "ring_step ?s1 ?s2" using ring_step.reserve [of ?s1 3 ?e2] by (simp add: d)
  have h3: "ring_step ?s2 ?s3" using ring_step.accept [of ?s2 0 0 ?e] by (simp add: d fun_upd_twist word_le_nat_alt)
  have h4: "ring_step ?s3 ?s4" using ring_step.accept [of ?s3 3 1 ?e2] by (simp add: d fun_upd_twist word_le_nat_alt)
  have h5: "ring_step ?s4 ?s5" using ring_step.fill [of ?s4 0 0 ?e ?q2 0] by (simp add: d fun_upd_twist word_le_nat_alt)
  have h6: "ring_step ?s5 ?s6" using ring_step.publish [of ?s5 0 0 ?e ?q5 0] by (simp add: d fun_upd_twist word_le_nat_alt)
  have h7: "ring_step ?s6 ?s7" using ring_step.lock [of ?s6 9] by (simp add: d)
  have h8: "ring_step ?s7 ?s8" using ring_step.look [of ?s7 9] by (simp add: d)
  have h9: "ring_step ?s8 ?s9" using ring_step.retire [of ?s8 9 0 ?q7 0] by (simp add: d)
  note step = converse_rtranclp_into_rtranclp [where r = ring_step]
  have "ring_step\<^sup>*\<^sup>* ?s0 ?s9"
    by (rule step [OF h1], rule step [OF h2], rule step [OF h3], rule step [OF h4], rule step [OF h5],
        rule step [OF h6], rule step [OF h7], rule step [OF h8], rule step [OF h9], rule rtranclp.rtrancl_refl)
  then show ?thesis by (intro exI [of _ ?s9]) simp
qed

theorem quarantine_interleavings_safe_witness:
  "\<exists>s. ring_step\<^sup>*\<^sup>* (ring_start demo_queue) s \<and> rs_retired s = [demo_entry 4096 5]
    \<and> rs_entries s ! 0 = demo_entry 4096 5 \<and> q_slots (rs_queue s) ! 1 = qentry_zero"
proof -
  obtain s where run: "ring_step\<^sup>*\<^sup>* (ring_start demo_queue) s" and r: "rs_retired s = [demo_entry 4096 5]"
    and p: "rs_pc s 3 = EClear 1 (demo_entry 8192 6)" using demo_run by blast
  have q: "q_inv demo_queue" "q_Head demo_queue = 0" "q_Tail demo_queue = 0" "\<not> q_FlushLock demo_queue"
    using demo_queue_inv by (simp_all add: demo_queue_def)
  have c: "q_Capacity (rs_queue s) = 2" using ring_steps [OF run ring_start_inv [OF q]] by (simp add: ring_start_def demo_queue_def)
  note safe = quarantine_interleavings_safe [OF q run]
  have "[demo_entry 4096 5] = take 1 (rs_entries s)" using safe unfolding r by simp
  then have "rs_entries s ! 0 = demo_entry 4096 5" by (cases "rs_entries s") simp_all
  moreover have "q_slots (rs_queue s) ! slot_idx (rs_queue s) 1 = qentry_zero" using safe p by blast
  ultimately show ?thesis using run r by (intro exI [of _ s]) (simp add: slot_idx_def c)
qed

end
