(* ===== verification/Kerbecs_Platforms.thy ===== *)
theory Kerbecs_Platforms
  imports Kerbecs_Memory
begin

text \<open>
  The other branches of \<open>src/Private/KerbecsMemory.cpp\<close>: Windows, and platforms that are neither
  Windows nor Linux; the heap pair \<open>allocateHeap\<close> and \<open>deallocateHeap\<close>; and the literal operators
  of \<open>KerbecsMemory.h\<close>. The Win32 calls and the C heap are parameters, as the Linux calls are in
  \<open>Kerbecs_Memory\<close>. What the rest of the code expects of the page operations of a platform is the
  locale \<open>page_backend\<close>, of which the three platforms are instances.
\<close>

section \<open>The literal operators\<close>

definition lit_KB :: "u64 \<Rightarrow> u64" where "lit_KB v = v * 1000"
definition lit_MB :: "u64 \<Rightarrow> u64" where "lit_MB v = v * 1000 * 1000"
definition lit_GB :: "u64 \<Rightarrow> u64" where "lit_GB v = v * 1000 * 1000 * 1000"
definition lit_KiB :: "u64 \<Rightarrow> u64" where "lit_KiB v = v * 1024"
definition lit_MiB :: "u64 \<Rightarrow> u64" where "lit_MiB v = v * 1024 * 1024"
definition lit_GiB :: "u64 \<Rightarrow> u64" where "lit_GiB v = v * 1024 * 1024 * 1024"

lemmas lit_defs = lit_KB_def lit_MB_def lit_GB_def lit_KiB_def lit_MiB_def lit_GiB_def

section \<open>The Win32 calls\<close>

text \<open>
  \<open>VirtualAlloc\<close> and \<open>HeapAlloc\<close> return null on failure, \<open>VirtualFree\<close> and \<open>HeapFree\<close> whether they
  succeeded, and \<open>VirtualQuery\<close> the \<open>State\<close> field of the record it fills, \<open>None\<close> being the return
  value zero. The constants are those of \<open>winnt.h\<close>.
\<close>

record 'e win_api =
  win_VirtualAlloc :: "'e \<Rightarrow> addr \<Rightarrow> u64 \<Rightarrow> u32 \<Rightarrow> u32 \<Rightarrow> 'e \<times> addr"
  win_VirtualFree :: "'e \<Rightarrow> addr \<Rightarrow> u64 \<Rightarrow> u32 \<Rightarrow> 'e \<times> bool"
  win_VirtualQuery :: "'e \<Rightarrow> addr \<Rightarrow> u32 option"
  win_GetProcessHeap :: "'e \<Rightarrow> addr"
  win_HeapAlloc :: "'e \<Rightarrow> addr \<Rightarrow> u32 \<Rightarrow> u64 \<Rightarrow> 'e \<times> addr"
  win_HeapFree :: "'e \<Rightarrow> addr \<Rightarrow> u32 \<Rightarrow> addr \<Rightarrow> 'e \<times> bool"

definition MEM_COMMIT :: u32 where "MEM_COMMIT = 0x1000"
definition MEM_RESERVE :: u32 where "MEM_RESERVE = 0x2000"
definition MEM_DECOMMIT :: u32 where "MEM_DECOMMIT = 0x4000"
definition MEM_RELEASE :: u32 where "MEM_RELEASE = 0x8000"
definition PAGE_NOACCESS :: u32 where "PAGE_NOACCESS = 0x01"
definition PAGE_READWRITE :: u32 where "PAGE_READWRITE = 0x04"

lemmas win_const_defs = MEM_COMMIT_def MEM_RESERVE_def MEM_DECOMMIT_def MEM_RELEASE_def
  PAGE_NOACCESS_def PAGE_READWRITE_def

definition win_allocate :: "'e win_api \<Rightarrow> 'e \<Rightarrow> u64 \<Rightarrow> 'e \<times> addr" where
  "win_allocate w e v_Bytes = win_VirtualAlloc w e null v_Bytes (MEM_RESERVE OR MEM_COMMIT) PAGE_READWRITE"

definition win_reserve :: "'e win_api \<Rightarrow> 'e \<Rightarrow> u64 \<Rightarrow> 'e \<times> addr" where
  "win_reserve w e v_Bytes = win_VirtualAlloc w e null v_Bytes MEM_RESERVE PAGE_NOACCESS"

definition win_reserveAt :: "'e win_api \<Rightarrow> 'e \<Rightarrow> addr \<Rightarrow> u64 \<Rightarrow> 'e \<times> addr" where
  "win_reserveAt w e p_Hint v_Bytes =
     (let (e', p) = win_VirtualAlloc w e p_Hint v_Bytes MEM_RESERVE PAGE_NOACCESS
      in if p = null then win_VirtualAlloc w e' null v_Bytes MEM_RESERVE PAGE_NOACCESS
         else (e', p))"

definition win_commit :: "'e win_api \<Rightarrow> 'e \<Rightarrow> addr \<Rightarrow> u64 \<Rightarrow> u64 \<Rightarrow> 'e \<times> bool" where
  "win_commit w e p_Base v_Bytes v_Offset =
     (if p_Base = null \<or> v_Bytes = 0 then (e, False)
      else let (e', p) = win_VirtualAlloc w e (p_Base + v_Offset) v_Bytes MEM_COMMIT PAGE_READWRITE
           in (e', p \<noteq> null))"

definition win_decommit :: "'e win_api \<Rightarrow> 'e \<Rightarrow> addr \<Rightarrow> u64 \<Rightarrow> u64 \<Rightarrow> 'e \<times> bool" where
  "win_decommit w e p_Base v_Bytes v_Offset =
     (if p_Base = null \<or> v_Bytes = 0 then (e, False)
      else win_VirtualFree w e (p_Base + v_Offset) v_Bytes MEM_DECOMMIT)"

definition win_release :: "'e win_api \<Rightarrow> 'e \<Rightarrow> addr \<Rightarrow> u64 \<Rightarrow> 'e \<times> bool" where
  "win_release w e p_Memory v_Bytes =
     (if p_Memory = null then (e, False) else win_VirtualFree w e p_Memory 0 MEM_RELEASE)"

definition win_allocateHeap :: "'e win_api \<Rightarrow> 'e \<Rightarrow> u64 \<Rightarrow> 'e \<times> addr" where
  "win_allocateHeap w e v_Bytes = win_HeapAlloc w e (win_GetProcessHeap w e) 0 v_Bytes"

definition win_deallocateHeap :: "'e win_api \<Rightarrow> 'e \<Rightarrow> addr \<Rightarrow> 'e \<times> bool" where
  "win_deallocateHeap w e p_Memory =
     (if p_Memory = null then (e, False) else win_HeapFree w e (win_GetProcessHeap w e) 0 p_Memory)"

definition win_queryPage :: "'e win_api \<Rightarrow> 'e \<Rightarrow> addr \<Rightarrow> page_state" where
  "win_queryPage w e p_Memory =
     (if p_Memory = null then PageUnknown
      else (case win_VirtualQuery w e p_Memory of
              None \<Rightarrow> PageUnknown
            | Some state \<Rightarrow>
                if state AND MEM_COMMIT \<noteq> 0 then PageCommitted
                else if state AND MEM_RESERVE \<noteq> 0 then PageReserved
                else PageFree))"

section \<open>The C heap, and platforms without virtual memory calls\<close>

record 'e c_heap =
  c_malloc :: "'e \<Rightarrow> u64 \<Rightarrow> 'e \<times> addr"
  c_free :: "'e \<Rightarrow> addr \<Rightarrow> 'e"

definition allocateHeap :: "'e c_heap \<Rightarrow> 'e \<Rightarrow> u64 \<Rightarrow> 'e \<times> addr" where
  "allocateHeap h e v_Bytes = c_malloc h e v_Bytes"

definition deallocateHeap :: "'e c_heap \<Rightarrow> 'e \<Rightarrow> addr \<Rightarrow> 'e \<times> bool" where
  "deallocateHeap h e p_Memory = (if p_Memory = null then (e, False) else (c_free h e p_Memory, True))"

definition other_allocate :: "'e c_heap \<Rightarrow> 'e \<Rightarrow> u64 \<Rightarrow> 'e \<times> addr" where
  "other_allocate h e v_Bytes = c_malloc h e v_Bytes"

definition other_reserve :: "'e \<Rightarrow> u64 \<Rightarrow> 'e \<times> addr" where
  "other_reserve e v_Bytes = (e, null)"

definition other_reserveAt :: "'e \<Rightarrow> addr \<Rightarrow> u64 \<Rightarrow> 'e \<times> addr" where
  "other_reserveAt e p_Hint v_Bytes = (e, null)"

definition other_commit :: "'e \<Rightarrow> addr \<Rightarrow> u64 \<Rightarrow> u64 \<Rightarrow> 'e \<times> bool" where
  "other_commit e p_Base v_Bytes v_Offset = (e, False)"

definition other_decommit :: "'e \<Rightarrow> addr \<Rightarrow> u64 \<Rightarrow> u64 \<Rightarrow> 'e \<times> bool" where
  "other_decommit e p_Base v_Bytes v_Offset = (e, False)"

definition other_release :: "'e c_heap \<Rightarrow> 'e \<Rightarrow> addr \<Rightarrow> u64 \<Rightarrow> 'e \<times> bool" where
  "other_release h e p_Memory v_Bytes =
     (if p_Memory = null then (e, False) else (c_free h e p_Memory, True))"

definition other_queryPage :: "'e \<Rightarrow> addr \<Rightarrow> page_state" where
  "other_queryPage e p_Memory = PageUnknown"

section \<open>commitPageIfNeeded over any platform\<close>

text \<open>
  \<open>commitPageIfNeeded\<close> has no platform branch of its own; here it is over the two operations it calls.
\<close>

definition commit_page_via ::
  "('e \<Rightarrow> addr \<Rightarrow> page_state) \<Rightarrow> ('e \<Rightarrow> addr \<Rightarrow> u64 \<Rightarrow> u64 \<Rightarrow> 'e \<times> bool) \<Rightarrow> 'e \<Rightarrow> addr \<Rightarrow> ('e \<times> bool) option" where
  "commit_page_via query commit e p_Address =
     (if p_Address = null then Some (e, False)
      else
        (case query e p_Address of
           PageCommitted \<Rightarrow> Some (e, True)
         | PageReserved \<Rightarrow>
             let pageBase = p_Address AND NOT (PAGE_SIZE - 1)
             in Some (commit e pageBase PAGE_SIZE 0)
         | PageFree \<Rightarrow> None
         | PageUnknown \<Rightarrow> None))"

definition win_commitPageIfNeeded :: "'e win_api \<Rightarrow> 'e \<Rightarrow> addr \<Rightarrow> ('e \<times> bool) option" where
  "win_commitPageIfNeeded w = commit_page_via (win_queryPage w) (win_commit w)"

definition other_commitPageIfNeeded :: "'e \<Rightarrow> addr \<Rightarrow> ('e \<times> bool) option" where
  "other_commitPageIfNeeded = commit_page_via other_queryPage other_commit"

lemma commitPageIfNeeded_via:
  "commitPageIfNeeded os e p = commit_page_via (queryPage os) (mem_commit os) e p"
  by (simp add: commitPageIfNeeded_def commit_page_via_def)

locale page_backend =
  fixes query :: "'e \<Rightarrow> addr \<Rightarrow> page_state"
    and commit :: "'e \<Rightarrow> addr \<Rightarrow> u64 \<Rightarrow> u64 \<Rightarrow> 'e \<times> bool"
  assumes query_null: "query e null = PageUnknown"
    and commit_null: "commit e null n off = (e, False)"
    and commit_empty: "commit e p 0 off = (e, False)"
begin

text \<open>The first page is never committed: its base is the null pointer.\<close>

lemma first_page_refused:
  assumes "p AND NOT (PAGE_SIZE - 1) = null" and "query e p \<noteq> PageCommitted"
    and "commit_page_via query commit e p = Some (e', ok)"
  shows "e' = e \<and> \<not> ok"
  using assms by (auto simp: commit_page_via_def commit_null Let_def split: if_splits page_state.splits)

lemma answer:
  assumes "commit_page_via query commit e p = Some (e', ok)" and "p \<noteq> null"
  obtains (already) "query e p = PageCommitted" "e' = e" "ok"
  | (now) "query e p = PageReserved" "commit e (p AND NOT (PAGE_SIZE - 1)) PAGE_SIZE 0 = (e', ok)"
  using assms by (auto simp: commit_page_via_def Let_def split: if_splits page_state.splits)

text \<open>If a successful commit of a page makes the query answer \<open>PageCommitted\<close>, repeating it is a no-op.\<close>

lemma idempotent:
  assumes "\<And>e e'. commit e (p AND NOT (PAGE_SIZE - 1)) PAGE_SIZE 0 = (e', True) \<Longrightarrow> query e' p = PageCommitted"
    and "commit_page_via query commit e p = Some (e', True)"
  shows "commit_page_via query commit e' p = Some (e', True)"
proof -
  have p: "p \<noteq> null" using assms(2) by (auto simp: commit_page_via_def)
  from assms(2) p show ?thesis
  proof (cases rule: answer)
    case already
    then show ?thesis using assms(2) by simp
  next
    case now
    then show ?thesis using assms(1) p by (simp add: commit_page_via_def)
  qed
qed

end

interpretation linux_pages: page_backend "queryPage os" "mem_commit os" for os
  by unfold_locales (simp_all add: queryPage_def mem_commit_def)

interpretation win_pages: page_backend "win_queryPage w" "win_commit w" for w
  by unfold_locales (simp_all add: win_queryPage_def win_commit_def)

interpretation other_pages: page_backend other_queryPage other_commit
  by unfold_locales (simp_all add: other_queryPage_def other_commit_def)

section \<open>Properties\<close>

text \<open>
  The page operations of a literal size agree with the named constants, and \<open>alignToPage\<close> rounds with
  the page size the literal gives.
\<close>

lemma literals_agree:
  "lit_KB 1 = KILO_BYTE" "lit_MB 1 = MEGA_BYTE" "lit_GB 1 = GIGA_BYTE"
  "lit_KiB 1 = KIBI_BYTE" "lit_MiB 1 = MEBI_BYTE" "lit_GiB 1 = GIBI_BYTE" "lit_KiB 4 = PAGE_SIZE"
  by (simp_all add: lit_defs KILO_BYTE_def MEGA_BYTE_def GIGA_BYTE_def KIBI_BYTE_def MEBI_BYTE_def
      GIBI_BYTE_def PAGE_SIZE_def)

text \<open>
  C36: \<open>commitPageIfNeeded\<close> on the three platforms. On Windows, where \<open>VirtualAlloc(MEM_COMMIT)\<close> makes
  \<open>VirtualQuery\<close> report the page committed, a second call finds the page committed and changes
  nothing. On Linux \<open>mincore\<close> reports whether a page is resident; \<open>mprotect\<close> does not bring a page in, so
  as long as it is not resident each call makes the same \<open>mprotect\<close> call again. On any other platform
  every call with an address is undefined behaviour. In all three the null pointer is refused.
\<close>

theorem commit_page_on_platforms:
  fixes w :: "'w win_api" and os :: "'e os_api"
  assumes "\<And>e e' q. win_VirtualAlloc w e (p AND NOT (PAGE_SIZE - 1)) PAGE_SIZE MEM_COMMIT PAGE_READWRITE = (e', q)
      \<Longrightarrow> q \<noteq> null \<Longrightarrow> \<exists>st. win_VirtualQuery w e' p = Some st \<and> st AND MEM_COMMIT \<noteq> 0"
    and "\<And>e a. sys_pagesize os (fst (sys_mprotect os e a PAGE_SIZE PROT_RW)) = sys_pagesize os e
      \<and> sys_mincore os (fst (sys_mprotect os e a PAGE_SIZE PROT_RW)) = sys_mincore os e"
    and "p \<noteq> null"
  shows "(win_commitPageIfNeeded w we p = Some (we', True) \<longrightarrow> win_commitPageIfNeeded w we' p = Some (we', True))
    \<and> (queryPage os e p = PageReserved \<longrightarrow> commitPageIfNeeded os e p = Some (e', True)
        \<longrightarrow> commitPageIfNeeded os e' p = Some (sys_mprotect os e' (p AND NOT (PAGE_SIZE - 1)) PAGE_SIZE PROT_RW))
    \<and> other_commitPageIfNeeded oe p = None
    \<and> win_commitPageIfNeeded w we null = Some (we, False) \<and> commitPageIfNeeded os e null = Some (e, False)
    \<and> other_commitPageIfNeeded oe null = Some (oe, False)"
proof (intro conjI impI)
  show "win_commitPageIfNeeded w we' p = Some (we', True)" if "win_commitPageIfNeeded w we p = Some (we', True)"
    using that assms(1,3) unfolding win_commitPageIfNeeded_def
    by (intro win_pages.idempotent) (auto simp: win_commit_def win_queryPage_def split: if_splits prod.splits, fastforce)
next
  assume r: "queryPage os e p = PageReserved" and c: "commitPageIfNeeded os e p = Some (e', True)"
  let ?b = "p AND NOT (PAGE_SIZE - 1)"
  have b: "?b \<noteq> null" and e': "e' = fst (sys_mprotect os e ?b PAGE_SIZE PROT_RW)"
    using r c assms(3) by (auto simp: commitPageIfNeeded_def mem_commit_def Let_def split: if_splits)
  have "queryPage os e' p = PageReserved"
    using r unfolding e' queryPage_def assms(2) [THEN conjunct1] assms(2) [THEN conjunct2] .
  then show "commitPageIfNeeded os e' p = Some (sys_mprotect os e' ?b PAGE_SIZE PROT_RW)"
    using assms(3) b by (simp add: commitPageIfNeeded_def mem_commit_def PAGE_SIZE_def)
qed (use assms(3) in \<open>simp_all add: other_commitPageIfNeeded_def win_commitPageIfNeeded_def
  commit_page_via_def other_queryPage_def commitPageIfNeeded_def\<close>)

text \<open>An environment that keeps the committed pages, for both interfaces.\<close>

definition win_example :: "addr list win_api" where
  "win_example = \<lparr>
     win_VirtualAlloc = (\<lambda>e a n ty pr. if a = null then (e, null) else (a # e, a)),
     win_VirtualFree = (\<lambda>e a n ty. (e, True)),
     win_VirtualQuery = (\<lambda>e a. Some (if a AND NOT (PAGE_SIZE - 1) \<in> set e then MEM_COMMIT else MEM_RESERVE)),
     win_GetProcessHeap = (\<lambda>e. 1), win_HeapAlloc = (\<lambda>e h fl n. (e, null)),
     win_HeapFree = (\<lambda>e h fl p. (e, True))\<rparr>"

definition linux_example :: "addr list os_api" where
  "linux_example = \<lparr>sys_mmap = (\<lambda>e _ _ _. (e, None)),
     sys_mprotect = (\<lambda>e a _ _. (a # e, True)), sys_madvise_dontneed = (\<lambda>e _ _. (e, True)),
     sys_munmap = (\<lambda>e _ _. (e, True)), sys_mincore = (\<lambda>e _ _. Some 0), sys_pagesize = (\<lambda>e. 4096)\<rparr>"

theorem commit_page_on_platforms_witness:
  "win_commitPageIfNeeded win_example [] 8200 = Some ([8192], True)
    \<and> win_commitPageIfNeeded win_example [8192] 8200 = Some ([8192], True)
    \<and> commitPageIfNeeded linux_example [] 8200 = Some ([8192], True)
    \<and> commitPageIfNeeded linux_example [8192] 8200 = Some ([8192, 8192], True)"
proof -
  have w: "win_commitPageIfNeeded win_example [] 8200 = Some ([8192], True)"
    by (simp add: win_commitPageIfNeeded_def commit_page_via_def win_queryPage_def win_commit_def
        win_example_def win_const_defs PAGE_SIZE_def)
  have l: "queryPage linux_example [] 8200 = PageReserved"
    "commitPageIfNeeded linux_example [] 8200 = Some ([8192], True)"
    by (simp_all add: commitPageIfNeeded_def queryPage_def mem_commit_def linux_example_def PAGE_SIZE_def)
  have "\<exists>st. win_VirtualQuery win_example e' 8200 = Some st \<and> st AND MEM_COMMIT \<noteq> 0"
    if "win_VirtualAlloc win_example e (8200 AND NOT (PAGE_SIZE - 1)) PAGE_SIZE MEM_COMMIT PAGE_READWRITE = (e', q)"
      and "q \<noteq> null" for e e' q
    using that by (auto simp: win_example_def win_const_defs split: if_splits)
  moreover have "sys_pagesize linux_example (fst (sys_mprotect linux_example e a PAGE_SIZE PROT_RW))
        = sys_pagesize linux_example e
      \<and> sys_mincore linux_example (fst (sys_mprotect linux_example e a PAGE_SIZE PROT_RW))
        = sys_mincore linux_example e" for e a
    by (simp add: linux_example_def)
  ultimately show ?thesis
    using commit_page_on_platforms [where w = win_example and p = 8200 and os = linux_example and we = "[]"
        and we' = "[8192]" and e = "[]" and e' = "[8192]" and oe = "()"] w l
    by (simp add: linux_example_def PAGE_SIZE_def)
qed

end
