(* ===== verification/Kerbecs_RegistrySteps.thy ===== *)
theory Kerbecs_RegistrySteps
  imports Kerbecs_RegistryInv
begin

text \<open>
  The allocation registry among threads (\<open>src/Private/AllocationRegistry.cpp\<close>): any number of threads
  inside \<open>insert\<close>, inside the \<open>beginRetiring\<close> .. \<open>endRetiring\<close> pair of \<open>Region::destroy\<close>, and inside
  \<open>retire\<close>, interleaved in sequentially consistent order. \<open>reg_local\<close> is one step of one thread: one
  access to memory that other threads may change (a bucket's lock or head, the node cursor, a node's
  \<open>m_State\<close>, \<open>m_LiveCount\<close> or \<open>m_DtorLock\<close>, \<open>m_Count\<close>), together with the accesses to fields that do not
  change once a node is linked in (\<open>m_BlockBase\<close>, \<open>m_Next\<close>, \<open>m_Generation\<close>, \<open>m_ThreadID\<close>) or that belong
  to a node the thread has not linked in yet.

  The pc of a thread says where it is: \<open>PHead\<close> to \<open>PCountUp\<close> in \<open>insert\<close>, \<open>PWalk\<close> and \<open>PFound\<close> in \<open>find\<close>
  (\<open>find_for\<close> says who called it), \<open>PLocked\<close> to \<open>PRetiring\<close> in \<open>beginRetiring\<close>, \<open>PRun\<close> between the two calls
  of \<open>destroy\<close>, \<open>PLoaded\<close> to \<open>PEnqueue\<close> in \<open>endRetiring\<close>. A thread that waits for a bucket lock stays at
  \<open>PIdle\<close>. The statistics are left out. Not part of the program: \<open>sh_chain\<close>, the nodes of each bucket from its
  head; \<open>sh_objects\<close> and \<open>sh_destroyed\<close>, the objects a node was inserted with and the number of
  decrements of its \<open>m_LiveCount\<close>; \<open>sh_queued\<close>, the nodes given to the quarantine.
\<close>

record ins_args =
  ia_BlockBase :: addr
  ia_UserPtr :: addr
  ia_BlockSize :: u64
  ia_UserSize :: u64
  ia_AllocatorID :: u64
  ia_ThreadID :: u32
  ia_Name :: addr
  ia_ObjectCount :: u64

datatype find_for = ForDestroy u32 thread_policy | ForEnd nat | ForRetire

datatype reg_pc =
    PIdle
  | PHead ins_args
  | PScan ins_args "nat option" u64
  | PFill ins_args u64 nat
  | PLink ins_args nat
  | PCas ins_args nat "nat option"
  | PUnlock u64
  | PUnlockOk u64
  | PCountUp
  | PWalk find_for addr "nat option"
  | PFound find_for addr nat
  | PLocked addr nat
  | PUnlockD nat
  | PRetiring addr nat
  | PRun addr nat
  | PLoaded nat bool
  | PUnlockQ nat
  | PCountDown nat
  | PEnqueue nat

record reg_shared =
  sh_reg :: registry
  sh_chain :: "u64 \<Rightarrow> nat list"
  sh_objects :: "nat \<Rightarrow> u64"
  sh_destroyed :: "nat \<Rightarrow> nat"
  sh_queued :: "nat list"

definition nd :: "reg_shared \<Rightarrow> nat \<Rightarrow> node" where
  "nd s i = r_nodes (sh_reg s) ! i"

definition bk :: "reg_shared \<Rightarrow> u64 \<Rightarrow> bucket" where
  "bk s b = r_Buckets (sh_reg s) b"

definition put_node :: "reg_shared \<Rightarrow> nat \<Rightarrow> node \<Rightarrow> reg_shared" where
  "put_node s i n = s\<lparr>sh_reg := set_node (sh_reg s) i n\<rparr>"

definition put_bucket :: "reg_shared \<Rightarrow> u64 \<Rightarrow> bucket \<Rightarrow> reg_shared" where
  "put_bucket s b k = s\<lparr>sh_reg := set_bucket (sh_reg s) b k\<rparr>"

definition put_count :: "reg_shared \<Rightarrow> u64 \<Rightarrow> reg_shared" where
  "put_count s c = s\<lparr>sh_reg := (sh_reg s)\<lparr>r_Count := c\<rparr>\<rparr>"

definition filled_node :: "node \<Rightarrow> ins_args \<Rightarrow> u64 \<Rightarrow> node" where
  "filled_node n a g = n\<lparr>n_Generation := g, n_BlockBase := ia_BlockBase a, n_UserPtr := ia_UserPtr a,
     n_BlockSize := ia_BlockSize a, n_UserSize := ia_UserSize a, n_AllocatorID := ia_AllocatorID a,
     n_ThreadID := ia_ThreadID a, n_Name := ia_Name a, n_LiveCount := ia_ObjectCount a, n_State := SLive\<rparr>"

inductive reg_local :: "reg_shared \<Rightarrow> reg_pc \<Rightarrow> reg_shared \<Rightarrow> reg_pc \<Rightarrow> bool" where
  lock: "\<lbrakk>ia_BlockBase a \<noteq> null; ia_ObjectCount a \<noteq> 0; b = regIndex (ia_BlockBase a); \<not> b_Lock (bk s b)\<rbrakk>
    \<Longrightarrow> reg_local s PIdle (put_bucket s b ((bk s b)\<lparr>b_Lock := True\<rparr>)) (PHead a)"
| head: "reg_local s (PHead a) s (PScan a (b_Head (bk s (regIndex (ia_BlockBase a)))) 1)"
| scan_other: "n_BlockBase (nd s i) \<noteq> ia_BlockBase a
    \<Longrightarrow> reg_local s (PScan a (Some i) g) s (PScan a (n_Next (nd s i)) g)"
| scan_dup: "\<lbrakk>n_BlockBase (nd s i) = ia_BlockBase a; n_State (nd s i) \<noteq> SDead\<rbrakk>
    \<Longrightarrow> reg_local s (PScan a (Some i) g) s (PUnlock (regIndex (ia_BlockBase a)))"
| scan_dead: "\<lbrakk>n_BlockBase (nd s i) = ia_BlockBase a; n_State (nd s i) = SDead; prior = n_Generation (nd s i)\<rbrakk>
    \<Longrightarrow> reg_local s (PScan a (Some i) g) s (PScan a (n_Next (nd s i)) (if prior + 1 > g then prior + 1 else g))"
| pool_empty: "\<lbrakk>allocateNode (sh_reg s) = (r, None); unat (r_NodeCursor (sh_reg s)) < 18446744073709551615\<rbrakk>
    \<Longrightarrow> reg_local s (PScan a None g) (s\<lparr>sh_reg := r\<rparr>) (PUnlock (regIndex (ia_BlockBase a)))"
| pool_node: "allocateNode (sh_reg s) = (r, Some i)
    \<Longrightarrow> reg_local s (PScan a None g) (s\<lparr>sh_reg := r\<rparr>) (PFill a g i)"
| fill: "reg_local s (PFill a g i)
    ((put_node s i (filled_node (nd s i) a g))\<lparr>sh_objects := (sh_objects s)(i := ia_ObjectCount a)\<rparr>) (PLink a i)"
| link: "h = b_Head (bk s (regIndex (ia_BlockBase a)))
    \<Longrightarrow> reg_local s (PLink a i) (put_node s i ((nd s i)\<lparr>n_Next := h\<rparr>)) (PCas a i h)"
| cas: "\<lbrakk>b = regIndex (ia_BlockBase a); b_Head (bk s b) = h\<rbrakk>
    \<Longrightarrow> reg_local s (PCas a i h)
          ((put_bucket s b ((bk s b)\<lparr>b_Head := Some i\<rparr>))\<lparr>sh_chain := (sh_chain s)(b := i # sh_chain s b)\<rparr>) (PUnlockOk b)"
| cas_weak: "reg_local s (PCas a i h) s (PLink a i)"
| unlock_refused: "reg_local s (PUnlock b) (put_bucket s b ((bk s b)\<lparr>b_Lock := spin_unlock True\<rparr>)) PIdle"
| unlock_inserted: "reg_local s (PUnlockOk b) (put_bucket s b ((bk s b)\<lparr>b_Lock := spin_unlock True\<rparr>)) PCountUp"
| count_up: "reg_local s PCountUp (put_count s (r_Count (sh_reg s) + 1)) PIdle"
| destroy: "p \<noteq> null \<Longrightarrow> reg_local s PIdle s (PWalk (ForDestroy tid pol) p (b_Head (bk s (regIndex p))))"
| retire: "p \<noteq> null \<Longrightarrow> reg_local s PIdle s (PWalk ForRetire p (b_Head (bk s (regIndex p))))"
| walk_skip: "n_State (nd s i) = SDead \<or> n_State (nd s i) = SEmpty \<or> n_BlockBase (nd s i) \<noteq> p
    \<Longrightarrow> reg_local s (PWalk k p (Some i)) s (PWalk k p (n_Next (nd s i)))"
| walk_hit: "\<lbrakk>n_State (nd s i) \<noteq> SDead; n_State (nd s i) \<noteq> SEmpty; n_BlockBase (nd s i) = p\<rbrakk>
    \<Longrightarrow> reg_local s (PWalk k p (Some i)) s (PFound k p i)"
| walk_end: "reg_local s (PWalk k p None) s PIdle"
| foreign: "\<lbrakk>pol = Strict; tid \<noteq> n_ThreadID (nd s i)\<rbrakk>
    \<Longrightarrow> reg_local s (PFound (ForDestroy tid pol) p i) s PIdle"
| try_busy: "\<lbrakk>\<not> (pol = Strict \<and> tid \<noteq> n_ThreadID (nd s i)); spin_tryLock (n_DtorLock (nd s i)) = (f, False)\<rbrakk>
    \<Longrightarrow> reg_local s (PFound (ForDestroy tid pol) p i) (put_node s i ((nd s i)\<lparr>n_DtorLock := f\<rparr>)) PIdle"
| try_lock: "\<lbrakk>\<not> (pol = Strict \<and> tid \<noteq> n_ThreadID (nd s i)); spin_tryLock (n_DtorLock (nd s i)) = (f, True)\<rbrakk>
    \<Longrightarrow> reg_local s (PFound (ForDestroy tid pol) p i) (put_node s i ((nd s i)\<lparr>n_DtorLock := f\<rparr>)) (PLocked p i)"
| retiring: "n_State (nd s i) = SLive
    \<Longrightarrow> reg_local s (PLocked p i) (put_node s i ((nd s i)\<lparr>n_State := SRetiring\<rparr>)) (PRetiring p i)"
| not_live: "n_State (nd s i) \<noteq> SLive \<Longrightarrow> reg_local s (PLocked p i) s (PUnlockD i)"
| unlock_dtor: "reg_local s (PUnlockD i) (put_node s i ((nd s i)\<lparr>n_DtorLock := spin_unlock True\<rparr>)) PIdle"
| decrement: "reg_local s (PRetiring p i)
    ((put_node s i ((nd s i)\<lparr>n_LiveCount := n_LiveCount (nd s i) - 1\<rparr>))
       \<lparr>sh_destroyed := (sh_destroyed s)(i := Suc (sh_destroyed s i))\<rparr>) (PRun p i)"
| end_find: "reg_local s (PRun p i) s (PWalk (ForEnd i) p (b_Head (bk s (regIndex p))))"
| end_load: "reg_local s (PFound (ForEnd k) p i) s (PLoaded i (n_LiveCount (nd s i) > 0))"
| end_live: "n' = (if n_State (nd s i) = SRetiring then (nd s i)\<lparr>n_State := SLive\<rparr> else nd s i)
    \<Longrightarrow> reg_local s (PLoaded i True) (put_node s i n') (PUnlockD i)"
| end_final: "n_State (nd s i) = SRetiring
    \<Longrightarrow> reg_local s (PLoaded i False) (put_node s i ((nd s i)\<lparr>n_State := SQuarantine\<rparr>)) (PUnlockQ i)"
| end_lost: "n_State (nd s i) \<noteq> SRetiring \<Longrightarrow> reg_local s (PLoaded i False) s (PUnlockD i)"
| end_unlock: "reg_local s (PUnlockQ i) (put_node s i ((nd s i)\<lparr>n_DtorLock := spin_unlock True\<rparr>)) (PCountDown i)"
| count_down: "reg_local s (PCountDown i) (put_count s (r_Count (sh_reg s) - 1)) (PEnqueue i)"
| enqueue: "reg_local s (PEnqueue i) (s\<lparr>sh_queued := sh_queued s @ [i]\<rparr>) PIdle"
| retire_cas: "n' = (if n_State (nd s i) = SQuarantine then (nd s i)\<lparr>n_State := SDead\<rparr> else nd s i)
    \<Longrightarrow> reg_local s (PFound ForRetire p i) (put_node s i n') PIdle"

type_synonym reg_sys = "reg_shared \<times> (nat \<Rightarrow> reg_pc)"

inductive reg_step_among :: "reg_sys \<Rightarrow> reg_sys \<Rightarrow> bool" where
  step: "reg_local s (pcs t) s' p' \<Longrightarrow> reg_step_among (s, pcs) (s', pcs(t := p'))"

inductive_cases reg_step_amongE: "reg_step_among (s, pcs) y"

text \<open>A registry that \<open>init\<close> has just set up, and threads that are all outside of it.\<close>

definition reg_begin :: "registry \<Rightarrow> bool" where
  "reg_begin reg \<longleftrightarrow> unat (r_NodeCapacity reg) < 18446744073709551615 \<and> r_nodes reg = replicate (unat (r_NodeCapacity reg)) node_zero \<and> r_NodeCursor reg = 0
     \<and> (\<forall>b. r_Buckets reg b = bucket_zero)"

definition sys_start :: "registry \<Rightarrow> reg_sys" where
  "sys_start reg = (\<lparr>sh_reg = reg, sh_chain = (\<lambda>_. []), sh_objects = (\<lambda>_. 0), sh_destroyed = (\<lambda>_. 0),
     sh_queued = []\<rparr>, \<lambda>_. PIdle)"

section \<open>What the threads hold\<close>

text \<open>
  A thread holds the lock of a bucket, a node it has taken from the pool and not linked in, the
  \<open>m_DtorLock\<close> of a node, the right to end the retirement of a node, or the duty to enqueue one. The
  pc of a thread determines what it holds (\<open>claims\<close>), the shared state what must be held by some thread
  (\<open>needs\<close>), and the invariant is that the two agree and no two threads hold the same thing.
\<close>

datatype claim = CBucket u64 | CFresh nat | CDtor nat | CRet nat | CPend nat

fun claims :: "reg_pc \<Rightarrow> claim set" where
  "claims (PHead a) = {CBucket (regIndex (ia_BlockBase a))}"
| "claims (PScan a cur g) = {CBucket (regIndex (ia_BlockBase a))}"
| "claims (PFill a g i) = {CBucket (regIndex (ia_BlockBase a)), CFresh i}"
| "claims (PLink a i) = {CBucket (regIndex (ia_BlockBase a)), CFresh i}"
| "claims (PCas a i h) = {CBucket (regIndex (ia_BlockBase a)), CFresh i}"
| "claims (PUnlock b) = {CBucket b}"
| "claims (PUnlockOk b) = {CBucket b}"
| "claims (PWalk (ForEnd i) p cur) = {CDtor i, CRet i}"
| "claims (PFound (ForEnd k) p i) = {CDtor k, CRet k}"
| "claims (PLocked p i) = {CDtor i}"
| "claims (PUnlockD i) = {CDtor i}"
| "claims (PRetiring p i) = {CDtor i, CRet i}"
| "claims (PRun p i) = {CDtor i, CRet i}"
| "claims (PLoaded i b) = {CDtor i, CRet i}"
| "claims (PUnlockQ i) = {CDtor i, CPend i}"
| "claims (PCountDown i) = {CPend i}"
| "claims (PEnqueue i) = {CPend i}"
| "claims _ = {}"

definition published :: "reg_shared \<Rightarrow> nat \<Rightarrow> bool" where
  "published s i \<longleftrightarrow> (\<exists>b. i \<in> set (sh_chain s b))"

definition used :: "reg_shared \<Rightarrow> nat" where
  "used s = reg_used (sh_reg s)"

definition finished :: "reg_shared \<Rightarrow> nat \<Rightarrow> bool" where
  "finished s i \<longleftrightarrow> n_State (nd s i) = SQuarantine \<or> n_State (nd s i) = SDead"

fun needs :: "reg_shared \<Rightarrow> claim \<Rightarrow> bool" where
  "needs s (CBucket b) \<longleftrightarrow> b_Lock (bk s b)"
| "needs s (CFresh i) \<longleftrightarrow> i < used s \<and> \<not> published s i"
| "needs s (CDtor i) \<longleftrightarrow> i < used s \<and> n_DtorLock (nd s i)"
| "needs s (CRet i) \<longleftrightarrow> i < used s \<and> n_State (nd s i) = SRetiring"
| "needs s (CPend i) \<longleftrightarrow> i < used s \<and> finished s i \<and> i \<notin> set (sh_queued s)"

section \<open>The invariant\<close>

definition chain_node :: "reg_shared \<Rightarrow> u64 \<Rightarrow> nat \<Rightarrow> bool" where
  "chain_node s b i \<longleftrightarrow> i < used s \<and> n_BlockBase (nd s i) \<noteq> null \<and> regIndex (n_BlockBase (nd s i)) = b
     \<and> n_State (nd s i) \<noteq> SEmpty \<and> 1 \<le> n_Generation (nd s i) \<and> unat (n_Generation (nd s i)) \<le> Suc i
     \<and> (n_State (nd s i) = SLive \<longrightarrow> n_LiveCount (nd s i) \<noteq> 0) \<and> (finished s i \<longrightarrow> n_LiveCount (nd s i) = 0)
     \<and> unat (n_LiveCount (nd s i)) + sh_destroyed s i = unat (sh_objects s i)"

text \<open>Two nodes of one bucket with the same base: one of them is dead, and their generations differ.\<close>

definition apart :: "reg_shared \<Rightarrow> nat \<Rightarrow> nat \<Rightarrow> bool" where
  "apart s i j \<longleftrightarrow> n_BlockBase (nd s i) = n_BlockBase (nd s j) \<longrightarrow>
     (n_State (nd s i) = SDead \<or> n_State (nd s j) = SDead) \<and> n_Generation (nd s i) \<noteq> n_Generation (nd s j)"

definition shared_ok :: "reg_shared \<Rightarrow> bool" where
  "shared_ok s \<longleftrightarrow>
     length (r_nodes (sh_reg s)) = unat (r_NodeCapacity (sh_reg s))
     \<and> unat (r_NodeCapacity (sh_reg s)) < 18446744073709551615
     \<and> (\<forall>b. linked (r_nodes (sh_reg s)) (b_Head (bk s b)) (sh_chain s b) \<and> distinct (sh_chain s b))
     \<and> (\<forall>b. \<forall>i\<in>set (sh_chain s b). chain_node s b i)
     \<and> (\<forall>b. \<forall>i\<in>set (sh_chain s b). \<forall>j\<in>set (sh_chain s b). i \<noteq> j \<longrightarrow> apart s i j)
     \<and> (\<forall>i. used s \<le> i \<longrightarrow> i < length (r_nodes (sh_reg s)) \<longrightarrow> nd s i = node_zero \<and> sh_destroyed s i = 0)
     \<and> (\<forall>i < used s. \<not> published s i \<longrightarrow> \<not> n_DtorLock (nd s i) \<and> (n_State (nd s i) = SEmpty \<or> n_State (nd s i) = SLive))
     \<and> distinct (sh_queued s) \<and> (\<forall>i\<in>set (sh_queued s). published s i \<and> finished s i)"

text \<open>All linked nodes of a base are dead, with generations below \<open>g\<close>.\<close>

definition all_dead :: "reg_shared \<Rightarrow> nat list \<Rightarrow> addr \<Rightarrow> u64 \<Rightarrow> bool" where
  "all_dead s is p g \<longleftrightarrow>
     (\<forall>i\<in>set is. n_BlockBase (nd s i) = p \<longrightarrow> n_State (nd s i) = SDead \<and> n_Generation (nd s i) < g)"

definition at_base :: "reg_shared \<Rightarrow> addr \<Rightarrow> nat \<Rightarrow> bool" where
  "at_base s p i \<longleftrightarrow> i \<in> set (sh_chain s (regIndex p)) \<and> n_BlockBase (nd s i) = p"

definition args_ok :: "ins_args \<Rightarrow> bool" where
  "args_ok a \<longleftrightarrow> ia_BlockBase a \<noteq> null \<and> ia_ObjectCount a \<noteq> 0"

text \<open>The node of an insertion before it is linked in.\<close>

definition new_node_ok :: "reg_shared \<Rightarrow> ins_args \<Rightarrow> nat \<Rightarrow> bool" where
  "new_node_ok s a i \<longleftrightarrow> args_ok a
     \<and> n_BlockBase (nd s i) = ia_BlockBase a \<and> n_State (nd s i) = SLive \<and> n_LiveCount (nd s i) = ia_ObjectCount a
     \<and> 1 \<le> n_Generation (nd s i) \<and> unat (n_Generation (nd s i)) \<le> Suc i
     \<and> sh_objects s i = ia_ObjectCount a \<and> sh_destroyed s i = 0
     \<and> all_dead s (sh_chain s (regIndex (ia_BlockBase a))) (ia_BlockBase a) (n_Generation (nd s i))"

text \<open>A search that has come to \<open>cur\<close>: the rest of its way is the rest of the bucket's chain.\<close>

definition on_way :: "reg_shared \<Rightarrow> addr \<Rightarrow> nat option \<Rightarrow> nat list \<Rightarrow> nat list \<Rightarrow> bool" where
  "on_way s p cur xs ys \<longleftrightarrow> sh_chain s (regIndex p) = xs @ ys \<and> linked (r_nodes (sh_reg s)) cur ys"

fun pc_ok :: "reg_shared \<Rightarrow> reg_pc \<Rightarrow> bool" where
  "pc_ok s (PHead a) \<longleftrightarrow> args_ok a"
| "pc_ok s (PScan a cur g) \<longleftrightarrow> args_ok a \<and> 1 \<le> g \<and> unat g \<le> Suc (used s)
     \<and> (\<exists>xs ys. on_way s (ia_BlockBase a) cur xs ys \<and> all_dead s xs (ia_BlockBase a) g)"
| "pc_ok s (PFill a g i) \<longleftrightarrow> args_ok a \<and> 1 \<le> g \<and> unat g \<le> Suc i \<and> nd s i = node_zero \<and> sh_destroyed s i = 0
     \<and> all_dead s (sh_chain s (regIndex (ia_BlockBase a))) (ia_BlockBase a) g"
| "pc_ok s (PLink a i) \<longleftrightarrow> new_node_ok s a i"
| "pc_ok s (PCas a i h) \<longleftrightarrow> new_node_ok s a i \<and> n_Next (nd s i) = h"
| "pc_ok s (PWalk k p cur) \<longleftrightarrow> (\<exists>xs ys. on_way s p cur xs ys \<and> (case k of ForEnd i \<Rightarrow> i \<in> set ys \<and> at_base s p i | _ \<Rightarrow> True))"
| "pc_ok s (PFound k p i) \<longleftrightarrow> at_base s p i \<and> (case k of ForEnd j \<Rightarrow> j = i | _ \<Rightarrow> True)"
| "pc_ok s (PLocked p i) \<longleftrightarrow> at_base s p i"
| "pc_ok s (PUnlockD i) \<longleftrightarrow> published s i"
| "pc_ok s (PRetiring p i) \<longleftrightarrow> at_base s p i \<and> n_LiveCount (nd s i) \<noteq> 0"
| "pc_ok s (PRun p i) \<longleftrightarrow> at_base s p i"
| "pc_ok s (PLoaded i b) \<longleftrightarrow> published s i \<and> (b \<longleftrightarrow> n_LiveCount (nd s i) \<noteq> 0)"
| "pc_ok s (PUnlockQ i) \<longleftrightarrow> published s i"
| "pc_ok s (PCountDown i) \<longleftrightarrow> published s i"
| "pc_ok s (PEnqueue i) \<longleftrightarrow> published s i"
| "pc_ok s _ \<longleftrightarrow> True"

definition reg_sys_inv :: "reg_sys \<Rightarrow> bool" where
  "reg_sys_inv y \<longleftrightarrow> shared_ok (fst y) \<and> (\<forall>t. pc_ok (fst y) (snd y t))
     \<and> (\<forall>c. needs (fst y) c \<longleftrightarrow> (\<exists>t. c \<in> claims (snd y t)))
     \<and> (\<forall>t u c. c \<in> claims (snd y t) \<longrightarrow> c \<in> claims (snd y u) \<longrightarrow> t = u)"

lemma shared_okD:
  assumes "shared_ok s"
  shows "length (r_nodes (sh_reg s)) = unat (r_NodeCapacity (sh_reg s))"
    and "unat (r_NodeCapacity (sh_reg s)) < 18446744073709551615"
    and "linked (r_nodes (sh_reg s)) (b_Head (bk s b)) (sh_chain s b)" and "distinct (sh_chain s b)"
    and "i \<in> set (sh_chain s b) \<Longrightarrow> chain_node s b i"
    and "\<lbrakk>i \<in> set (sh_chain s b); j \<in> set (sh_chain s b); i \<noteq> j\<rbrakk> \<Longrightarrow> apart s i j"
    and "\<lbrakk>used s \<le> i; i < length (r_nodes (sh_reg s))\<rbrakk> \<Longrightarrow> nd s i = node_zero \<and> sh_destroyed s i = 0"
    and "\<lbrakk>i < used s; \<not> published s i\<rbrakk> \<Longrightarrow>
        \<not> n_DtorLock (nd s i) \<and> (n_State (nd s i) = SEmpty \<or> n_State (nd s i) = SLive)"
    and "distinct (sh_queued s)" and "i \<in> set (sh_queued s) \<Longrightarrow> published s i \<and> finished s i"
  using assms by (auto simp: shared_ok_def)

lemma used_le: "shared_ok s \<Longrightarrow> used s \<le> length (r_nodes (sh_reg s))"
  by (simp add: used_def reg_used_def shared_okD(1))

lemma publishedE:
  assumes "shared_ok s" and "published s i"
  shows "i \<in> set (sh_chain s (regIndex (n_BlockBase (nd s i))))"
    and "chain_node s (regIndex (n_BlockBase (nd s i))) i" and "i < used s"
proof -
  obtain b where b: "i \<in> set (sh_chain s b)" using assms(2) by (auto simp: published_def)
  have c: "chain_node s b i" by (rule shared_okD(5) [OF assms(1) b])
  then have "regIndex (n_BlockBase (nd s i)) = b" by (simp add: chain_node_def)
  with b c show "i \<in> set (sh_chain s (regIndex (n_BlockBase (nd s i))))"
    and "chain_node s (regIndex (n_BlockBase (nd s i))) i" by simp_all
  show "i < used s" using c by (simp add: chain_node_def)
qed

lemma at_base_published: "at_base s p i \<Longrightarrow> published s i"
  by (auto simp: at_base_def published_def)

lemma published_at_base: "shared_ok s \<Longrightarrow> published s i \<Longrightarrow> at_base s (n_BlockBase (nd s i)) i"
  using publishedE(1) by (simp add: at_base_def)

lemma at_base_chain: "shared_ok s \<Longrightarrow> at_base s p i \<Longrightarrow> chain_node s (regIndex p) i"
  by (simp add: at_base_def shared_okD(5))

lemma linked_cong:
  assumes "\<And>i. i \<in> set is \<Longrightarrow> n_Next (ns' ! i) = n_Next (ns ! i)" and "length ns' = length ns"
  shows "linked ns' h is = linked ns h is"
  using assms by (induction "is" arbitrary: h) auto

section \<open>What a step leaves alone\<close>

text \<open>A step by a thread that holds \<open>C\<close>, before or after it.\<close>

definition guar :: "claim set \<Rightarrow> reg_shared \<Rightarrow> reg_shared \<Rightarrow> bool" where
  "guar C s s' \<longleftrightarrow>
     length (r_nodes (sh_reg s')) = length (r_nodes (sh_reg s)) \<and> used s \<le> used s'
     \<and> (\<forall>b. \<exists>zs. sh_chain s' b = zs @ sh_chain s b \<and> (zs \<noteq> [] \<longrightarrow> CBucket b \<in> C))
     \<and> (\<forall>i. published s i \<longrightarrow> n_BlockBase (nd s' i) = n_BlockBase (nd s i) \<and> n_Next (nd s' i) = n_Next (nd s i)
          \<and> n_Generation (nd s' i) = n_Generation (nd s i)
          \<and> (n_State (nd s i) = SDead \<longrightarrow> n_State (nd s' i) = SDead)
          \<and> (CDtor i \<notin> C \<longrightarrow> n_LiveCount (nd s' i) = n_LiveCount (nd s i)))
     \<and> (\<forall>i < used s. \<not> published s i \<longrightarrow> CFresh i \<notin> C \<longrightarrow>
          nd s' i = nd s i \<and> sh_objects s' i = sh_objects s i \<and> sh_destroyed s' i = sh_destroyed s i)"

lemma guarD:
  assumes "guar C s s'"
  shows "length (r_nodes (sh_reg s')) = length (r_nodes (sh_reg s))" and "used s \<le> used s'"
    and "\<exists>zs. sh_chain s' b = zs @ sh_chain s b"
    and "CBucket b \<notin> C \<Longrightarrow> sh_chain s' b = sh_chain s b"
    and "published s i \<Longrightarrow> n_BlockBase (nd s' i) = n_BlockBase (nd s i)"
    and "published s i \<Longrightarrow> n_Next (nd s' i) = n_Next (nd s i)"
    and "published s i \<Longrightarrow> n_Generation (nd s' i) = n_Generation (nd s i)"
    and "published s i \<Longrightarrow> n_State (nd s i) = SDead \<Longrightarrow> n_State (nd s' i) = SDead"
    and "published s i \<Longrightarrow> CDtor i \<notin> C \<Longrightarrow> n_LiveCount (nd s' i) = n_LiveCount (nd s i)"
    and "\<lbrakk>i < used s; \<not> published s i; CFresh i \<notin> C\<rbrakk> \<Longrightarrow>
      nd s' i = nd s i \<and> sh_objects s' i = sh_objects s i \<and> sh_destroyed s' i = sh_destroyed s i"
  using assms unfolding guar_def by (blast, blast, blast, metis append_Nil, blast+)

lemma guar_published: "guar C s s' \<Longrightarrow> published s i \<Longrightarrow> published s' i"
  by (metis guarD(3) published_def set_append UnI2)

lemma guar_at_base: "guar C s s' \<Longrightarrow> at_base s p i \<Longrightarrow> at_base s' p i"
  by (metis at_base_def at_base_published guarD(3,5) set_append UnI2)

lemma publishedI: "i \<in> set (sh_chain s b) \<Longrightarrow> published s i"
  by (auto simp: published_def)

lemma on_way_published:
  assumes "on_way s p cur xs ys"
  shows "i \<in> set xs \<Longrightarrow> published s i" and "i \<in> set ys \<Longrightarrow> published s i"
  using assms publishedI [of i s "regIndex p"] by (auto simp: on_way_def)

lemma guar_on_way:
  assumes "guar C s s'" and "on_way s p cur xs ys"
  shows "\<exists>zs. on_way s' p cur (zs @ xs) ys" and "CBucket (regIndex p) \<notin> C \<Longrightarrow> on_way s' p cur xs ys"
proof -
  have "published s i" if "i \<in> set ys" for i using assms(2) that by (rule on_way_published)
  then have l: "linked (r_nodes (sh_reg s')) cur ys"
    using linked_cong [of ys "r_nodes (sh_reg s')" "r_nodes (sh_reg s)" cur] guarD(1,6) [OF assms(1)] assms(2)
    by (auto simp: on_way_def nd_def)
  obtain zs where "sh_chain s' (regIndex p) = zs @ sh_chain s (regIndex p)" using guarD(3) [OF assms(1)] by blast
  with l assms(2) show "\<exists>zs. on_way s' p cur (zs @ xs) ys" by (auto simp: on_way_def)
  show "CBucket (regIndex p) \<notin> C \<Longrightarrow> on_way s' p cur xs ys"
    using l assms(2) guarD(4) [OF assms(1)] by (simp add: on_way_def)
qed

lemma guar_all_dead:
  assumes "guar C s s'" and "\<And>i. i \<in> set xs \<Longrightarrow> published s i" and "all_dead s xs p g"
  shows "all_dead s' xs p g"
  using assms guarD(5,7,8) [OF assms(1)] by (simp add: all_dead_def)

lemma guar_new_node:
  assumes "guar C s s'" and "new_node_ok s a i" and "i < used s" and "\<not> published s i"
    and "CFresh i \<notin> C" and "CBucket (regIndex (ia_BlockBase a)) \<notin> C"
  shows "new_node_ok s' a i"
proof -
  have "nd s' i = nd s i \<and> sh_objects s' i = sh_objects s i \<and> sh_destroyed s' i = sh_destroyed s i"
    by (rule guarD(10) [OF assms(1,3,4,5)])
  moreover have "sh_chain s' (regIndex (ia_BlockBase a)) = sh_chain s (regIndex (ia_BlockBase a))"
    by (rule guarD(4) [OF assms(1,6)])
  ultimately show ?thesis
    using assms(2) guar_all_dead [OF assms(1), of "sh_chain s (regIndex (ia_BlockBase a))"]
    by (auto simp: new_node_ok_def published_def)
qed

text \<open>So a step of one thread does not disturb another.\<close>

lemma pc_ok_stable:
  assumes g: "guar C s s'" and ok: "pc_ok s p" and held: "\<forall>c\<in>claims p. needs s c" and dis: "claims p \<inter> C = {}"
  shows "pc_ok s' p"
proof (cases p)
  case (PScan a cur gg)
  then obtain xs ys where w: "on_way s (ia_BlockBase a) cur xs ys" "all_dead s xs (ia_BlockBase a) gg"
    using ok by auto
  have "on_way s' (ia_BlockBase a) cur xs ys" using guar_on_way(2) [OF g w(1)] dis PScan by auto
  moreover have "all_dead s' xs (ia_BlockBase a) gg"
    using w on_way_published(1) [OF w(1)] by (intro guar_all_dead [OF g]) auto
  ultimately show ?thesis using ok PScan guarD(2) [OF g] by (auto intro: order_trans)
next
  case (PFill a gg i)
  have "nd s' i = nd s i \<and> sh_destroyed s' i = sh_destroyed s i"
    using guarD(10) [OF g, of i] held dis PFill by auto
  moreover have "sh_chain s' (regIndex (ia_BlockBase a)) = sh_chain s (regIndex (ia_BlockBase a))"
    using guarD(4) [OF g] dis PFill by auto
  ultimately show ?thesis
    using ok PFill guar_all_dead [OF g, of "sh_chain s (regIndex (ia_BlockBase a))"] by (auto simp: published_def)
next
  case (PLink a i)
  then show ?thesis using guar_new_node [OF g] ok held dis by auto
next
  case (PCas a i h)
  then show ?thesis using guar_new_node [OF g, of a i] guarD(10) [OF g, of i] ok held dis by auto
next
  case (PWalk k p cur)
  then obtain xs ys where w: "on_way s p cur xs ys" "case k of ForEnd i \<Rightarrow> i \<in> set ys \<and> at_base s p i | _ \<Rightarrow> True"
    using ok by auto
  obtain zs where "on_way s' p cur (zs @ xs) ys" using guar_on_way(1) [OF g w(1)] by blast
  moreover have "case k of ForEnd i \<Rightarrow> i \<in> set ys \<and> at_base s' p i | _ \<Rightarrow> True"
    using w(2) guar_at_base [OF g] by (auto split: find_for.splits)
  ultimately show ?thesis using PWalk by auto
next
  case (PRetiring p i)
  then show ?thesis
    using ok dis guar_at_base [OF g] guarD(9) [OF g, of i] at_base_published by auto
next
  case (PLoaded i b)
  then show ?thesis using ok dis guar_published [OF g] guarD(9) [OF g, of i] by auto
qed (use ok guar_at_base [OF g] guar_published [OF g] in \<open>auto split: find_for.splits\<close>)

section \<open>What a step must establish\<close>

definition step_good :: "reg_shared \<Rightarrow> reg_pc \<Rightarrow> reg_shared \<Rightarrow> reg_pc \<Rightarrow> bool" where
  "step_good s p s' p' \<longleftrightarrow> shared_ok s' \<and> pc_ok s' p' \<and> guar (claims p \<union> claims p') s s'
     \<and> (\<forall>c. needs s' c \<longleftrightarrow> c \<in> claims p' \<or> needs s c \<and> c \<notin> claims p)
     \<and> (\<forall>c\<in>claims p' - claims p. \<not> needs s c)"

lemma guar_refl: "guar C s s"
  by (simp add: guar_def)

lemma good_stay:
  assumes "shared_ok s" and "pc_ok s p'" and "claims p' = claims p" and "\<forall>c\<in>claims p. needs s c"
  shows "step_good s p s p'"
  using assms by (auto simp: step_good_def guar_refl)

lemma step_good_inv:
  assumes inv: "reg_sys_inv (s, pcs)" and good: "step_good s (pcs t) s' p'"
  shows "reg_sys_inv (s', pcs(t := p'))"
proof -
  let ?p = "pcs t"
  have ok: "pc_ok s (pcs u)" and need: "needs s c \<longleftrightarrow> (\<exists>u. c \<in> claims (pcs u))"
    and dis: "c \<in> claims (pcs u) \<Longrightarrow> c \<in> claims (pcs v) \<Longrightarrow> u = v" for u v c
    using inv unfolding reg_sys_inv_def by simp_all
  have sh: "shared_ok s'" and pc: "pc_ok s' p'" and g: "guar (claims ?p \<union> claims p') s s'"
    and need': "needs s' c \<longleftrightarrow> c \<in> claims p' \<or> needs s c \<and> c \<notin> claims ?p"
    and fresh: "c \<in> claims p' \<Longrightarrow> c \<notin> claims ?p \<Longrightarrow> \<not> needs s c" for c
    using good by (auto simp: step_good_def)
  have other: "c \<notin> claims p'" if "u \<noteq> t" "c \<in> claims (pcs u)" for u c
    using that dis [of c u t] fresh [of c] need [of c] by blast
  have stable: "pc_ok s' (pcs u)" if "u \<noteq> t" for u
  proof (rule pc_ok_stable [OF g ok])
    show "\<forall>c\<in>claims (pcs u). needs s c" using need by blast
    show "claims (pcs u) \<inter> (claims ?p \<union> claims p') = {}" using other [OF that] dis that by blast
  qed
  have own: "needs s' c \<longleftrightarrow> (\<exists>u. c \<in> claims ((pcs(t := p')) u))" for c
  proof
    assume "needs s' c"
    then consider "c \<in> claims p'" | u where "c \<in> claims (pcs u)" "u \<noteq> t" using need' need by blast
    then show "\<exists>u. c \<in> claims ((pcs(t := p')) u)" by cases (metis fun_upd_apply)+
  next
    assume "\<exists>u. c \<in> claims ((pcs(t := p')) u)"
    then consider "c \<in> claims p'" | u where "c \<in> claims (pcs u)" "u \<noteq> t" by (auto split: if_splits)
    then show "needs s' c" using need' need dis by cases blast+
  qed
  have single: "u = v" if "c \<in> claims ((pcs(t := p')) u)" "c \<in> claims ((pcs(t := p')) v)" for u v c
    using that other [of u c] other [of v c] dis [of c u v] by (cases "u = t"; cases "v = t") simp_all
  show ?thesis
    unfolding reg_sys_inv_def fst_conv snd_conv
  proof (intro conjI allI impI)
    show "pc_ok s' ((pcs(t := p')) u)" for u using stable [of u] pc by simp
  qed (rule sh, rule own, rule single)
qed

section \<open>Steps that change the state or the lock of a node\<close>

lemma put_node_simps [simp]:
  "used (put_node s i n) = used s" "bk (put_node s i n) = bk s"
  "sh_chain (put_node s i n) = sh_chain s" "sh_objects (put_node s i n) = sh_objects s"
  "sh_destroyed (put_node s i n) = sh_destroyed s" "sh_queued (put_node s i n) = sh_queued s"
  "published (put_node s i n) = published s"
  "length (r_nodes (sh_reg (put_node s i n))) = length (r_nodes (sh_reg s))"
  "r_NodeCapacity (sh_reg (put_node s i n)) = r_NodeCapacity (sh_reg s)"
  by (auto simp: put_node_def used_def bk_def set_node_def published_def fun_eq_iff)

lemma ghost_simps [simp]:
  "used (s\<lparr>sh_destroyed := d\<rparr>) = used s" "bk (s\<lparr>sh_destroyed := d\<rparr>) = bk s"
  "published (s\<lparr>sh_destroyed := d\<rparr>) = published s" "nd (s\<lparr>sh_destroyed := d\<rparr>) = nd s"
  "used (s\<lparr>sh_objects := ob\<rparr>) = used s" "bk (s\<lparr>sh_objects := ob\<rparr>) = bk s"
  "published (s\<lparr>sh_objects := ob\<rparr>) = published s" "nd (s\<lparr>sh_objects := ob\<rparr>) = nd s"
  "used (s\<lparr>sh_queued := qs\<rparr>) = used s" "bk (s\<lparr>sh_queued := qs\<rparr>) = bk s"
  "published (s\<lparr>sh_queued := qs\<rparr>) = published s" "nd (s\<lparr>sh_queued := qs\<rparr>) = nd s"
  by (auto simp: used_def bk_def published_def nd_def fun_eq_iff)

lemma nd_put_node: "i < length (r_nodes (sh_reg s)) \<Longrightarrow> nd (put_node s i n) j = (if j = i then n else nd s j)"
  by (simp add: nd_def put_node_def set_node_def)

lemma node_change:
  assumes ok: "shared_ok s" and pub: "published s i"
    and same: "n_BlockBase n = n_BlockBase (nd s i)" "n_Next n = n_Next (nd s i)"
      "n_Generation n = n_Generation (nd s i)"
    and st: "n_State n \<noteq> SEmpty" "n_State (nd s i) = SDead \<longrightarrow> n_State n = SDead"
      "finished s i \<longrightarrow> n_State n = SQuarantine \<or> n_State n = SDead"
    and live: "n_State n = SLive \<longrightarrow> n_LiveCount n \<noteq> 0"
      "n_State n = SQuarantine \<or> n_State n = SDead \<longrightarrow> n_LiveCount n = 0"
    and sum: "unat (n_LiveCount n) + d = unat (sh_objects s i)"
    and s': "s' = (put_node s i n)\<lparr>sh_destroyed := (sh_destroyed s)(i := d)\<rparr>"
    and C: "n_LiveCount n = n_LiveCount (nd s i) \<or> CDtor i \<in> C"
  shows "shared_ok s'" and "guar C s s'"
    and "needs s' c = (case c of CDtor j \<Rightarrow> (if j = i then n_DtorLock n else needs s c)
       | CRet j \<Rightarrow> (if j = i then n_State n = SRetiring else needs s c)
       | CPend j \<Rightarrow> (if j = i then (n_State n = SQuarantine \<or> n_State n = SDead) \<and> i \<notin> set (sh_queued s) else needs s c)
       | _ \<Rightarrow> needs s c)"
proof -
  have iu: "i < used s" and il: "i < length (r_nodes (sh_reg s))"
    using publishedE(3) [OF ok pub] used_le [OF ok] by simp_all
  have nd': "nd s' j = (if j = i then n else nd s j)" for j using il by (simp add: s' nd_put_node)
  have sim: "used s' = used s" "bk s' = bk s" "sh_chain s' = sh_chain s" "published s' = published s"
    "sh_queued s' = sh_queued s" "sh_objects s' = sh_objects s" "sh_destroyed s' = (sh_destroyed s)(i := d)"
    "length (r_nodes (sh_reg s')) = length (r_nodes (sh_reg s))"
    "r_NodeCapacity (sh_reg s') = r_NodeCapacity (sh_reg s)"
    by (simp_all add: s')
  have "linked (r_nodes (sh_reg s')) h is = linked (r_nodes (sh_reg s)) h is" for h "is"
    by (rule linked_cong) (use nd' same in \<open>auto simp: nd_def [symmetric] sim\<close>)
  moreover have "chain_node s' b j" if "j \<in> set (sh_chain s b)" for j b
    using shared_okD(5) [OF ok that] same st live sum
    by (auto simp: chain_node_def nd' sim finished_def)
  moreover have "apart s' j k" if "j \<in> set (sh_chain s b)" "k \<in> set (sh_chain s b)" "j \<noteq> k" for j k b
    using shared_okD(6) [OF ok that] same st by (auto simp: apart_def nd')
  moreover have "published s j \<and> finished s' j" if "j \<in> set (sh_queued s)" for j
    using shared_okD(10) [OF ok that] st(3) by (auto simp: finished_def nd')
  ultimately show "shared_ok s'"
    using ok iu pub unfolding shared_ok_def by (auto simp: sim nd')
  show "guar C s s'" using same st C pub by (auto simp: guar_def sim nd')
  show "needs s' c = (case c of CDtor j \<Rightarrow> (if j = i then n_DtorLock n else needs s c)
       | CRet j \<Rightarrow> (if j = i then n_State n = SRetiring else needs s c)
       | CPend j \<Rightarrow> (if j = i then (n_State n = SQuarantine \<or> n_State n = SDead) \<and> i \<notin> set (sh_queued s) else needs s c)
       | _ \<Rightarrow> needs s c)"
    using iu by (cases c) (auto simp: sim nd' finished_def)
qed

lemma put_node_ghost: "put_node s i n = (put_node s i n)\<lparr>sh_destroyed := (sh_destroyed s)(i := sh_destroyed s i)\<rparr>"
  by (simp add: put_node_def)

lemmas node_change0 = node_change [OF _ _ _ _ _ _ _ _ _ _ _ put_node_ghost]

lemma held_node:
  assumes "shared_ok s" and "published s i"
  shows "i < used s" and "n_State (nd s i) \<noteq> SEmpty" and "n_State (nd s i) = SLive \<longrightarrow> n_LiveCount (nd s i) \<noteq> 0"
    and "finished s i \<longrightarrow> n_LiveCount (nd s i) = 0"
    and "unat (n_LiveCount (nd s i)) + sh_destroyed s i = unat (sh_objects s i)"
  using publishedE(2,3) [OF assms] by (simp_all add: chain_node_def)

text \<open>Changing only the lock or the state of a linked node.\<close>

fun node_needs :: "reg_shared \<Rightarrow> nat \<Rightarrow> alloc_state \<Rightarrow> bool \<Rightarrow> claim \<Rightarrow> bool" where
  "node_needs s i st l (CDtor j) \<longleftrightarrow> (if j = i then l else needs s (CDtor j))"
| "node_needs s i st l (CRet j) \<longleftrightarrow> (if j = i then st = SRetiring else needs s (CRet j))"
| "node_needs s i st l (CPend j) \<longleftrightarrow>
     (if j = i then (st = SQuarantine \<or> st = SDead) \<and> i \<notin> set (sh_queued s) else needs s (CPend j))"
| "node_needs s i st l c \<longleftrightarrow> needs s c"

lemma good_node:
  assumes ok: "shared_ok s" and pub: "published s i"
    and n: "n = (nd s i)\<lparr>n_State := st, n_DtorLock := l\<rparr>"
    and st: "st \<noteq> SEmpty" "n_State (nd s i) = SDead \<longrightarrow> st = SDead"
      "finished s i \<longrightarrow> st = SQuarantine \<or> st = SDead"
      "st = SLive \<longrightarrow> n_LiveCount (nd s i) \<noteq> 0"
      "st = SQuarantine \<or> st = SDead \<longrightarrow> n_LiveCount (nd s i) = 0"
    and pc: "pc_ok (put_node s i n) p'"
    and now: "\<And>c. node_needs s i st l c \<longleftrightarrow> c \<in> claims p' \<or> needs s c \<and> c \<notin> claims p"
    and fresh: "\<And>c. c \<in> claims p' \<Longrightarrow> c \<notin> claims p \<Longrightarrow> \<not> needs s c"
  shows "step_good s p (put_node s i n) p'"
proof -
  have a: "n_BlockBase n = n_BlockBase (nd s i)" "n_Next n = n_Next (nd s i)"
    "n_Generation n = n_Generation (nd s i)" "n_State n = st" "n_DtorLock n = l" "n_LiveCount n = n_LiveCount (nd s i)"
    by (simp_all add: n)
  note ch = node_change0 [OF ok pub, of n]
  note pre = st held_node(5) [OF ok pub]
  have "needs (put_node s i n) c = node_needs s i st l c" for c
    by (subst ch(3)) (use pre in \<open>simp_all add: a split: claim.split\<close>)
  moreover have "shared_ok (put_node s i n)" by (rule ch(1)) (use pre in \<open>simp_all add: a\<close>)
  moreover have "guar (claims p \<union> claims p') s (put_node s i n)" by (rule ch(2)) (use pre in \<open>simp_all add: a\<close>)
  ultimately show ?thesis unfolding step_good_def using pc now fresh by auto
qed

section \<open>Steps on a bucket, the cursor and the count\<close>

lemma bucket_change:
  assumes ok: "shared_ok s" and s': "s' = put_bucket s b ((bk s b)\<lparr>b_Lock := f\<rparr>)"
  shows "shared_ok s'" and "guar C s s'"
    and "needs s' c = (case c of CBucket b' \<Rightarrow> (if b' = b then f else needs s c) | _ \<Rightarrow> needs s c)"
proof -
  have sim: "used s' = used s" "nd s' = nd s" "sh_chain s' = sh_chain s" "published s' = published s"
    "sh_queued s' = sh_queued s" "sh_objects s' = sh_objects s" "sh_destroyed s' = sh_destroyed s"
    "r_nodes (sh_reg s') = r_nodes (sh_reg s)" "r_NodeCapacity (sh_reg s') = r_NodeCapacity (sh_reg s)"
    "b_Head (bk s' x) = b_Head (bk s x)" "b_Lock (bk s' x) = (if x = b then f else b_Lock (bk s x))" for x
    by (auto simp: s' put_bucket_def set_bucket_def used_def reg_used_def nd_def published_def bk_def fun_eq_iff)
  have fin: "finished s' = finished s" and chn: "chain_node s' = chain_node s" and ap: "apart s' = apart s"
    by (auto simp: fun_eq_iff finished_def chain_node_def apart_def sim)
  show "shared_ok s'" using ok by (simp add: shared_ok_def sim fin chn ap)
  show "guar C s s'" by (simp add: guar_def sim)
  show "needs s' c = (case c of CBucket b' \<Rightarrow> (if b' = b then f else needs s c) | _ \<Rightarrow> needs s c)"
    by (cases c) (simp_all add: sim fin)
qed

lemma count_change:
  assumes ok: "shared_ok s" and s': "s' = put_count s x"
  shows "shared_ok s'" and "guar C s s'" and "needs s' c = needs s c" and "published s' i = published s i"
proof -
  have sim: "used s' = used s" "nd s' = nd s" "sh_chain s' = sh_chain s" "published s' = published s"
    "sh_queued s' = sh_queued s" "sh_objects s' = sh_objects s" "sh_destroyed s' = sh_destroyed s"
    "r_nodes (sh_reg s') = r_nodes (sh_reg s)" "r_NodeCapacity (sh_reg s') = r_NodeCapacity (sh_reg s)" "bk s' = bk s"
    by (auto simp: s' put_count_def used_def nd_def published_def bk_def fun_eq_iff)
  have fin: "finished s' = finished s" and chn: "chain_node s' = chain_node s" and ap: "apart s' = apart s"
    by (auto simp: fun_eq_iff finished_def chain_node_def apart_def sim)
  show "shared_ok s'" using ok by (simp add: shared_ok_def sim fin chn ap)
  show "guar C s s'" by (simp add: guar_def sim)
  show "needs s' c = needs s c" by (cases c) (simp_all add: sim fin)
  show "published s' i = published s i" by (simp add: sim)
qed

lemma good_count:
  assumes "shared_ok s" and "claims p' = claims p" and "pc_ok (put_count s x) p'" and "\<forall>c\<in>claims p. needs s c"
  shows "step_good s p (put_count s x) p'"
  using assms count_change [OF assms(1) refl] by (auto simp: step_good_def)

section \<open>Each step\<close>

text \<open>The steps of \<open>destroy\<close> and \<open>retire\<close> that write to a node.\<close>

lemma node_same_lock: "n_DtorLock n = l \<Longrightarrow> n\<lparr>n_State := st\<rparr> = n\<lparr>n_State := st, n_DtorLock := l\<rparr>"
  by (cases n) simp

lemma node_same_state: "n_State n = st \<Longrightarrow> n\<lparr>n_DtorLock := l\<rparr> = n\<lparr>n_State := st, n_DtorLock := l\<rparr>"
  by (cases n) simp

lemma node_unchanged: "n_State n = st \<Longrightarrow> n_DtorLock n = l \<Longrightarrow> n = n\<lparr>n_State := st, n_DtorLock := l\<rparr>"
  by (cases n) simp

lemma at_base_put:
  assumes "shared_ok s" and "published s j" and "n_BlockBase n = n_BlockBase (nd s j)"
  shows "at_base (put_node s j n) p i = at_base s p i"
  using assms publishedE(3) [OF assms(1,2)] used_le [OF assms(1)] by (auto simp: at_base_def nd_put_node)

lemma step_try:
  assumes ok: "shared_ok s" and "at_base s p i" and "spin_tryLock (n_DtorLock (nd s i)) = (f, got)"
  shows "step_good s (PFound (ForDestroy tid pol) p i) (put_node s i ((nd s i)\<lparr>n_DtorLock := f\<rparr>))
    (if got then PLocked p i else PIdle)"
proof -
  have pub: "published s i" using assms(2) by (rule at_base_published)
  note h = held_node [OF ok pub]
  have f: "f" "got \<longleftrightarrow> \<not> n_DtorLock (nd s i)" using assms(3) by (auto simp: spin_tryLock_def)
  show ?thesis
  proof (rule good_node [OF ok pub node_same_state [OF refl]])
    show "node_needs s i (n_State (nd s i)) f c \<longleftrightarrow>
        c \<in> claims (if got then PLocked p i else PIdle) \<or>
        needs s c \<and> c \<notin> claims (PFound (ForDestroy tid pol) p i)" for c
      using h(1) f by (cases c) (auto simp: finished_def)
  qed (use h f assms(2) in \<open>auto simp: finished_def at_base_put [OF ok pub]\<close>)
qed

lemma step_retiring:
  assumes ok: "shared_ok s" and "at_base s p i" and "needs s (CDtor i)" and "n_State (nd s i) = SLive"
  shows "step_good s (PLocked p i) (put_node s i ((nd s i)\<lparr>n_State := SRetiring\<rparr>)) (PRetiring p i)"
proof -
  have pub: "published s i" using assms(2) by (rule at_base_published)
  note h = held_node [OF ok pub]
  have l: "n_DtorLock (nd s i)" using assms(3) by simp
  have il: "i < length (r_nodes (sh_reg s))" using h(1) used_le [OF ok] by simp
  show ?thesis
  proof (rule good_node [OF ok pub node_same_lock [OF refl]])
    show "node_needs s i SRetiring (n_DtorLock (nd s i)) c \<longleftrightarrow>
        c \<in> claims (PRetiring p i) \<or> needs s c \<and> c \<notin> claims (PLocked p i)" for c
      using h(1) assms(4) l by (cases c) (auto simp: finished_def)
  qed (use h assms in \<open>auto simp: finished_def at_base_put [OF ok pub] nd_put_node [OF il]\<close>)
qed

lemma step_unlock:
  assumes ok: "shared_ok s" and pub: "published s i" and "needs s (CDtor i)" and q: "q = PUnlockD i \<and> q' = PIdle \<or> q = PUnlockQ i \<and> q' = PCountDown i"
    and held: "\<forall>c\<in>claims q. needs s c"
  shows "step_good s q (put_node s i ((nd s i)\<lparr>n_DtorLock := spin_unlock True\<rparr>)) q'"
proof -
  note h = held_node [OF ok pub]
  show ?thesis
  proof (rule good_node [OF ok pub node_same_state [OF refl]])
    show "node_needs s i (n_State (nd s i)) (spin_unlock True) c \<longleftrightarrow>
        c \<in> claims q' \<or> needs s c \<and> c \<notin> claims q" for c
      using h(1) q held by (cases c) (auto simp: finished_def spin_unlock_def)
  qed (use h q pub in \<open>auto simp: finished_def\<close>)
qed

lemma step_end:
  assumes ok: "shared_ok s" and pub: "published s i" and need: "needs s (CDtor i)" "needs s (CRet i)" and b: "b \<longleftrightarrow> n_LiveCount (nd s i) \<noteq> 0"
  shows "step_good s (PLoaded i b) (put_node s i ((nd s i)\<lparr>n_State := if b then SLive else SQuarantine\<rparr>))
    (if b then PUnlockD i else PUnlockQ i)"
proof -
  note h = held_node [OF ok pub]
  have l: "n_DtorLock (nd s i)" and st: "n_State (nd s i) = SRetiring" using need by simp_all
  have q: "i \<notin> set (sh_queued s)" using shared_okD(10) [OF ok, of i] st by (auto simp: finished_def)
  show ?thesis
  proof (rule good_node [OF ok pub node_same_lock [OF refl]])
    show "node_needs s i (if b then SLive else SQuarantine) (n_DtorLock (nd s i)) c \<longleftrightarrow>
        c \<in> claims (if b then PUnlockD i else PUnlockQ i) \<or> needs s c \<and> c \<notin> claims (PLoaded i b)" for c
      using h(1) l st q by (cases c) (auto simp: finished_def)
  qed (use h st b pub in \<open>auto simp: finished_def split: if_splits\<close>)
qed

lemma step_retire:
  assumes ok: "shared_ok s" and "at_base s p i" and "n' = (if n_State (nd s i) = SQuarantine then (nd s i)\<lparr>n_State := SDead\<rparr> else nd s i)"
  shows "step_good s (PFound ForRetire p i) (put_node s i n') PIdle"
proof -
  have pub: "published s i" using assms(2) by (rule at_base_published)
  note h = held_node [OF ok pub]
  let ?st = "if n_State (nd s i) = SQuarantine then SDead else n_State (nd s i)"
  have n: "n' = (nd s i)\<lparr>n_State := ?st, n_DtorLock := n_DtorLock (nd s i)\<rparr>"
    unfolding assms(3) by (cases "nd s i") simp
  show ?thesis
  proof (rule good_node [OF ok pub n])
    show "node_needs s i ?st (n_DtorLock (nd s i)) c \<longleftrightarrow>
        c \<in> claims PIdle \<or> needs s c \<and> c \<notin> claims (PFound ForRetire p i)" for c
      using h(1) by (cases c) (auto simp: finished_def)
  qed (use h in \<open>auto simp: finished_def\<close>)
qed

lemma step_decrement:
  assumes ok: "shared_ok s" and "at_base s p i" and need: "needs s (CDtor i)" "needs s (CRet i)" and "n_LiveCount (nd s i) \<noteq> 0"
  shows "step_good s (PRetiring p i)
    ((put_node s i ((nd s i)\<lparr>n_LiveCount := n_LiveCount (nd s i) - 1\<rparr>))
       \<lparr>sh_destroyed := (sh_destroyed s)(i := Suc (sh_destroyed s i))\<rparr>) (PRun p i)"
proof -
  have pub: "published s i" using assms(2) by (rule at_base_published)
  note h = held_node [OF ok pub]
  let ?n = "(nd s i)\<lparr>n_LiveCount := n_LiveCount (nd s i) - 1\<rparr>"
  let ?s = "(put_node s i ?n)\<lparr>sh_destroyed := (sh_destroyed s)(i := Suc (sh_destroyed s i))\<rparr>"
  have st: "n_State (nd s i) = SRetiring" "n_DtorLock (nd s i)" using need by simp_all
  have il: "i < length (r_nodes (sh_reg s))" using h(1) used_le [OF ok] by simp
  have "0 < unat (n_LiveCount (nd s i))" using assms(5) by (simp add: unat_gt_0)
  then have sum: "unat (n_LiveCount ?n) + Suc (sh_destroyed s i) = unat (sh_objects s i)"
    using h(5) assms(5) by (simp add: unat_minus_one)
  note ch = node_change [OF ok pub, of ?n "Suc (sh_destroyed s i)" ?s "claims (PRetiring p i) \<union> claims (PRun p i)"]
  have need': "needs ?s c = needs s c" for c
    by (subst ch(3)) (use st sum h(1) in \<open>auto simp: finished_def split: claim.split\<close>)
  moreover have "shared_ok ?s" "guar (claims (PRetiring p i) \<union> claims (PRun p i)) s ?s"
    by (rule ch; use st sum in \<open>simp add: finished_def\<close>)+
  moreover have "pc_ok ?s (PRun p i)"
    using assms(2) il by (simp add: at_base_def nd_put_node)
  moreover have "needs ?s c \<longleftrightarrow> c \<in> claims (PRun p i) \<or> needs s c \<and> c \<notin> claims (PRetiring p i)" for c
    unfolding need' using need by (cases "c = CDtor i \<or> c = CRet i") auto
  ultimately show ?thesis unfolding step_good_def by (auto simp del: needs.simps)
qed

text \<open>The steps of \<open>insert\<close>.\<close>

lemma step_lock:
  assumes ok: "shared_ok s" and "args_ok a" and b: "b = regIndex (ia_BlockBase a)" and free: "\<not> b_Lock (bk s b)"
  shows "step_good s PIdle (put_bucket s b ((bk s b)\<lparr>b_Lock := True\<rparr>)) (PHead a)"
proof -
  note ch = bucket_change [OF ok, of _ b True, OF refl]
  have "needs (put_bucket s b ((bk s b)\<lparr>b_Lock := True\<rparr>)) c \<longleftrightarrow> c \<in> claims (PHead a) \<or> needs s c" for c
    unfolding ch(3) using b by (cases c) auto
  then show ?thesis using assms ch(1,2) by (auto simp: step_good_def simp del: needs.simps) simp
qed

lemma step_unlock_bucket:
  assumes ok: "shared_ok s" and "claims p = {CBucket b}" and "claims p' = {}" and "\<And>s. pc_ok s p'"
    and held: "\<forall>c\<in>claims p. needs s c"
  shows "step_good s p (put_bucket s b ((bk s b)\<lparr>b_Lock := spin_unlock True\<rparr>)) p'"
proof -
  note ch = bucket_change [OF ok, of _ b "spin_unlock True", OF refl]
  have "needs (put_bucket s b ((bk s b)\<lparr>b_Lock := spin_unlock True\<rparr>)) c \<longleftrightarrow> needs s c \<and> c \<notin> claims p" for c
    unfolding ch(3) using assms(2) by (cases c) (auto simp: spin_unlock_def)
  then show ?thesis using assms ch(1,2) by (auto simp: step_good_def simp del: needs.simps)
qed

lemma cursor_change:
  assumes ok: "shared_ok s" and s': "s' = s\<lparr>sh_reg := (sh_reg s)\<lparr>r_NodeCursor := x\<rparr>\<rparr>" and up: "used s \<le> used s'"
  shows "shared_ok s'" and "guar C s s'"
    and "needs s' c \<longleftrightarrow> needs s c \<or> (\<exists>i. c = CFresh i \<and> used s \<le> i \<and> i < used s')"
    and "sh_chain s' = sh_chain s" and "nd s' = nd s" and "sh_destroyed s' = sh_destroyed s"
proof -
  show sim: "sh_chain s' = sh_chain s" "nd s' = nd s" "sh_destroyed s' = sh_destroyed s"
    by (simp_all add: s' nd_def fun_eq_iff)
  have sim': "published s' = published s" "bk s' = bk s" "sh_queued s' = sh_queued s" "sh_objects s' = sh_objects s"
    "r_nodes (sh_reg s') = r_nodes (sh_reg s)" "r_NodeCapacity (sh_reg s') = r_NodeCapacity (sh_reg s)"
    by (auto simp: s' nd_def published_def bk_def fun_eq_iff)
  have fin: "finished s' = finished s" and ap: "apart s' = apart s"
    by (auto simp: fun_eq_iff finished_def apart_def sim)
  have le: "used s' \<le> length (r_nodes (sh_reg s))"
    using shared_okD(1) [OF ok] by (simp add: s' used_def reg_used_def)
  have chn: "chain_node s b i \<Longrightarrow> chain_node s' b i" for b i
    using up by (auto simp: chain_node_def sim sim' finished_def)
  have z: "nd s i = node_zero" if "\<not> i < used s" "i < used s'" for i
    using shared_okD(7) [OF ok, of i] that le by simp
  have q: "published s i \<Longrightarrow> i < used s" for i using publishedE(3) [OF ok] .
  have "\<not> n_DtorLock (nd s i) \<and> (n_State (nd s i) = SEmpty \<or> n_State (nd s i) = SLive)"
    if "i < used s'" "\<not> published s i" for i
    using that z [of i] shared_okD(8) [OF ok, of i] by (cases "i < used s") (auto simp: node_zero_def)
  then show "shared_ok s'"
    using ok chn up unfolding shared_ok_def by (simp add: sim sim' fin ap)
  show "guar C s s'" using up by (simp add: guar_def sim sim')
  show "needs s' c \<longleftrightarrow> needs s c \<or> (\<exists>i. c = CFresh i \<and> used s \<le> i \<and> i < used s')"
  proof (cases c)
    case (CFresh i)
    then show ?thesis using q [of i] up by (auto simp: sim')
  next
    case (CDtor i)
    then show ?thesis using z [of i] up by (cases "i < used s") (auto simp: sim node_zero_def)
  next
    case (CRet i)
    then show ?thesis using z [of i] up by (cases "i < used s") (auto simp: sim node_zero_def)
  next
    case (CPend i)
    then show ?thesis using z [of i] up by (cases "i < used s") (auto simp: sim sim' fin finished_def node_zero_def)
  qed (simp add: sim')
qed

lemma on_way_end: "on_way s p None xs ys \<Longrightarrow> xs = sh_chain s (regIndex p)"
  by (cases ys) (auto simp: on_way_def)

lemma step_pool:
  assumes ok: "shared_ok s" and pc: "pc_ok s (PScan a None g)" and held: "\<forall>c\<in>claims (PScan a None g). needs s c"
    and al: "allocateNode (sh_reg s) = (r, res)" and up: "unat (r_NodeCursor (sh_reg s)) < 18446744073709551615 \<or> res \<noteq> None"
  shows "step_good s (PScan a None g) (s\<lparr>sh_reg := r\<rparr>)
    (case res of None \<Rightarrow> PUnlock (regIndex (ia_BlockBase a)) | Some i \<Rightarrow> PFill a g i)"
proof -
  let ?cur = "r_NodeCursor (sh_reg s)" and ?cap = "r_NodeCapacity (sh_reg s)" and ?s = "s\<lparr>sh_reg := r\<rparr>"
  have r: "r = (sh_reg s)\<lparr>r_NodeCursor := ?cur + 1\<rparr>"
    and res: "res = (if ?cap \<le> ?cur then None else Some (unat ?cur))"
    using al by (auto simp: allocateNode_def Let_def split: if_splits)
  have nw: "unat (?cur + 1) = Suc (unat ?cur)"
  proof (rule unat_succ_nowrap)
    show "unat ?cur < 18446744073709551615"
      using up shared_okD(2) [OF ok] res by (auto simp: word_less_nat_alt not_le split: if_splits)
  qed
  have used': "used ?s = (if ?cap \<le> ?cur then used s else Suc (used s))" and
    used0: "\<not> ?cap \<le> ?cur \<Longrightarrow> used s = unat ?cur"
    by (auto simp: used_def reg_used_def r nw word_le_nat_alt)
  have s': "?s = s\<lparr>sh_reg := (sh_reg s)\<lparr>r_NodeCursor := ?cur + 1\<rparr>\<rparr>" by (simp add: r)
  have le: "used s \<le> used ?s" by (simp add: used')
  note ch = cursor_change [OF ok s' le]
  obtain xs ys where w: "on_way s (ia_BlockBase a) None xs ys" "all_dead s xs (ia_BlockBase a) g"
    and a: "args_ok a" "1 \<le> g" "unat g \<le> Suc (used s)" using pc by auto
  have dead: "all_dead s (sh_chain s (regIndex (ia_BlockBase a))) (ia_BlockBase a) g"
    using w on_way_end by blast
  show ?thesis
  proof (cases "?cap \<le> ?cur")
    case True
    then have "needs ?s c = needs s c" for c by (auto simp: ch(3) used')
    then show ?thesis using True res ch(1,2) held by (auto simp: step_good_def simp del: needs.simps)
  next
    case False
    let ?i = "unat ?cur"
    have n: "needs ?s c \<longleftrightarrow> needs s c \<or> c = CFresh ?i" for c
      using False used0 by (auto simp: ch(3) used')
    have "?i < length (r_nodes (sh_reg s))"
      using False shared_okD(1) [OF ok] by (simp add: not_le word_less_nat_alt)
    then have z: "nd s ?i = node_zero" "sh_destroyed s ?i = 0"
      using shared_okD(7) [OF ok, of ?i] used0 [OF False] by simp_all
    have "pc_ok ?s (PFill a g ?i)"
      using a z dead used0 [OF False] by (simp add: ch(4,5,6) all_dead_def)
    moreover have "\<not> needs s (CFresh ?i)" using used0 [OF False] by simp
    ultimately show ?thesis
      using False res ch(1,2) held n by (auto simp: step_good_def simp del: needs.simps pc_ok.simps)
  qed
qed

lemma fresh_change:
  assumes ok: "shared_ok s" and i: "i < used s" "\<not> published s i"
    and n: "n_DtorLock n = False" "n_State n = SEmpty \<or> n_State n = SLive"
    and s': "s' = (put_node s i n)\<lparr>sh_objects := (sh_objects s)(i := x)\<rparr>"
  shows "shared_ok s'" and "CFresh i \<in> C \<Longrightarrow> guar C s s'" and "needs s' c = needs s c"
    and "nd s' j = (if j = i then n else nd s j)" and "sh_chain s' = sh_chain s"
proof -
  have il: "i < length (r_nodes (sh_reg s))" using i(1) used_le [OF ok] by simp
  show nd': "nd s' j = (if j = i then n else nd s j)" for j using il by (simp add: s' nd_put_node)
  show chs: "sh_chain s' = sh_chain s" by (simp add: s')
  have sim: "used s' = used s" "bk s' = bk s" "published s' = published s"
    "sh_queued s' = sh_queued s" "sh_objects s' = (sh_objects s)(i := x)" "sh_destroyed s' = sh_destroyed s"
    "length (r_nodes (sh_reg s')) = length (r_nodes (sh_reg s))"
    "r_NodeCapacity (sh_reg s') = r_NodeCapacity (sh_reg s)"
    by (simp_all add: s')
  have off: "j \<noteq> i" if "j \<in> set (sh_chain s b)" for j b using i(2) that publishedI by blast
  have "linked (r_nodes (sh_reg s')) h (sh_chain s b) = linked (r_nodes (sh_reg s)) h (sh_chain s b)" for h b
    by (rule linked_cong) (use nd' off in \<open>auto simp: nd_def [symmetric] sim\<close>)
  moreover have "chain_node s' b j = chain_node s b j" if "j \<in> set (sh_chain s b)" for j b
    using off [OF that] by (simp add: chain_node_def nd' sim finished_def)
  moreover have "apart s' j k = apart s j k" if "j \<in> set (sh_chain s b)" "k \<in> set (sh_chain s b)" for j k b
    using off [OF that(1)] off [OF that(2)] by (simp add: apart_def nd')
  moreover have "finished s' j = finished s j" if "j \<noteq> i" for j using that by (simp add: finished_def nd')
  ultimately show "shared_ok s'"
    using ok i n unfolding shared_ok_def by (simp add: sim chs nd') (metis (no_types))
  show "guar C s s'" if "CFresh i \<in> C" using that i(2) by (auto simp: guar_def sim nd' chs)
  have st: "\<not> n_DtorLock (nd s i)" "n_State (nd s i) = SEmpty \<or> n_State (nd s i) = SLive"
    using shared_okD(8) [OF ok i] by simp_all
  then show "needs s' c = needs s c" using n by (cases c) (auto simp: sim nd' finished_def)
qed

lemma all_dead_off:
  assumes "\<And>j. j \<in> set is \<Longrightarrow> nd s' j = nd s j"
  shows "all_dead s' is p g = all_dead s is p g"
  using assms by (simp add: all_dead_def)

lemma step_fill:
  assumes ok: "shared_ok s" and pc: "pc_ok s (PFill a g i)" and held: "\<forall>c\<in>claims (PFill a g i). needs s c"
    and s': "s' = (put_node s i (filled_node (nd s i) a g))\<lparr>sh_objects := (sh_objects s)(i := ia_ObjectCount a)\<rparr>"
  shows "step_good s (PFill a g i) s' (PLink a i)"
proof -
  let ?n = "filled_node (nd s i) a g" and ?b = "regIndex (ia_BlockBase a)"
  have i: "i < used s" "\<not> published s i" using held by simp_all
  have z: "nd s i = node_zero" and a: "args_ok a" and d: "sh_destroyed s i = 0" using pc by simp_all
  have n: "n_DtorLock ?n = False" "n_State ?n = SEmpty \<or> n_State ?n = SLive"
    by (simp_all add: filled_node_def z node_zero_def)
  note ch = fresh_change [OF ok i n s']
  have gh: "sh_objects s' i = ia_ObjectCount a" "sh_destroyed s' i = 0" using d by (simp_all add: s')
  have "all_dead s' (sh_chain s ?b) (ia_BlockBase a) g = all_dead s (sh_chain s ?b) (ia_BlockBase a) g"
    by (rule all_dead_off, subst ch(4)) (use i(2) publishedI in auto)
  then have "pc_ok s' (PLink a i)" using pc by (simp add: new_node_ok_def ch(4,5) gh filled_node_def)
  then show ?thesis
    using ch(1,3) ch(2) [of "claims (PFill a g i) \<union> claims (PLink a i)"] held
    by (auto simp: step_good_def simp del: needs.simps pc_ok.simps)
qed

lemma step_link:
  assumes ok: "shared_ok s" and pc: "pc_ok s (PLink a i)" and held: "\<forall>c\<in>claims (PLink a i). needs s c"
  shows "step_good s (PLink a i) (put_node s i ((nd s i)\<lparr>n_Next := h\<rparr>)) (PCas a i h)"
proof -
  let ?n = "(nd s i)\<lparr>n_Next := h\<rparr>" and ?b = "regIndex (ia_BlockBase a)"
  have i: "i < used s" "\<not> published s i" using held by simp_all
  have n: "n_DtorLock ?n = False" "n_State ?n = SEmpty \<or> n_State ?n = SLive" using shared_okD(8) [OF ok i] by simp_all
  have s': "put_node s i ?n = (put_node s i ?n)\<lparr>sh_objects := (sh_objects s)(i := sh_objects s i)\<rparr>"
    by (simp add: put_node_def)
  note ch = fresh_change [OF ok i n s']
  have "all_dead (put_node s i ?n) (sh_chain s ?b) p g = all_dead s (sh_chain s ?b) p g" for p g
    by (rule all_dead_off) (use i(2) publishedI in \<open>auto simp: ch(4)\<close>)
  then have "pc_ok (put_node s i ?n) (PCas a i h)" using pc by (simp add: new_node_ok_def ch(4))
  then show ?thesis
    using ch(1,3) ch(2) [of "claims (PLink a i) \<union> claims (PCas a i h)"] held
    by (auto simp: step_good_def simp del: needs.simps pc_ok.simps)
qed

lemma step_cas:
  assumes ok: "shared_ok s" and pc: "pc_ok s (PCas a i h)" and held: "\<forall>c\<in>claims (PCas a i h). needs s c"
    and b: "b = regIndex (ia_BlockBase a)" and head: "b_Head (bk s b) = h"
    and s': "s' = (put_bucket s b ((bk s b)\<lparr>b_Head := Some i\<rparr>))\<lparr>sh_chain := (sh_chain s)(b := i # sh_chain s b)\<rparr>"
  shows "step_good s (PCas a i h) s' (PUnlockOk b)"
proof -
  have i: "i < used s" "\<not> published s i" using held by simp_all
  have new: "new_node_ok s a i" and nx: "n_Next (nd s i) = h" and lk: "b_Lock (bk s b)"
    using pc held b by simp_all
  have il: "i < length (r_nodes (sh_reg s))" using i(1) used_le [OF ok] by simp
  have sim: "used s' = used s" "nd s' = nd s" "sh_queued s' = sh_queued s" "sh_objects s' = sh_objects s"
    "sh_destroyed s' = sh_destroyed s" "r_nodes (sh_reg s') = r_nodes (sh_reg s)"
    "r_NodeCapacity (sh_reg s') = r_NodeCapacity (sh_reg s)"
    "sh_chain s' = (sh_chain s)(b := i # sh_chain s b)"
    "b_Head (bk s' x) = (if x = b then Some i else b_Head (bk s x))" "b_Lock (bk s' x) = b_Lock (bk s x)" for x
    by (auto simp: s' put_bucket_def set_bucket_def used_def reg_used_def nd_def bk_def fun_eq_iff)
  have pub: "published s' j \<longleftrightarrow> published s j \<or> j = i" for j by (auto simp: published_def sim)
  have fin: "finished s' = finished s" and chn: "chain_node s' = chain_node s" and ap: "apart s' = apart s"
    by (auto simp: fun_eq_iff finished_def chain_node_def apart_def sim)
  have "chain_node s b i"
    using new b i(1) by (auto simp: new_node_ok_def chain_node_def args_ok_def finished_def)
  moreover have apart: "apart s i j" "apart s j i" if "j \<in> set (sh_chain s b)" for j
    using new that b by (auto simp: new_node_ok_def all_dead_def apart_def)
  moreover have "linked (r_nodes (sh_reg s)) (Some i) (i # sh_chain s b)"
    using shared_okD(3) [OF ok, of b] head nx il by (simp add: nd_def)
  moreover have "i \<notin> set (sh_chain s x)" for x using i(2) publishedI by blast
  moreover have "\<not> finished s i" using new by (simp add: new_node_ok_def finished_def)
  ultimately have sh: "shared_ok s'"
    using ok unfolding shared_ok_def by (auto simp: sim pub fin chn ap)
  have g: "guar (claims (PCas a i h) \<union> claims (PUnlockOk b)) s s'"
    unfolding guar_def using b by (auto simp: sim)
  have "needs s' c \<longleftrightarrow> needs s c \<and> c \<noteq> CFresh i" for c
    using i by (cases c) (auto simp: sim pub fin)
  moreover have "needs s (CBucket b)" using lk by simp
  ultimately have "needs s' c \<longleftrightarrow> c \<in> claims (PUnlockOk b) \<or> needs s c \<and> c \<notin> claims (PCas a i h)" for c
    using b by (cases "c = CBucket b") (simp_all del: needs.simps)
  with sh g b show ?thesis by (simp add: step_good_def del: needs.simps)
qed

lemma step_enqueue:
  assumes ok: "shared_ok s" and pc: "pc_ok s (PEnqueue i)" and held: "\<forall>c\<in>claims (PEnqueue i). needs s c"
    and s': "s' = s\<lparr>sh_queued := sh_queued s @ [i]\<rparr>"
  shows "step_good s (PEnqueue i) s' PIdle"
proof -
  have i: "i < used s" "finished s i" "i \<notin> set (sh_queued s)" and pub: "published s i" using pc held by simp_all
  have sim: "used s' = used s" "nd s' = nd s" "published s' = published s" "bk s' = bk s"
    "sh_chain s' = sh_chain s" "sh_objects s' = sh_objects s" "sh_destroyed s' = sh_destroyed s"
    "sh_reg s' = sh_reg s" "sh_queued s' = sh_queued s @ [i]"
    by (simp_all add: s')
  have fin: "finished s' = finished s" and chn: "chain_node s' = chain_node s" and ap: "apart s' = apart s"
    by (auto simp: fun_eq_iff finished_def chain_node_def apart_def sim)
  have "shared_ok s'" using ok i pub unfolding shared_ok_def by (auto simp: sim fin chn ap)
  moreover have "guar C s s'" for C by (simp add: guar_def sim)
  moreover have "needs s' c \<longleftrightarrow> needs s c \<and> c \<noteq> CPend i" for c by (cases c) (auto simp: sim fin)
  ultimately show ?thesis by (auto simp: step_good_def simp del: needs.simps)
qed

text \<open>The steps that only read.\<close>

lemma on_way_start: "shared_ok s \<Longrightarrow> on_way s p (b_Head (bk s (regIndex p))) [] (sh_chain s (regIndex p))"
  using shared_okD(3) by (simp add: on_way_def)

lemma on_way_next:
  assumes "on_way s p (Some i) xs ys"
  obtains zs where "ys = i # zs" and "on_way s p (n_Next (nd s i)) (xs @ [i]) zs" and "i \<in> set (sh_chain s (regIndex p))"
  using assms by (cases ys) (auto simp: on_way_def nd_def)

lemma on_way_stop: "on_way s p None xs ys \<Longrightarrow> ys = []"
  by (cases ys) (auto simp: on_way_def)

lemma scan_step:
  assumes ok: "shared_ok s" and pc: "pc_ok s (PScan a (Some i) g)"
    and dead: "n_BlockBase (nd s i) = ia_BlockBase a \<longrightarrow> n_State (nd s i) = SDead"
    and g': "g' = (if n_BlockBase (nd s i) = ia_BlockBase a \<and> n_Generation (nd s i) + 1 > g
      then n_Generation (nd s i) + 1 else g)"
  shows "pc_ok s (PScan a (n_Next (nd s i)) g')"
proof -
  obtain xs ys where w: "on_way s (ia_BlockBase a) (Some i) xs ys" "all_dead s xs (ia_BlockBase a) g"
    and a: "args_ok a" "1 \<le> g" "unat g \<le> Suc (used s)" using pc by auto
  obtain zs where n: "on_way s (ia_BlockBase a) (n_Next (nd s i)) (xs @ [i]) zs"
    and c: "i \<in> set (sh_chain s (regIndex (ia_BlockBase a)))"
    using w(1) by (rule on_way_next)
  have ci: "i < used s" "unat (n_Generation (nd s i)) \<le> Suc i"
    using shared_okD(5) [OF ok c] by (simp_all add: chain_node_def)
  have "used s < 18446744073709551615" using used_le [OF ok] shared_okD(1,2) [OF ok] by simp
  then have nw: "unat (n_Generation (nd s i) + 1) = Suc (unat (n_Generation (nd s i)))"
    using ci by (intro unat_succ_nowrap) linarith
  have "g \<le> g'" and lt: "n_BlockBase (nd s i) = ia_BlockBase a \<Longrightarrow> n_Generation (nd s i) < g'"
    and "unat g' \<le> Suc (used s)"
    using a(3) ci nw by (auto simp: g' word_less_nat_alt word_le_nat_alt not_less)
  moreover from this w(2) have "all_dead s (xs @ [i]) (ia_BlockBase a) g'"
    using dead by (auto simp: all_dead_def)
  ultimately show ?thesis using a n by (auto intro: order_trans)
qed

lemma walk_step:
  assumes pc: "pc_ok s (PWalk k p (Some i))" and held: "\<forall>c\<in>claims (PWalk k p (Some i)). needs s c"
    and skip: "n_State (nd s i) = SDead \<or> n_State (nd s i) = SEmpty \<or> n_BlockBase (nd s i) \<noteq> p"
  shows "pc_ok s (PWalk k p (n_Next (nd s i)))"
proof -
  obtain xs ys where w: "on_way s p (Some i) xs ys" and k: "case k of ForEnd j \<Rightarrow> j \<in> set ys \<and> at_base s p j | _ \<Rightarrow> True"
    using pc by auto
  obtain zs where n: "ys = i # zs" "on_way s p (n_Next (nd s i)) (xs @ [i]) zs" using w by (rule on_way_next)
  have "case k of ForEnd j \<Rightarrow> j \<in> set zs \<and> at_base s p j | _ \<Rightarrow> True"
    using k n(1) skip held by (auto simp: at_base_def split: find_for.splits)
  with n(2) show ?thesis by auto
qed

lemma walk_found:
  assumes ok: "shared_ok s" and pc: "pc_ok s (PWalk k p (Some i))" and held: "\<forall>c\<in>claims (PWalk k p (Some i)). needs s c"
    and hit: "n_State (nd s i) \<noteq> SDead" "n_BlockBase (nd s i) = p"
  shows "pc_ok s (PFound k p i)"
proof -
  obtain xs ys where w: "on_way s p (Some i) xs ys" and k: "case k of ForEnd j \<Rightarrow> j \<in> set ys \<and> at_base s p j | _ \<Rightarrow> True"
    using pc by auto
  have c: "i \<in> set (sh_chain s (regIndex p))" using w by (rule on_way_next)
  have "j = i" if "k = ForEnd j" for j
  proof (rule ccontr)
    assume "j \<noteq> i"
    moreover have "j \<in> set (sh_chain s (regIndex p))" "n_BlockBase (nd s j) = p" using k that by (simp_all add: at_base_def)
    moreover have "n_State (nd s j) = SRetiring" using held that by simp
    ultimately show False using shared_okD(6) [OF ok, of j "regIndex p" i] c hit by (simp add: apart_def)
  qed
  with c hit show ?thesis by (auto simp: at_base_def split: find_for.splits)
qed

lemma reg_local_good:
  assumes "reg_local s p s' p'" and ok: "shared_ok s" and pc: "pc_ok s p" and held: "\<forall>c\<in>claims p. needs s c"
  shows "step_good s p s' p'"
  using assms(1)
proof cases
  case (lock a b)
  then show ?thesis using step_lock [OF ok] by (simp add: args_ok_def)
next
  case (head a)
  have "\<exists>xs ys. on_way s (ia_BlockBase a) (b_Head (bk s (regIndex (ia_BlockBase a)))) xs ys
      \<and> all_dead s xs (ia_BlockBase a) 1"
    using on_way_start [OF ok, of "ia_BlockBase a"] 
    by (intro exI [of _ "[]"] exI [of _ "sh_chain s (regIndex (ia_BlockBase a))"]) (simp add: all_dead_def)
  then have "pc_ok s p'" unfolding head using pc head(1) by simp
  with ok held head show ?thesis using good_stay [OF ok] by simp
next
  case (scan_other i a g)
  have "pc_ok s p'" unfolding scan_other by (rule scan_step [OF ok]) (use pc scan_other in simp_all)
  with ok held scan_other show ?thesis using good_stay [OF ok] by simp
next
  case (scan_dup i a g)
  with held show ?thesis using good_stay [OF ok] by simp
next
  case (scan_dead i a prior g)
  have "pc_ok s p'" unfolding scan_dead by (rule scan_step [OF ok]) (use pc scan_dead in simp_all)
  with ok held scan_dead show ?thesis using good_stay [OF ok] by simp
next
  case (pool_empty r a g)
  then show ?thesis using step_pool [OF ok, of a g r None] pc held by simp
next
  case (pool_node r i a g)
  then show ?thesis using step_pool [OF ok, of a g r "Some i"] pc held by simp
next
  case (fill a g i)
  then show ?thesis using step_fill [OF ok _ _ refl] pc held by simp
next
  case (link h a i)
  then show ?thesis using step_link [OF ok] pc held by simp
next
  case (cas b a h i)
  then show ?thesis using step_cas [OF ok, of a i h b s'] pc held by simp
next
  case (cas_weak a i h)
  with pc held show ?thesis using good_stay [OF ok] by simp
next
  case (unlock_refused b)
  then show ?thesis using step_unlock_bucket [OF ok, of p b p'] held by simp
next
  case (unlock_inserted b)
  then show ?thesis using step_unlock_bucket [OF ok, of p b p'] held by simp
next
  case count_up
  then show ?thesis using good_count [OF ok] by simp
next
  case (destroy b tid pol)
  then show ?thesis using good_stay [OF ok, of p' p] on_way_start [OF ok, of b] by auto
next
  case (retire b)
  then show ?thesis using good_stay [OF ok, of p' p] on_way_start [OF ok, of b] by auto
next
  case (walk_skip i b k)
  have "pc_ok s p'" unfolding walk_skip by (rule walk_step) (use pc held walk_skip in simp_all)
  then show ?thesis unfolding walk_skip
    by (intro good_stay [OF ok]) (use held walk_skip in \<open>cases k; simp\<close>)+
next
  case (walk_hit i b k)
  have "pc_ok s p'" unfolding walk_hit by (rule walk_found [OF ok]) (use pc held walk_hit in simp_all)
  then show ?thesis unfolding walk_hit
    by (intro good_stay [OF ok]) (use held walk_hit in \<open>cases k; simp\<close>)+
next
  case (walk_end k b)
  have "\<not> (\<exists>j. k = ForEnd j)" using pc walk_end by (auto dest: on_way_stop)
  then show ?thesis using good_stay [OF ok, of p' p] walk_end by (cases k) simp_all
next
  case (foreign pol tid i b)
  then show ?thesis using good_stay [OF ok] by simp
next
  case (try_busy pol tid i f b)
  then show ?thesis using step_try [OF ok, of b i f False tid pol] pc by simp
next
  case (try_lock pol tid i f b)
  then show ?thesis using step_try [OF ok, of b i f True tid pol] pc by simp
next
  case (retiring i b)
  then show ?thesis using step_retiring [OF ok, of b i] pc held by simp
next
  case (not_live i b)
  then show ?thesis using good_stay [OF ok, of p' p] pc held at_base_published by simp
next
  case (unlock_dtor i)
  then show ?thesis using step_unlock [OF ok, of i p p'] pc held by simp
next
  case (decrement b i)
  then show ?thesis using step_decrement [OF ok, of b i] pc held by simp
next
  case (end_find b i)
  then show ?thesis using good_stay [OF ok, of p' p] pc held on_way_start [OF ok, of b] by (auto simp: at_base_def)
next
  case (end_load k b i)
  then show ?thesis using good_stay [OF ok, of p' p] pc held at_base_published by (auto simp: word_gt_0)
next
  case (end_live n' i)
  then show ?thesis using step_end [OF ok, of i True] pc held by simp
next
  case (end_final i)
  then show ?thesis using step_end [OF ok, of i False] pc held by simp
next
  case (end_lost i)
  then show ?thesis using held by simp
next
  case (end_unlock i)
  then show ?thesis using step_unlock [OF ok, of i p p'] pc held by simp
next
  case (count_down i)
  then show ?thesis using good_count [OF ok, of p' p] pc held count_change(4) [OF ok refl] by simp
next
  case (enqueue i)
  then show ?thesis using step_enqueue [OF ok _ _ refl] pc held by simp
next
  case (retire_cas n' i b)
  then show ?thesis using step_retire [OF ok, of b i n'] pc by simp
qed

end
