(* ===== verification/Kerbecs_Allocators.thy ===== *)
theory Kerbecs_Allocators
  imports Kerbecs_Memory
begin

text \<open>
  \<open>src/Public/KerbecsAllocators.h\<close>, \<open>src/Private/KerbecsAllocators.cpp\<close> and
  \<open>src/Public/MemorySupport.h\<close>: the bump allocators of the runtime's zones. \<open>bump\<close> is
  \<open>BumpAllocatorBase\<close> (\<open>m_Base\<close>, \<open>m_Size\<close>, \<open>m_Bump\<close>). \<open>bumpReserve\<close> is \<open>_bumpReserve\<close> when no other
  thread interferes; \<open>bump_step\<close> interleaves the iterations of its compare-and-swap loop among any
  number of threads. The page loop of \<open>allocate\<close> is a \<open>partial_function\<close>, \<open>None\<close> being a loop that
  does not end or an \<open>UNREACHABLE\<close> in \<open>commitPageIfNeeded\<close>.

  The contract a client of an arena relies on (blocks never overlap) is the locale \<open>block_source\<close>.
\<close>

record bump =
  ba_base :: addr
  ba_size :: u64
  ba_bump :: u64

definition Bump_init :: "bump \<Rightarrow> addr \<Rightarrow> u64 \<Rightarrow> bump" where
  "Bump_init ba p_Base v_Size = ba\<lparr>ba_base := p_Base, ba_size := v_Size, ba_bump := 0\<rparr>"

definition bumpReserve :: "bump \<Rightarrow> u64 \<Rightarrow> u64 \<Rightarrow> bump \<times> addr" where
  "bumpReserve ba v_Bytes v_Align =
     (if ba_base ba = null \<or> v_Bytes = 0 \<or> v_Align = 0 then (ba, null)
      else
        let current = ba_bump ba;
            aligned = alignUp current v_Align;
            nxt = aligned + v_Bytes
        in if nxt > ba_size ba then (ba, null)
           else (ba\<lparr>ba_bump := nxt\<rparr>, ba_base ba + aligned))"

partial_function (option) commitPages :: "'e os_api \<Rightarrow> 'e \<Rightarrow> addr \<Rightarrow> addr \<Rightarrow> 'e option" where
  "commitPages os e page lastPage =
     (if page \<le> lastPage
      then Option.bind (commitPageIfNeeded os e page)
             (\<lambda>(e', committed). commitPages os e' (page + PAGE_SIZE) lastPage)
      else Some e)"

definition pageOf :: "addr \<Rightarrow> addr" where
  "pageOf a = a AND NOT (PAGE_SIZE - 1)"

definition Bump_allocate ::
  "'e os_api \<Rightarrow> 'e \<Rightarrow> bump \<Rightarrow> u64 \<Rightarrow> u64 \<Rightarrow> ('e \<times> bump \<times> addr) option" where
  "Bump_allocate os e ba v_Bytes v_Align =
     (case bumpReserve ba v_Bytes v_Align of (ba', ptr) \<Rightarrow>
        if ptr = null then Some (e, ba', null)
        else
          let firstPage = pageOf ptr;
              lastPage = pageOf (ptr + v_Bytes - 1)
          in (case commitPages os e firstPage lastPage of
                None \<Rightarrow> None
              | Some e' \<Rightarrow> Some (e', ba', ptr)))"

definition Bump_deallocate :: "bump \<Rightarrow> addr \<Rightarrow> u64 \<Rightarrow> bump" where
  "Bump_deallocate ba p_Block v_Bytes = ba"

definition Shadowzone_allocate :: "bump \<Rightarrow> u64 \<Rightarrow> u64 \<Rightarrow> bump \<times> addr" where
  "Shadowzone_allocate ba v_Bytes v_Align = bumpReserve ba v_Bytes v_Align"

definition Static_allocate ::
  "'e os_api \<Rightarrow> 'e \<Rightarrow> bump \<Rightarrow> u64 \<Rightarrow> u64 \<Rightarrow> ('e \<times> bump \<times> addr) option" where
  "Static_allocate os e ba v_Bytes v_Align = Bump_allocate os e ba v_Bytes v_Align"

definition Global_allocate ::
  "'e os_api \<Rightarrow> 'e \<Rightarrow> bump \<Rightarrow> u64 \<Rightarrow> u64 \<Rightarrow> ('e \<times> bump \<times> addr) option" where
  "Global_allocate os e ba v_Bytes v_Align = Bump_allocate os e ba v_Bytes v_Align"

definition MetadataZone_allocate ::
  "'e os_api \<Rightarrow> 'e \<Rightarrow> bump \<Rightarrow> u64 \<Rightarrow> u64 \<Rightarrow> ('e \<times> bump \<times> addr) option" where
  "MetadataZone_allocate os e ba v_Bytes v_Align = Bump_allocate os e ba v_Bytes v_Align"

text \<open>The four \<open>deallocate\<close> operations forward to the base class, which does nothing.\<close>

definition Zone_deallocate :: "bump \<Rightarrow> addr \<Rightarrow> u64 \<Rightarrow> bump" where
  "Zone_deallocate ba p_Block v_Bytes = Bump_deallocate ba p_Block v_Bytes"

section \<open>Arenas and requests\<close>

text \<open>
  An arena is well formed when it does not cross the top of the address space and the bump offset
  is inside it. A request is sound for an arena when rounding and adding its size cannot wrap.
\<close>

definition bump_ok :: "bump \<Rightarrow> bool" where
  "bump_ok ba \<longleftrightarrow> ba_bump ba \<le> ba_size ba \<and> unat (ba_base ba) + unat (ba_size ba) \<le> 2 ^ 64
     \<and> (ba_base ba = null \<longrightarrow> ba_bump ba = 0)"

definition request_ok :: "u64 \<Rightarrow> u64 \<Rightarrow> u64 \<Rightarrow> bool" where
  "request_ok sz n al \<longleftrightarrow> is_pow2 al \<and> unat sz + unat n + unat al \<le> 2 ^ 64"

lemma bump_next_unat:
  assumes "request_ok sz n al" and "cur \<le> sz"
  shows "unat (alignUp cur al) = align_nat (unat cur) (unat al)"
    and "unat (alignUp cur al + n) = align_nat (unat cur) (unat al) + unat n"
    and "cur \<le> alignUp cur al" and "unat al dvd unat (alignUp cur al)"
proof -
  from assms have al: "is_pow2 al" and sum: "unat sz + unat n + unat al \<le> 18446744073709551616"
    and cur: "unat cur \<le> unat sz" by (simp_all add: request_ok_def word_le_nat_alt)
  note p = pow2_unat_le [OF al]
  show u: "unat (alignUp cur al) = align_nat (unat cur) (unat al)"
    using sum cur p by (intro alignUp_pow2_unat al) linarith
  have "align_nat (unat cur) (unat al) < unat cur + unat al" using p by (intro align_nat_less) simp
  then show "unat (alignUp cur al + n) = align_nat (unat cur) (unat al) + unat n"
    using sum cur u by (subst unat_plus_nowrap) simp_all
  show "cur \<le> alignUp cur al" using align_nat_ge [of "unat al" "unat cur"] p u
    by (simp add: word_le_nat_alt)
  show "unat al dvd unat (alignUp cur al)" unfolding u by (rule align_nat_dvd)
qed

lemma bumpReserve_cases:
  assumes "bump_ok ba" and "request_ok (ba_size ba) n al" and "bumpReserve ba n al = (ba', p)"
  obtains (refused) "p = null" "ba' = ba"
      "ba_base ba = null \<or> n = 0 \<or> ba_size ba < alignUp (ba_bump ba) al + n"
  | (granted) "p = ba_base ba + alignUp (ba_bump ba) al" "p \<noteq> null" "n \<noteq> 0"
      "ba' = ba\<lparr>ba_bump := alignUp (ba_bump ba) al + n\<rparr>" "ba_bump ba \<le> alignUp (ba_bump ba) al"
      "unat (alignUp (ba_bump ba) al) + unat n \<le> unat (ba_size ba)"
      "unat (ba_bump ba') = unat (alignUp (ba_bump ba) al) + unat n" "bump_ok ba'"
proof (cases "ba_base ba = null \<or> n = 0 \<or> ba_size ba < alignUp (ba_bump ba) al + n")
  case True
  have "al \<noteq> 0" using assms(2) by (auto simp: request_ok_def is_pow2_def)
  with True assms(3) have "p = null \<and> ba' = ba"
    by (auto simp: bumpReserve_def Let_def split: if_splits)
  with True show ?thesis using refused by blast
next
  case False
  have "al \<noteq> 0" using assms(2) by (auto simp: request_ok_def is_pow2_def)
  with False assms(3) have p: "p = ba_base ba + alignUp (ba_bump ba) al"
    and ba': "ba' = ba\<lparr>ba_bump := alignUp (ba_bump ba) al + n\<rparr>"
    by (auto simp: bumpReserve_def Let_def)
  from assms(1) have "ba_bump ba \<le> ba_size ba" by (simp add: bump_ok_def)
  note nx = bump_next_unat [OF assms(2) this]
  have le: "unat (alignUp (ba_bump ba) al) + unat n \<le> unat (ba_size ba)"
    using False nx by (simp add: not_less word_le_nat_alt)
  have n: "0 < unat n" using False by (simp add: unat_gt_0)
  have base: "unat (ba_base ba) + unat (ba_size ba) \<le> 18446744073709551616" "0 < unat (ba_base ba)"
    using assms(1) False by (simp_all add: bump_ok_def unat_gt_0)
  then have "unat p = unat (ba_base ba) + unat (alignUp (ba_bump ba) al)"
    unfolding p using le n by (intro unat_plus_nowrap) linarith
  then have "p \<noteq> null" using base by (metis add_gr_0 less_irrefl unat_0)
  moreover have "bump_ok ba'" using assms(1) False by (simp add: bump_ok_def ba' not_less)
  ultimately show ?thesis using granted p ba' False nx le by simp
qed

section \<open>The contract of a block source\<close>

text \<open>The blocks handed out by a sequence of requests, failed ones left out.\<close>

primrec alloc_seq :: "('s \<Rightarrow> u64 \<Rightarrow> u64 \<Rightarrow> 's \<times> addr) \<Rightarrow> 's \<Rightarrow> (u64 \<times> u64) list \<Rightarrow> (addr \<times> u64) list" where
  "alloc_seq alloc s [] = []"
| "alloc_seq alloc s (r # rs) =
     (case alloc s (fst r) (snd r) of
        (s', p) \<Rightarrow> (if p = null then alloc_seq alloc s' rs else (p, fst r) # alloc_seq alloc s' rs))"

text \<open>
  What a client of an arena relies on: a block that is handed out is disjoint from everything the
  arena had handed out before, and is accounted for afterwards.
\<close>

locale block_source =
  fixes alloc :: "'s \<Rightarrow> u64 \<Rightarrow> u64 \<Rightarrow> 's \<times> addr"
    and used :: "'s \<Rightarrow> addr \<Rightarrow> bool"
    and inv :: "'s \<Rightarrow> bool"
    and req :: "'s \<Rightarrow> u64 \<Rightarrow> u64 \<Rightarrow> bool"
  assumes alloc_inv: "\<lbrakk>inv s; req s n al; alloc s n al = (s', p)\<rbrakk> \<Longrightarrow> inv s'"
    and alloc_req: "\<lbrakk>inv s; req s n al; alloc s n al = (s', p); req s k q\<rbrakk> \<Longrightarrow> req s' k q"
    and alloc_fresh: "\<lbrakk>inv s; req s n al; alloc s n al = (s', p); p \<noteq> null; in_range a p n\<rbrakk>
        \<Longrightarrow> \<not> used s a \<and> used s' a"
    and alloc_mono: "\<lbrakk>inv s; req s n al; alloc s n al = (s', p); used s a\<rbrakk> \<Longrightarrow> used s' a"
begin

lemma alloc_seq_unused:
  assumes "inv s" and "\<forall>(n, al) \<in> set rs. req s n al" and "(p, n) \<in> set (alloc_seq alloc s rs)"
    and "in_range a p n"
  shows "\<not> used s a"
  using assms
proof (induction rs arbitrary: s)
  case (Cons r rs)
  obtain k q where r: "r = (k, q)" by (cases r)
  obtain s' p' where al: "alloc s k q = (s', p')" by (cases "alloc s k q")
  have rq: "req s k q" using Cons.prems(2) r by simp
  have rest: "\<forall>(n, al) \<in> set rs. req s' n al"
    using Cons.prems(2) alloc_req [OF Cons.prems(1) rq al] by auto
  show ?case
  proof (cases "(p, n) \<in> set (alloc_seq alloc s' rs)")
    case True
    then have "\<not> used s' a"
      using Cons.IH [OF alloc_inv [OF Cons.prems(1) rq al] rest] Cons.prems(4) by blast
    then show ?thesis using alloc_mono [OF Cons.prems(1) rq al] by blast
  next
    case False
    with Cons.prems(3) have "p = p'" "n = k" "p' \<noteq> null" by (auto simp: r al split: if_splits)
    then show ?thesis using alloc_fresh [OF Cons.prems(1) rq al] Cons.prems(4) by blast
  qed
qed simp

lemma alloc_seq_disjoint:
  assumes "inv s" and "\<forall>(n, al) \<in> set rs. req s n al"
    and "i < j" and "j < length (alloc_seq alloc s rs)"
    and "in_range a (fst (alloc_seq alloc s rs ! i)) (snd (alloc_seq alloc s rs ! i))"
  shows "\<not> in_range a (fst (alloc_seq alloc s rs ! j)) (snd (alloc_seq alloc s rs ! j))"
  using assms
proof (induction rs arbitrary: s i j)
  case (Cons r rs)
  obtain k q where r: "r = (k, q)" by (cases r)
  obtain s' p' where al: "alloc s k q = (s', p')" by (cases "alloc s k q")
  have rq: "req s k q" using Cons.prems(2) r by simp
  have rest: "\<forall>(n, al) \<in> set rs. req s' n al"
    using Cons.prems(2) alloc_req [OF Cons.prems(1) rq al] by auto
  note inv' = alloc_inv [OF Cons.prems(1) rq al]
  show ?case
  proof (cases "p' = null")
    case True
    then have eq: "alloc_seq alloc s (r # rs) = alloc_seq alloc s' rs" by (simp add: r al)
    show ?thesis using Cons.IH [OF inv' rest Cons.prems(3)] Cons.prems(4,5) unfolding eq by blast
  next
    case False
    then have eq: "alloc_seq alloc s (r # rs) = (p', k) # alloc_seq alloc s' rs" by (simp add: r al)
    obtain j' where j: "j = Suc j'" using Cons.prems(3) by (cases j) auto
    show ?thesis
    proof (cases i)
      case 0
      then have "used s' a"
        using alloc_fresh [OF Cons.prems(1) rq al False] Cons.prems(5) unfolding eq by simp
      moreover have "alloc_seq alloc s' rs ! j' \<in> set (alloc_seq alloc s' rs)"
        using Cons.prems(4) unfolding eq j by simp
      ultimately show ?thesis
        using alloc_seq_unused [OF inv' rest] unfolding eq j by (metis nth_Cons_Suc prod.collapse)
    next
      case (Suc i')
      then show ?thesis
        using Cons.IH [OF inv' rest, of i' j'] Cons.prems(3-5) unfolding eq j by simp
    qed
  qed
qed simp

end

definition bump_used :: "bump \<Rightarrow> addr \<Rightarrow> bool" where
  "bump_used ba a \<longleftrightarrow> in_range a (ba_base ba) (ba_bump ba)"

interpretation arena: block_source bumpReserve bump_used bump_ok "\<lambda>ba. request_ok (ba_size ba)"
proof unfold_locales
  fix ba ba' :: bump and n al k q :: u64 and p a :: addr
  assume ok: "bump_ok ba" and rq: "request_ok (ba_size ba) n al" and r: "bumpReserve ba n al = (ba', p)"
  note res = bumpReserve_cases [OF ok rq r]
  show "bump_ok ba'" by (rule res) (use ok in simp_all)
  show "request_ok (ba_size ba') k q" if "request_ok (ba_size ba) k q"
    by (rule res) (use that in simp_all)
  show "bump_used ba' a" if "bump_used ba a"
    by (rule res) (use that in \<open>auto simp: bump_used_def in_range_base word_le_nat_alt\<close>)
  show "\<not> bump_used ba a \<and> bump_used ba' a" if "p \<noteq> null" "in_range a p n"
  proof (rule res)
    assume g: "p = ba_base ba + alignUp (ba_bump ba) al"
      "ba' = ba\<lparr>ba_bump := alignUp (ba_bump ba) al + n\<rparr>" "ba_bump ba \<le> alignUp (ba_bump ba) al"
      "unat (alignUp (ba_bump ba) al) + unat n \<le> unat (ba_size ba)"
      "unat (ba_bump ba') = unat (alignUp (ba_bump ba) al) + unat n"
    have "unat (alignUp (ba_bump ba) al) + unat n \<le> 18446744073709551616"
      using g(4) unat_le_64 [of "ba_size ba"] by linarith
    from in_range_offset [OF this, of a "ba_base ba"] that g show ?thesis
      by (auto simp: bump_used_def in_range_base word_le_nat_alt)
  qed (use that in simp)
qed

section \<open>The compare-and-swap loop among threads\<close>

text \<open>
  Each thread is outside \<open>_bumpReserve\<close> or in its loop, holding its request and the value of
  \<open>current\<close> it last read. \<open>compare_exchange_weak\<close> may fail spuriously, so \<open>retry\<close> is always possible;
  it loads the present value of \<open>m_Bump\<close> into \<open>current\<close>. \<open>bs_granted\<close> records the offset, size and
  alignment of the blocks returned so far, the newest first.
\<close>

datatype bump_pc = BIdle | BLoop u64 u64 u64

record bump_sys =
  bs_alloc :: bump
  bs_pc :: "nat \<Rightarrow> bump_pc"
  bs_granted :: "(u64 \<times> u64 \<times> u64) list"

inductive bump_step :: "(u64 \<Rightarrow> u64 \<Rightarrow> bool) \<Rightarrow> bump_sys \<Rightarrow> bump_sys \<Rightarrow> bool" for R where
  enter: "\<lbrakk>bs_pc s t = BIdle; R n al; ba_base (bs_alloc s) \<noteq> null; n \<noteq> 0; al \<noteq> 0\<rbrakk>
    \<Longrightarrow> bump_step R s (s\<lparr>bs_pc := (bs_pc s)(t := BLoop (ba_bump (bs_alloc s)) n al)\<rparr>)"
| full: "\<lbrakk>bs_pc s t = BLoop cur n al; ba_size (bs_alloc s) < alignUp cur al + n\<rbrakk>
    \<Longrightarrow> bump_step R s (s\<lparr>bs_pc := (bs_pc s)(t := BIdle)\<rparr>)"
| swap: "\<lbrakk>bs_pc s t = BLoop cur n al; alignUp cur al + n \<le> ba_size (bs_alloc s);
     ba_bump (bs_alloc s) = cur\<rbrakk>
    \<Longrightarrow> bump_step R s
          \<lparr>bs_alloc = (bs_alloc s)\<lparr>ba_bump := alignUp cur al + n\<rparr>,
           bs_pc = (bs_pc s)(t := BIdle), bs_granted = (alignUp cur al, n, al) # bs_granted s\<rparr>"
| retry: "\<lbrakk>bs_pc s t = BLoop cur n al; alignUp cur al + n \<le> ba_size (bs_alloc s)\<rbrakk>
    \<Longrightarrow> bump_step R s (s\<lparr>bs_pc := (bs_pc s)(t := BLoop (ba_bump (bs_alloc s)) n al)\<rparr>)"

definition bump_start :: "bump \<Rightarrow> bump_sys" where
  "bump_start ba = \<lparr>bs_alloc = ba, bs_pc = (\<lambda>_. BIdle), bs_granted = []\<rparr>"

text \<open>The granted blocks lie on top of each other below the bump offset.\<close>

fun stacked :: "nat \<Rightarrow> (u64 \<times> u64 \<times> u64) list \<Rightarrow> bool" where
  "stacked lim [] \<longleftrightarrow> True"
| "stacked lim ((off, n, al) # gs) \<longleftrightarrow>
     unat off + unat n \<le> lim \<and> unat al dvd unat off \<and> stacked (unat off) gs"

lemma stacked_mono: "stacked lim gs \<Longrightarrow> lim \<le> lim' \<Longrightarrow> stacked lim' gs"
  by (cases gs) auto

lemma stacked_below: "stacked lim gs \<Longrightarrow> (off, n, al) \<in> set gs \<Longrightarrow>
  unat off + unat n \<le> lim \<and> unat al dvd unat off"
proof (induction lim gs rule: stacked.induct)
  case (2 lim o1 n1 al1 gs)
  then show ?case by (cases "(off, n, al) \<in> set gs") auto
qed simp

lemma stacked_nth:
  assumes "stacked lim gs" and "i < j" and "j < length gs"
  shows "unat (fst (gs ! j)) + unat (fst (snd (gs ! j))) \<le> unat (fst (gs ! i))"
  using assms
proof (induction lim gs arbitrary: i j rule: stacked.induct)
  case (2 lim o1 n1 al1 gs)
  obtain j' where j: "j = Suc j'" using "2.prems" by (cases j) auto
  show ?case
  proof (cases i)
    case 0
    have "gs ! j' \<in> set gs" using "2.prems" j by simp
    with stacked_below [of "unat o1" gs "fst (gs ! j')" "fst (snd (gs ! j'))" "snd (snd (gs ! j'))"] "2.prems" 0 j
    show ?thesis by simp
  next
    case (Suc i')
    with "2.IH" [of i' j'] "2.prems" j show ?thesis by simp
  qed
qed simp

definition bump_sys_inv :: "bump \<Rightarrow> bump_sys \<Rightarrow> bool" where
  "bump_sys_inv ba s \<longleftrightarrow>
     ba_base (bs_alloc s) = ba_base ba \<and> ba_size (bs_alloc s) = ba_size ba
     \<and> ba_bump (bs_alloc s) \<le> ba_size ba
     \<and> stacked (unat (ba_bump (bs_alloc s))) (bs_granted s)
     \<and> (\<forall>t cur n al. bs_pc s t = BLoop cur n al \<longrightarrow>
          cur \<le> ba_size ba \<and> request_ok (ba_size ba) n al)"

lemma bump_step_inv:
  assumes "bump_step (request_ok (ba_size ba)) s s'" and "bump_sys_inv ba s"
  shows "bump_sys_inv ba s'"
  using assms
proof (cases rule: bump_step.cases)
  case (swap t cur n al)
  then have rq: "request_ok (ba_size ba) n al" "cur \<le> ba_size ba"
    using assms(2) by (auto simp: bump_sys_inv_def)
  note nx = bump_next_unat [OF rq]
  have "stacked (unat (alignUp cur al)) (bs_granted s)"
    using assms(2) swap nx(3) by (auto simp: bump_sys_inv_def word_le_nat_alt intro: stacked_mono)
  then show ?thesis using assms(2) swap nx by (auto simp: bump_sys_inv_def)
qed (auto simp: bump_sys_inv_def)

lemma bump_steps_inv:
  assumes "(bump_step (request_ok (ba_size ba)))\<^sup>*\<^sup>* s s'" and "bump_sys_inv ba s"
  shows "bump_sys_inv ba s'"
  using assms by (induction rule: rtranclp_induct) (auto intro: bump_step_inv)

lemma bump_start_inv: "ba_bump ba = 0 \<Longrightarrow> bump_sys_inv ba (bump_start ba)"
  by (simp add: bump_sys_inv_def bump_start_def)

section \<open>The page loop of allocate\<close>

primrec commit_list :: "'e os_api \<Rightarrow> 'e \<Rightarrow> addr list \<Rightarrow> 'e option" where
  "commit_list os e [] = Some e"
| "commit_list os e (p # ps) =
     Option.bind (commitPageIfNeeded os e p) (\<lambda>(e', committed). commit_list os e' ps)"

definition pages_between :: "addr \<Rightarrow> addr \<Rightarrow> addr list" where
  "pages_between a b = map (\<lambda>i. a + of_nat i * PAGE_SIZE) [0..<Suc ((unat b - unat a) div 4096)]"

lemma pages_between_Cons:
  assumes "a \<le> b" and "unat b < 18446744073709547520"
  shows "pages_between a b =
    a # (if a + PAGE_SIZE \<le> b then pages_between (a + PAGE_SIZE) b else [])"
proof -
  have nx: "unat (a + PAGE_SIZE) = unat a + 4096"
    using assms by (subst unat_plus_nowrap) (simp_all add: PAGE_SIZE_def word_le_nat_alt)
  have le: "unat a \<le> unat b" using assms(1) by (simp add: word_le_nat_alt)
  show ?thesis
  proof (cases "a + PAGE_SIZE \<le> b")
    case True
    then have ge: "unat a + 4096 \<le> unat b" using nx by (simp add: word_le_nat_alt)
    then have n: "(unat b - unat a) div 4096 = Suc ((unat b - (unat a + 4096)) div 4096)"
      using div_add_self2 [of 4096 "unat b - (unat a + 4096)"] by simp
    have "a + of_nat (Suc i) * PAGE_SIZE = a + PAGE_SIZE + of_nat i * PAGE_SIZE" for i
      by (simp add: algebra_simps)
    then show ?thesis using True nx
      unfolding pages_between_def n upt_conv_Cons [OF zero_less_Suc] map_Suc_upt [symmetric]
      by (simp add: comp_def distrib_right del: upt_Suc)
  next
    case False
    then have "unat b - unat a < 4096" using nx le by (simp add: word_le_nat_alt)
    with False show ?thesis by (simp add: pages_between_def)
  qed
qed

lemma commitPages_eq:
  assumes "unat lst < 18446744073709547520"
  shows "commitPages os e p lst = (if p \<le> lst then commit_list os e (pages_between p lst) else Some e)"
proof (induction "unat lst + 4096 - unat p" arbitrary: e p rule: less_induct)
  case less
  show ?case
  proof (cases "p \<le> lst")
    case True
    have "unat (p + PAGE_SIZE) = unat p + 4096"
      using assms True by (subst unat_plus_nowrap) (simp_all add: PAGE_SIZE_def word_le_nat_alt)
    then have dec: "unat lst + 4096 - unat (p + PAGE_SIZE) < unat lst + 4096 - unat p"
      using True by (simp add: word_le_nat_alt)
    show ?thesis
      using True less [OF dec]
      by (subst commitPages.simps)
        (simp add: pages_between_Cons [OF True assms] Option.bind_eq_Some_conv)
  next
    case False
    then show ?thesis by (subst commitPages.simps) simp
  qed
qed

text \<open>
  The page loop compares and advances page numbers modulo \<open>2 ^ 64\<close>: a block that ends in the topmost
  page of the address space makes it run for ever.
\<close>

lemma page_multiple: "pageOf a = a AND NOT (mask 12)"
  by (simp add: pageOf_def PAGE_SIZE_def mask_eq_exp_minus_1)

lemma pageOf_unat: "unat (pageOf a) = unat a div 4096 * 4096"
  by (simp add: page_multiple and_not_mask_unat)

lemma top_page_div:
  assumes "m < (18446744073709551616 :: nat)"
  shows "m div 4096 * 4096 = 18446744073709547520 \<longleftrightarrow> \<not> m < 18446744073709547520"
proof (cases "m < 18446744073709547520")
  case True
  then show ?thesis using div_times_less_eq_dividend [of m 4096] by simp
next
  case False
  then have "m div 4096 = 4503599627370495" using assms by (intro div_nat_eqI) simp_all
  with False show ?thesis by simp
qed

lemma page_le_top:
  assumes "4096 dvd unat (p :: addr)"
  shows "p \<le> - 4096"
proof -
  from assms obtain q where q: "unat p = 4096 * q" by (auto simp: dvd_def)
  have "unat p < 2 ^ 64" using unsigned_less [of p] by simp
  then have "unat p \<le> 18446744073709547520" using q by simp
  then show ?thesis by (simp add: word_le_nat_alt)
qed

lemma next_page_aligned:
  assumes "4096 dvd unat (p :: addr)"
  shows "4096 dvd unat (p + PAGE_SIZE)"
proof -
  have "(4096 :: nat) dvd 2 ^ 64" by (simp add: dvd_def)
  moreover have "unat (p + PAGE_SIZE) = (unat p + 4096) mod 2 ^ 64"
    by (simp add: unat_word_ariths PAGE_SIZE_def)
  ultimately show ?thesis using assms by (simp add: dvd_mod dvd_add)
qed

lemma commitPages_diverges:
  assumes "4096 dvd unat p"
  shows "commitPages os e p (- 4096) = None"
proof -
  have "4096 dvd unat p \<longrightarrow> lst \<noteq> - 4096" if "commitPages os e p lst = Some r" for e p lst r
    using that
  proof (rule commitPages.raw_induct [rotated 1])
    show "4096 dvd unat page \<longrightarrow> lastPage \<noteq> - 4096"
      if ih: "\<And>os e page lastPage y. f os e page lastPage = Some y
          \<Longrightarrow> 4096 dvd unat page \<longrightarrow> lastPage \<noteq> - 4096"
        and step: "(if page \<le> lastPage
            then Option.bind (commitPageIfNeeded os e page)
              (\<lambda>(e', committed). f os e' (page + PAGE_SIZE) lastPage)
            else Some e) = Some y" for f and os :: "'a os_api" and e page lastPage y
    proof (intro impI notI)
      assume al: "4096 dvd unat page" and top: "lastPage = - 4096"
      then have "page \<le> lastPage" using page_le_top by simp
      with step obtain e' where "f os e' (page + PAGE_SIZE) lastPage = Some y"
        by (auto simp: bind_eq_Some_conv split: prod.splits)
      from ih [OF this] show False using next_page_aligned [OF al] top by simp
    qed
  qed
  with assms show ?thesis by (cases "commitPages os e p (- 4096)") auto
qed
lemma commit_list_total:
  assumes "\<forall>e. \<forall>q\<in>set ps. queryPage os e q \<in> {PageCommitted, PageReserved}"
  shows "\<exists>e'. commit_list os e ps = Some e'"
  using assms
proof (induction ps arbitrary: e)
  case (Cons a ps)
  obtain e' b where "commitPageIfNeeded os e a = Some (e', b)"
    using commitPageIfNeeded_defined [of os e a] Cons.prems by auto
  then show ?case using Cons by simp
qed simp

lemma pages_between_range:
  assumes "a \<le> b" and "q \<in> set (pages_between a b)"
  shows "a \<le> q \<and> q \<le> b"
proof -
  have ab: "unat a \<le> unat b" using assms(1) by (simp add: word_le_nat_alt)
  have b: "unat b < 18446744073709551616" using unsigned_less [of b] by simp
  obtain i where q: "q = a + of_nat i * PAGE_SIZE" and i: "i \<le> (unat b - unat a) div 4096"
    using assms(2) by (auto simp: pages_between_def less_Suc_eq_le)
  have "i * 4096 \<le> unat b - unat a" using i by (metis div_times_less_eq_dividend le_trans mult_le_mono1)
  then have lt: "i * 4096 < 18446744073709551616" using b by linarith
  have "unat (of_nat i * PAGE_SIZE) = i * 4096 mod 18446744073709551616"
    using lt by (simp add: unat_word_ariths PAGE_SIZE_def unat_of_nat)
  also have "\<dots> = i * 4096" using lt by (rule mod_less)
  finally have "unat (of_nat i * PAGE_SIZE) = i * 4096" .
  then have "unat q = unat a + i * 4096"
    unfolding q using ab b \<open>i * 4096 \<le> unat b - unat a\<close>
    by (subst unat_plus_nowrap) linarith+
  with \<open>i * 4096 \<le> unat b - unat a\<close> ab show ?thesis by (simp add: word_le_nat_alt)
qed

lemma commitPages_returns_iff:
  assumes "4096 dvd unat p" and "4096 dvd unat lst"
    and "\<forall>e q. p \<le> q \<longrightarrow> q \<le> lst \<longrightarrow> queryPage os e q \<in> {PageCommitted, PageReserved}"
  shows "(\<exists>e'. commitPages os e p lst = Some e') \<longleftrightarrow> lst \<noteq> - 4096"
proof (cases "lst = - 4096")
  case True
  then show ?thesis using commitPages_diverges [OF assms(1), of os e] by simp
next
  case False
  then have "lst < - 4096" using page_le_top [OF assms(2)] by simp
  then have "unat lst < 18446744073709547520" by (simp add: word_less_nat_alt)
  moreover have "\<exists>e'. commit_list os e (pages_between p lst) = Some e'" if "p \<le> lst"
    using pages_between_range [OF that] assms(3) by (intro commit_list_total) blast
  ultimately show ?thesis using False by (simp add: commitPages_eq)
qed

lemma pageOf_top: "pageOf a \<noteq> - 4096 \<longleftrightarrow> unat a < 2 ^ 64 - 4096"
proof -
  have "pageOf a = - 4096 \<longleftrightarrow> unat a div 4096 * 4096 = 18446744073709547520"
    by (simp add: word_unat_eq_iff pageOf_unat)
  moreover have "unat a < 18446744073709551616" using unsigned_less [of a] by simp
  ultimately show ?thesis using top_page_div [of "unat a"] by simp
qed

text \<open>The last byte of a granted block is in the arena.\<close>

lemma granted_end:
  assumes "bump_ok ba" and "request_ok (ba_size ba) n al" and "bumpReserve ba n al = (ba', p)"
  shows "p = null \<or> unat (p + n - 1) < unat (ba_base ba) + unat (ba_size ba)"
  using assms
proof (cases rule: bumpReserve_cases)
  case granted
  have fit: "unat (ba_base ba) + unat (ba_size ba) \<le> 18446744073709551616"
    using assms(1) by (simp add: bump_ok_def)
  have sz: "unat (alignUp (ba_bump ba) al) + unat n \<le> unat (ba_size ba)" by (rule granted)
  have n: "0 < unat n" using granted by (simp add: unat_gt_0)
  have p: "unat p = unat (ba_base ba) + unat (alignUp (ba_bump ba) al)"
    unfolding granted(1) using fit sz n by (subst unat_plus_nowrap) simp_all
  have "unat (n - 1) = unat n - 1" using granted(3) by (simp add: unat_minus_one)
  with p sz n fit have "unat (p + (n - 1)) = unat p + (unat n - 1)"
    by (subst unat_plus_nowrap) simp_all
  then have "unat (p + n - 1) = unat p + (unat n - 1)" by (simp add: add_diff_eq)
  with p sz n show ?thesis by linarith
qed simp

section \<open>Properties\<close>

text \<open>
  On a well-formed arena and a request that cannot wrap, \<open>_bumpReserve\<close> succeeds exactly when the
  offset rounded up to the alignment plus the size is within the arena; it returns the least aligned
  address not below the bump offset and advances the offset to the end of the block; otherwise it
  returns null and leaves the arena as it was.
\<close>

theorem bump_reserve_exact:
  assumes "bump_ok ba" and "request_ok (ba_size ba) n al" and "ba_base ba \<noteq> null" and "n \<noteq> 0"
    and "bumpReserve ba n al = (ba', p)"
  shows "let off = align_nat (unat (ba_bump ba)) (unat al) in
      (if off + unat n \<le> unat (ba_size ba)
       then p \<noteq> null \<and> unat p = unat (ba_base ba) + off \<and> unat (ba_bump ba') = off + unat n
         \<and> ba_base ba' = ba_base ba \<and> ba_size ba' = ba_size ba
       else p = null \<and> ba' = ba)"
proof -
  from assms(1) have "ba_bump ba \<le> ba_size ba" by (simp add: bump_ok_def)
  note nx = bump_next_unat [OF assms(2) this]
  show ?thesis
  proof (rule bumpReserve_cases [OF assms(1,2,5)])
    assume r: "p = null" "ba' = ba" "ba_base ba = null \<or> n = 0 \<or> ba_size ba < alignUp (ba_bump ba) al + n"
    then show ?thesis using assms(3,4) nx by (simp add: word_less_nat_alt)
  next
    assume g: "p = ba_base ba + alignUp (ba_bump ba) al" "p \<noteq> null" "n \<noteq> 0"
      "ba' = ba\<lparr>ba_bump := alignUp (ba_bump ba) al + n\<rparr>"
      "unat (alignUp (ba_bump ba) al) + unat n \<le> unat (ba_size ba)"
      "unat (ba_bump ba') = unat (alignUp (ba_bump ba) al) + unat n"
    have "unat (ba_base ba) + unat (ba_size ba) \<le> 18446744073709551616" "0 < unat n"
      using assms(1,4) by (simp_all add: bump_ok_def unat_gt_0)
    then have "unat p = unat (ba_base ba) + unat (alignUp (ba_bump ba) al)"
      unfolding g(1) using g(5) by (intro unat_plus_nowrap) linarith
    then show ?thesis using g nx by simp
  qed
qed

definition arena_example :: bump where
  "arena_example = \<lparr>ba_base = 65536, ba_size = 4096, ba_bump = 100\<rparr>"

theorem bump_reserve_exact_witness:
  "unat (snd (bumpReserve arena_example 200 64)) = 65536 + 128"
proof -
  obtain ba' p where r: "bumpReserve arena_example 200 64 = (ba', p)"
    by (cases "bumpReserve arena_example 200 64")
  have "bump_ok arena_example" and "request_ok (ba_size arena_example) 200 64"
    by (simp_all add: arena_example_def bump_ok_def request_ok_def is_pow2_def)
  from bump_reserve_exact [OF this _ _ r] have "unat p = 65664"
    by (simp add: arena_example_def align_nat_def Let_def)
  then show ?thesis unfolding r by simp
qed

text \<open>
  C14: The blocks a zone hands out for any sequence of requests that cannot wrap are pairwise
  disjoint, and none overlaps the part of the arena already in use before the sequence.
\<close>

theorem zone_blocks_disjoint:
  assumes "bump_ok ba" and "\<forall>(n, al) \<in> set rs. request_ok (ba_size ba) n al"
    and "alloc_seq Shadowzone_allocate ba rs = blocks" and "j < length blocks"
    and "in_range a (fst (blocks ! j)) (snd (blocks ! j))"
  shows "\<not> in_range a (ba_base ba) (ba_bump ba)
    \<and> (\<forall>i < length blocks. i \<noteq> j \<longrightarrow> \<not> in_range a (fst (blocks ! i)) (snd (blocks ! i)))"
proof -
  have eq: "Shadowzone_allocate = bumpReserve" by (simp add: fun_eq_iff Shadowzone_allocate_def)
  have b: "blocks = alloc_seq bumpReserve ba rs" using assms(3) unfolding eq by simp
  have "\<not> bump_used ba a"
    using arena.alloc_seq_unused [OF assms(1,2), of "fst (blocks ! j)" "snd (blocks ! j)" a] assms(4,5)
    unfolding b by simp
  moreover have "\<not> in_range a (fst (blocks ! i)) (snd (blocks ! i))"
    if "i < length blocks" "i \<noteq> j" for i
    using arena.alloc_seq_disjoint [OF assms(1,2), of i j a]
      arena.alloc_seq_disjoint [OF assms(1,2), of j i a] assms(4,5) that
    unfolding b by (meson linorder_neqE_nat)
  ultimately show ?thesis by (simp add: bump_used_def)
qed

theorem zone_blocks_disjoint_witness:
  "\<not> in_range 65700 (fst (alloc_seq Shadowzone_allocate arena_example [(200, 64), (50, 8)] ! 1))
       (snd (alloc_seq Shadowzone_allocate arena_example [(200, 64), (50, 8)] ! 1))"
proof -
  let ?bs = "alloc_seq Shadowzone_allocate arena_example [(200, 64), (50, 8)]"
  have bs: "?bs = [(65664, 200), (65864, 50)]"
    by (simp add: Shadowzone_allocate_def bumpReserve_def arena_example_def Let_def alignUp_def)
  have "bump_ok arena_example"
    and "\<forall>(n, al) \<in> set [(200, 64), (50, 8)]. request_ok (ba_size arena_example) n al"
    by (simp_all add: arena_example_def bump_ok_def request_ok_def is_pow2_def)
  from zone_blocks_disjoint [OF this bs, of 0 65700] show ?thesis
    unfolding bs by (simp add: in_range_def)
qed

text \<open>
  C17: However the compare-and-swap loops of any number of threads interleave, spurious failures
  included, the blocks granted by \<open>_bumpReserve\<close> are aligned, lie inside the arena below the bump
  offset, and are pairwise disjoint, when no request can wrap.
\<close>

theorem bump_interleavings_disjoint:
  assumes "ba_bump ba = 0"
    and "(bump_step (request_ok (ba_size ba)))\<^sup>*\<^sup>* (bump_start ba) s"
  shows "(\<forall>(off, n, al) \<in> set (bs_granted s).
        unat al dvd unat off \<and> unat off + unat n \<le> unat (ba_bump (bs_alloc s))
        \<and> ba_bump (bs_alloc s) \<le> ba_size ba)
    \<and> (\<forall>i j. i < j \<longrightarrow> j < length (bs_granted s) \<longrightarrow>
        unat (fst (bs_granted s ! j)) + unat (fst (snd (bs_granted s ! j)))
          \<le> unat (fst (bs_granted s ! i)))"
proof -
  have inv: "bump_sys_inv ba s" using bump_steps_inv [OF assms(2) bump_start_inv [OF assms(1)]] .
  then have st: "stacked (unat (ba_bump (bs_alloc s))) (bs_granted s)"
    and "ba_bump (bs_alloc s) \<le> ba_size ba" by (simp_all add: bump_sys_inv_def)
  then show ?thesis using stacked_below [OF st] stacked_nth [OF st] by auto
qed

theorem bump_interleavings_disjoint_witness:
  "\<exists>s. (bump_step (request_ok 4096))\<^sup>*\<^sup>* (bump_start \<lparr>ba_base = 65536, ba_size = 4096, ba_bump = 0\<rparr>) s
     \<and> bs_granted s = [(128, 10, 64), (0, 100, 64)]
     \<and> unat (fst (bs_granted s ! 1)) + unat (fst (snd (bs_granted s ! 1))) \<le> unat (fst (bs_granted s ! 0))"
proof -
  let ?ba = "\<lparr>ba_base = 65536, ba_size = 4096, ba_bump = 0\<rparr>"
  let ?R = "request_ok 4096"
  have rq: "?R 100 64" "?R 10 64" by (simp_all add: request_ok_def is_pow2_def)
  let ?s1 = "\<lparr>bs_alloc = ?ba, bs_pc = (\<lambda>_. BIdle)(0 := BLoop 0 100 64), bs_granted = []\<rparr>"
  let ?s2 = "\<lparr>bs_alloc = ?ba, bs_pc = (bs_pc ?s1)(1 := BLoop 0 10 64), bs_granted = []\<rparr>"
  let ?b1 = "\<lparr>ba_base = 65536, ba_size = 4096, ba_bump = 100\<rparr>"
  let ?s3 = "\<lparr>bs_alloc = ?b1, bs_pc = (bs_pc ?s2)(0 := BIdle), bs_granted = [(0, 100, 64)]\<rparr>"
  let ?s4 = "\<lparr>bs_alloc = ?b1, bs_pc = (bs_pc ?s3)(1 := BLoop 100 10 64), bs_granted = [(0, 100, 64)]\<rparr>"
  let ?s5 = "\<lparr>bs_alloc = \<lparr>ba_base = 65536, ba_size = 4096, ba_bump = 138\<rparr>, bs_pc = (bs_pc ?s4)(1 := BIdle),
    bs_granted = [(128, 10, 64), (0, 100, 64)]\<rparr>"
  have "bump_step ?R (bump_start ?ba) ?s1"
    using bump_step.enter [of "bump_start ?ba" 0 ?R 100 64] rq by (simp add: bump_start_def)
  moreover have "bump_step ?R ?s1 ?s2" using bump_step.enter [of ?s1 1 ?R 10 64] rq by simp
  moreover have "bump_step ?R ?s2 ?s3"
    using bump_step.swap [of ?s2 0 0 100 64 ?R] by (simp add: alignUp_def)
  moreover have "bump_step ?R ?s3 ?s4"
    using bump_step.retry [of ?s3 1 0 10 64 ?R] by (simp add: alignUp_def)
  moreover have "bump_step ?R ?s4 ?s5"
    using bump_step.swap [of ?s4 1 100 10 64 ?R] by (simp add: alignUp_def)
  ultimately have run: "(bump_step ?R)\<^sup>*\<^sup>* (bump_start ?ba) ?s5" by simp
  then show ?thesis
    using bump_interleavings_disjoint [of ?ba ?s5] by (intro exI [of _ ?s5]) simp
qed

text \<open>
  A request whose size wraps the addition \<open>aligned + v_Bytes\<close> is granted instead of refused: it gets
  the aligned address at the bump offset, and the bump offset moves back below the blocks in use, so
  that the next request of the right size is given memory that is already handed out.
\<close>

theorem bump_reserve_accepts_wrapping_request:
  assumes "ba_base ba \<noteq> null" and "n \<noteq> 0" and "al \<noteq> 0"
    and "2 ^ 64 \<le> unat (alignUp (ba_bump ba) al) + unat n"
    and "unat (alignUp (ba_bump ba) al) + unat n - 2 ^ 64 < unat (ba_bump ba)"
    and "ba_bump ba \<le> ba_size ba"
  shows "\<exists>ba'. bumpReserve ba n al = (ba', ba_base ba + alignUp (ba_bump ba) al)
    \<and> ba_bump ba' < ba_bump ba
    \<and> (\<forall>k. k \<noteq> 0 \<longrightarrow> ba_bump ba' + k = ba_size ba \<longrightarrow>
          snd (bumpReserve ba' k 1) = ba_base ba + ba_bump ba')"
proof -
  have w: "unat (alignUp (ba_bump ba) al + n) = unat (alignUp (ba_bump ba) al) + unat n - 18446744073709551616"
    using assms(4) by (simp add: unat_plus_if_size word_size)
  then have lt: "alignUp (ba_bump ba) al + n < ba_bump ba" using assms(5) by (simp add: word_less_nat_alt)
  have one: "alignUp v 1 = v" for v by (simp add: alignUp_def)
  show ?thesis
    using assms(1-3,6) lt by (auto simp: bumpReserve_def Let_def not_less one)
qed

theorem bump_reserve_accepts_wrapping_request_witness:
  "\<exists>ba'. bumpReserve arena_example (- 90) 1 = (ba', 65636) \<and> ba_bump ba' < 100"
  using bump_reserve_accepts_wrapping_request [of arena_example "- 90" 1]
  by (auto simp: arena_example_def alignUp_def)

text \<open>
  On a block whose last page is not the topmost page of the address space, \<open>allocate\<close> runs
  \<open>commitPageIfNeeded\<close> once on every page of the block, in ascending order, and returns the block
  whatever the commits returned; it returns whenever no queried page is free or unknown. A
  refused reservation commits nothing.
\<close>

theorem allocate_commits_each_page:
  assumes "bumpReserve ba n al = (ba', p)"
    and "unat (pageOf (p + n - 1)) < 2 ^ 64 - 4096" and "pageOf p \<le> pageOf (p + n - 1)"
  shows "Global_allocate os e ba n al =
      (if p = null then Some (e, ba', null)
       else map_option (\<lambda>e'. (e', ba', p)) (commit_list os e (pages_between (pageOf p) (pageOf (p + n - 1)))))
    \<and> ((\<forall>e' q. queryPage os e' q \<in> {PageCommitted, PageReserved}) \<longrightarrow> (\<exists>r. Global_allocate os e ba n al = Some r))"
proof -
  have cp: "commitPages os e (pageOf p) (pageOf (p + n - 1)) =
      commit_list os e (pages_between (pageOf p) (pageOf (p + n - 1)))"
    using assms(2,3) by (simp add: commitPages_eq)
  have "\<exists>e'. commit_list os e ps = Some e'"
    if q: "\<forall>e' q. queryPage os e' q \<in> {PageCommitted, PageReserved}" for ps e
  proof (induction ps arbitrary: e)
    case (Cons a ps)
    obtain e' b where "commitPageIfNeeded os e a = Some (e', b)"
      using commitPageIfNeeded_defined [of os e a] q by auto
    then show ?case using Cons.IH by simp
  qed simp
  then show ?thesis
    by (auto simp: Global_allocate_def Bump_allocate_def assms(1) Let_def cp split: option.splits)
      (metis option.distinct(1))
qed

definition os_example :: "addr list os_api" where
  "os_example = \<lparr>sys_mmap = (\<lambda>e _ _ _. (e, None)),
     sys_mprotect = (\<lambda>e a _ _. (a # e, True)), sys_madvise_dontneed = (\<lambda>e _ _. (e, True)),
     sys_munmap = (\<lambda>e _ _. (e, True)), sys_mincore = (\<lambda>e _ _. Some 0), sys_pagesize = (\<lambda>e. 4096)\<rparr>"

theorem allocate_commits_each_page_witness:
  "Global_allocate os_example [] \<lparr>ba_base = 65536, ba_size = 40960, ba_bump = 100\<rparr> 8192 64
     = Some ([73728, 69632, 65536], \<lparr>ba_base = 65536, ba_size = 40960, ba_bump = 8320\<rparr>, 65664)"
proof -
  have r: "bumpReserve \<lparr>ba_base = 65536, ba_size = 40960, ba_bump = 100\<rparr> 8192 64
      = (\<lparr>ba_base = 65536, ba_size = 40960, ba_bump = 8320\<rparr>, 65664)"
    by (simp add: bumpReserve_def alignUp_def Let_def)
  have pg: "pageOf 65664 = 65536" "pageOf 73855 = 73728" by (simp_all add: pageOf_def PAGE_SIZE_def)
  have pages: "pages_between 65536 73728 = [65536, 69632, 73728]"
    by (simp add: pages_between_def PAGE_SIZE_def upt_rec)
  show ?thesis
    using allocate_commits_each_page [OF r, of os_example "[]"]
    by (simp add: pg pages commitPageIfNeeded_def queryPage_def os_example_def mem_commit_def
        PAGE_SIZE_def Let_def)
qed

text \<open>
  C35: When the allocators of the zones return. A request that gets no block (the arena is full or not set up,
  the size or the alignment is zero) always returns null, without touching a page, whatever the pages
  are like. A request that gets one returns it exactly when the last byte of the block is below the topmost
  page of the address space, provided every page of the block is committed or reserved: on a block that
  ends in that page the page counter wraps to zero and the loop never ends. So on a well-formed arena
  that ends below the topmost page every request that cannot wrap returns.
\<close>

theorem zone_allocate_terminates:
  fixes os :: "'e os_api" and ba :: bump and n al :: u64
  defines "p \<equiv> snd (bumpReserve ba n al)"
  assumes A: "A \<in> {Global_allocate os, Static_allocate os, MetadataZone_allocate os}"
    and pages: "p \<noteq> null \<Longrightarrow> \<forall>e q. pageOf p \<le> q \<longrightarrow> q \<le> pageOf (p + n - 1)
      \<longrightarrow> queryPage os e q \<in> {PageCommitted, PageReserved}"
  shows "(p = null \<longrightarrow> A e ba n al = Some (e, fst (bumpReserve ba n al), null))
    \<and> (p \<noteq> null \<and> unat (p + n - 1) < 2 ^ 64 - 4096 \<longrightarrow> (\<exists>e'. A e ba n al = Some (e', fst (bumpReserve ba n al), p)))
    \<and> (p \<noteq> null \<and> \<not> unat (p + n - 1) < 2 ^ 64 - 4096 \<longrightarrow> A e ba n al = None)
    \<and> (bump_ok ba \<longrightarrow> request_ok (ba_size ba) n al
        \<longrightarrow> unat (ba_base ba) + unat (ba_size ba) \<le> 2 ^ 64 - 4096
        \<longrightarrow> (\<exists>e'. A e ba n al = Some (e', fst (bumpReserve ba n al), p)))"
proof -
  obtain ba' where r: "bumpReserve ba n al = (ba', p)" by (metis p_def prod.collapse)
  have al: "4096 dvd unat (pageOf a)" for a by (simp add: pageOf_unat)
  have AB: "A = Bump_allocate os"
    using A by (auto simp: Global_allocate_def Static_allocate_def MetadataZone_allocate_def fun_eq_iff)
  have none: "A e ba n al = Some (e, ba', null)" if "p = null"
    using that by (simp add: AB Bump_allocate_def r)
  have run: "A e ba n al = map_option (\<lambda>e'. (e', ba', p)) (commitPages os e (pageOf p) (pageOf (p + n - 1)))"
    if "p \<noteq> null"
    using that by (simp add: AB Bump_allocate_def r Let_def split: option.splits)
  have iff: "(\<exists>e'. commitPages os e (pageOf p) (pageOf (p + n - 1)) = Some e') \<longleftrightarrow> unat (p + n - 1) < 2 ^ 64 - 4096"
    if "p \<noteq> null"
    using commitPages_returns_iff [OF al al pages [OF that], of e] pageOf_top [of "p + n - 1"] by auto
  have "p = null \<or> unat (p + n - 1) < 2 ^ 64 - 4096"
    if "bump_ok ba" "request_ok (ba_size ba) n al" "unat (ba_base ba) + unat (ba_size ba) \<le> 2 ^ 64 - 4096"
    using granted_end [OF that(1,2) r] that(3) by auto
  moreover have "A e ba n al = None" if "p \<noteq> null" "\<not> unat (p + n - 1) < 2 ^ 64 - 4096"
    using run [OF that(1)] iff [OF that(1)] that(2) by (cases "commitPages os e (pageOf p) (pageOf (p + n - 1))") auto
  moreover have "\<exists>e'. A e ba n al = Some (e', ba', p)" if "p \<noteq> null" "unat (p + n - 1) < 2 ^ 64 - 4096"
    using run [OF that(1)] iff [OF that(1)] that(2) by auto
  ultimately show ?thesis using none unfolding r fst_conv by blast
qed

theorem zone_allocate_terminates_witness:
  "Global_allocate os_example [] \<lparr>ba_base = - 8192, ba_size = 8192, ba_bump = 0\<rparr> 8192 64 = None
    \<and> (\<exists>e'. Static_allocate os_example [] \<lparr>ba_base = - 8192, ba_size = 8192, ba_bump = 0\<rparr> 4096 64
        = Some (e', \<lparr>ba_base = - 8192, ba_size = 8192, ba_bump = 4096\<rparr>, - 8192))
    \<and> MetadataZone_allocate os_example [] \<lparr>ba_base = - 8192, ba_size = 8192, ba_bump = 0\<rparr> 8193 64
        = Some ([], \<lparr>ba_base = - 8192, ba_size = 8192, ba_bump = 0\<rparr>, null)"
proof -
  let ?ba = "\<lparr>ba_base = - 8192, ba_size = 8192, ba_bump = 0\<rparr>"
  have q: "queryPage os_example e q \<in> {PageCommitted, PageReserved}" if "- 8192 \<le> q" for e q
    using that by (auto simp: queryPage_def os_example_def)
  have r: "bumpReserve ?ba 8192 64 = (?ba\<lparr>ba_bump := 8192\<rparr>, - 8192)" "bumpReserve ?ba 4096 64 = (?ba\<lparr>ba_bump := 4096\<rparr>, - 8192)"
    "bumpReserve ?ba 8193 64 = (?ba, null)"
    by (simp_all add: bumpReserve_def alignUp_def Let_def)
  have pg: "pageOf (- 8192) = - 8192" by (simp add: pageOf_def PAGE_SIZE_def)
  have "Global_allocate os_example [] ?ba 8192 64 = None"
    using zone_allocate_terminates [of "Global_allocate os_example" os_example ?ba 8192 64 "[]"] q
    by (simp add: r pg unsigned_minus_1_eq_mask mask_eq_exp_minus_1)
  moreover have "\<exists>e'. Static_allocate os_example [] ?ba 4096 64 = Some (e', ?ba\<lparr>ba_bump := 4096\<rparr>, - 8192)"
    using zone_allocate_terminates [of "Static_allocate os_example" os_example ?ba 4096 64 "[]"] q by (simp add: r pg)
  moreover have "MetadataZone_allocate os_example [] ?ba 8193 64 = Some ([], ?ba, null)"
    using zone_allocate_terminates [of "MetadataZone_allocate os_example" os_example ?ba 8193 64 "[]"] by (simp add: r)
  ultimately show ?thesis by simp
qed

end
