(* ===== verification/Kerbecs_Retire.thy ===== *)
theory Kerbecs_Retire
  imports Kerbecs_QuarantineSpec
begin

text \<open>
  \<open>AllocationRegistry::endRetiring\<close> (\<open>src/Private/AllocationRegistry.cpp\<close>), the operation in which the
  registry hands a block to the quarantine, and the life cycle of a registry record: \<open>reg_step\<close> is one
  operation on a registry, by any caller, and the lemmas follow one record through any number of them.
  \<open>endRetiring_node\<close> is what \<open>endRetiring\<close> does to the registry; it returns the block size when the
  block is to be queued.
\<close>

definition endRetiring_node :: "registry \<Rightarrow> addr \<Rightarrow> (registry \<times> u64 option) option" where
  "endRetiring_node reg p_BlockBase =
     (if p_BlockBase = null then Some (reg, None)
      else
        (case registry_find reg p_BlockBase of
           None \<Rightarrow> None
         | Some None \<Rightarrow> Some (reg, None)
         | Some (Some i) \<Rightarrow>
             let node = r_nodes reg ! i;
                 liveCount = n_LiveCount node
             in if liveCount > 0
                then
                  let node = (if n_State node = SRetiring then node\<lparr>n_State := SLive\<rparr> else node);
                      node = node\<lparr>n_DtorLock := spin_unlock (n_DtorLock node)\<rparr>
                  in Some (set_node reg i node, None)
                else if n_State node \<noteq> SRetiring
                then Some (set_node reg i (node\<lparr>n_DtorLock := spin_unlock (n_DtorLock node)\<rparr>), None)
                else
                  let node = node\<lparr>n_State := SQuarantine\<rparr>;
                      node = node\<lparr>n_DtorLock := spin_unlock (n_DtorLock node)\<rparr>;
                      reg = set_node reg i node
                  in Some (reg\<lparr>r_Count := r_Count reg - 1\<rparr>, Some (n_BlockSize node))))"

definition endRetiring ::
  "'e kcore \<Rightarrow> addr \<Rightarrow> addr \<Rightarrow> u64 \<Rightarrow> addr \<Rightarrow> ('e \<Rightarrow> addr \<Rightarrow> addr \<Rightarrow> u64 \<Rightarrow> 'e) option \<Rightarrow>
   ('e kcore, unit) outcome" where
  "endRetiring k this p_BlockBase v_Epoch p_Allocator p_Thunk =
     (case k_regs k this of
        None \<Rightarrow> Undefined
      | Some reg \<Rightarrow>
          (case endRetiring_node reg p_BlockBase of
             None \<Rightarrow> Undefined
           | Some (reg', None) \<Rightarrow> Ret (k\<lparr>k_regs := (k_regs k)(this := Some reg')\<rparr>) ()
           | Some (reg', Some v_BlockSize) \<Rightarrow>
               (case queue_enqueue (k\<lparr>k_regs := (k_regs k)(this := Some reg')\<rparr>) p_BlockBase v_BlockSize
                       v_Epoch p_Allocator p_Thunk this of
                  Ret k' queued \<Rightarrow> Ret k' ()
                | Trap k' \<Rightarrow> Trap k'
                | Undefined \<Rightarrow> Undefined)))"

lemma endRetiring_node_cases:
  assumes inv: "reg_inv reg" and r: "endRetiring_node reg p = res"
  obtains (missing) "\<And>i. \<not> reg_holds reg p i" "res = Some (reg, None)"
  | (idle) i where "reg_holds reg p i" "n_State (r_nodes reg ! i) \<noteq> SRetiring" "res = Some (reg, None)"
  | (alive) i where "reg_holds reg p i" "n_State (r_nodes reg ! i) = SRetiring"
      "n_LiveCount (r_nodes reg ! i) \<noteq> 0"
      "res = Some (set_node reg i ((r_nodes reg ! i)\<lparr>n_State := SLive, n_DtorLock := False\<rparr>), None)"
  | (finished) i where "reg_holds reg p i" "n_State (r_nodes reg ! i) = SRetiring"
      "n_LiveCount (r_nodes reg ! i) = 0"
      "res = Some ((set_node reg i ((r_nodes reg ! i)\<lparr>n_State := SQuarantine, n_DtorLock := False\<rparr>))
               \<lparr>r_Count := r_Count reg - 1\<rparr>, Some (n_BlockSize (r_nodes reg ! i)))"
proof (rule registry_findE [OF inv, of p])
  assume f: "registry_find reg p = Some None" and none: "\<And>i. \<not> reg_holds reg p i"
  then have "res = Some (reg, None)" using r by (simp add: endRetiring_node_def split: if_splits)
  with none missing show thesis by blast
next
  fix i assume f: "registry_find reg p = Some (Some i)" and h: "reg_holds reg p i"
  let ?n = "r_nodes reg ! i"
  have ok: "node_ok i ?n" and p: "n_BlockBase ?n = p" using inv h by (auto simp: reg_inv_def reg_holds_def)
  then have p0: "p \<noteq> null" by (auto simp: node_ok_def)
  consider (retiring) "n_State ?n = SRetiring" | (other) "n_State ?n \<noteq> SRetiring" by blast
  then show thesis
  proof cases
    case retiring
    show thesis
    proof (cases "n_LiveCount ?n = 0")
      case True
      have "res = Some ((set_node reg i (?n\<lparr>n_State := SQuarantine, n_DtorLock := False\<rparr>))
               \<lparr>r_Count := r_Count reg - 1\<rparr>, Some (n_BlockSize ?n))"
        using r f p0 retiring True
        by (simp add: endRetiring_node_def Let_def spin_unlock_def) (simp add: set_node_def)
      then show thesis using finished h retiring True by blast
    next
      case False
      then have "res = Some (set_node reg i (?n\<lparr>n_State := SLive, n_DtorLock := False\<rparr>), None)"
        using r f p0 retiring by (simp add: endRetiring_node_def Let_def spin_unlock_def word_gt_0)
      then show thesis using alive h retiring False by blast
    qed
  next
    case other
    then have "n_DtorLock ?n = False" using ok by (simp add: node_ok_def)
    then have "res = Some (reg, None)"
      using r f p0 other
      by (auto simp: endRetiring_node_def Let_def spin_unlock_def node_lock_same set_node_same split: if_splits)
    then show thesis using idle h other by blast
  qed
qed

section \<open>The hand-over to the quarantine\<close>

lemma endRetiring_eq:
  assumes reg: "k_regs k this = Some reg" and inv: "reg_inv reg" and qinv: "q_inv (k_queue k)"
    and own: "this \<noteq> null" and h: "reg_holds reg p i" and st: "n_State (r_nodes reg ! i) = SRetiring"
  shows "endRetiring k this p ep al th =
    (if n_LiveCount (r_nodes reg ! i) \<noteq> 0
     then Ret (k\<lparr>k_regs := (k_regs k)(this := Some (set_node reg i
            ((r_nodes reg ! i)\<lparr>n_State := SLive, n_DtorLock := False\<rparr>)))\<rparr>) ()
     else
       let k' = k\<lparr>k_regs := (k_regs k)(this := Some ((set_node reg i
            ((r_nodes reg ! i)\<lparr>n_State := SQuarantine, n_DtorLock := False\<rparr>))\<lparr>r_Count := r_Count reg - 1\<rparr>))\<rparr>
       in if length (q_list (k_queue k)) < unat (q_Capacity (k_queue k))
          then Ret (k'\<lparr>k_queue := ring_put (k_queue k) \<lparr>e_BlockSize = n_BlockSize (r_nodes reg ! i), e_Epoch = ep,
                    e_Allocator = al, e_DeallocThunk = th, e_OwningRegistry = this, e_BlockBase = p\<rparr>,
                  k_stats := statsVia (q_Stats (k_queue k)) statsOnQuarantineEnqueue (k_stats k)\<rparr>) ()
          else Trap (k'\<lparr>k_queue := (k_queue k)\<lparr>q_Tail := q_Tail (k_queue k) + 1\<rparr>,
                  k_stats := statsVia (q_Stats (k_queue k)) statsOnViolation (k_stats k)\<rparr>))"
proof -
  have p0: "p \<noteq> null" using inv h by (auto simp: reg_inv_def reg_holds_def node_ok_def)
  obtain res where r: "endRetiring_node reg p = res" by blast
  show ?thesis
  proof (cases "n_LiveCount (r_nodes reg ! i) = 0")
    case False
    have "endRetiring_node reg p = Some (set_node reg i
        ((r_nodes reg ! i)\<lparr>n_State := SLive, n_DtorLock := False\<rparr>), None)" unfolding r
      by (rule endRetiring_node_cases [OF inv r]) (use h st False reg_holds_unique [OF inv h] in auto)
    then show ?thesis using False by (simp add: endRetiring_def reg)
  next
    case True
    let ?r = "(set_node reg i ((r_nodes reg ! i)\<lparr>n_State := SQuarantine, n_DtorLock := False\<rparr>))
               \<lparr>r_Count := r_Count reg - 1\<rparr>"
    have run: "endRetiring_node reg p = Some (?r, Some (n_BlockSize (r_nodes reg ! i)))" unfolding r
      by (rule endRetiring_node_cases [OF inv r]) (use h st True reg_holds_unique [OF inv h] in auto)
    have qk: "q_inv (k_queue (k\<lparr>k_regs := (k_regs k)(this := Some ?r)\<rparr>))" using qinv by simp
    note enq = enqueue_cases [OF qk p0 own refl, of "n_BlockSize (r_nodes reg ! i)" ep al th]
    show ?thesis using True enq by (simp add: endRetiring_def reg run Let_def)
  qed
qed

text \<open>The registry after the hand-over.\<close>

lemma reg_inv_quarantined:
  assumes inv: "reg_inv reg" and h: "reg_holds reg p i" and st: "n_State (r_nodes reg ! i) = SRetiring"
  shows "reg_inv ((set_node reg i ((r_nodes reg ! i)\<lparr>n_State := SQuarantine, n_DtorLock := False\<rparr>))
      \<lparr>r_Count := r_Count reg - 1\<rparr>)"
    and "unat (r_Count reg - 1) + 1 = unat (r_Count reg)"
proof -
  have i: "i < reg_used reg" using h by (simp add: reg_holds_def)
  have c: "counted (r_nodes reg ! i)" using st by (simp add: counted_def)
  then show cnt: "unat (r_Count reg - 1) + 1 = unat (r_Count reg)"
    using reg_count_pos [OF inv i] by (subst unat_minus_one) (auto simp: unat_gt_0)
  then have "unat (r_Count reg - 1) = unat (r_Count reg) - 1" by linarith
  then show "reg_inv ((set_node reg i ((r_nodes reg ! i)\<lparr>n_State := SQuarantine, n_DtorLock := False\<rparr>))
      \<lparr>r_Count := r_Count reg - 1\<rparr>)"
    using st c by (intro reg_inv_update [OF inv i]) (simp_all add: counted_def)
qed

lemma reg_inv_relived:
  assumes "reg_inv reg" and "reg_holds reg p i" and "n_State (r_nodes reg ! i) = SRetiring"
  shows "reg_inv (set_node reg i ((r_nodes reg ! i)\<lparr>n_State := SLive, n_DtorLock := False\<rparr>))"
proof -
  have "i < reg_used reg" using assms(2) by (simp add: reg_holds_def)
  then show ?thesis using assms(3) by (intro reg_inv_set_node [OF assms(1)]) (simp_all add: counted_def)
qed

lemma endRetiring_node_inv:
  assumes "reg_inv reg" and "endRetiring_node reg p = Some (reg', r)"
  shows "reg_inv reg'"
  by (rule endRetiring_node_cases [OF assms])
    (use assms(1) reg_inv_relived reg_inv_quarantined(1) in auto)

section \<open>The life cycle of a record\<close>

text \<open>
  One operation on a registry. \<open>object\<close> is the decrement of the live count that \<open>Region::destroy\<close>
  makes between \<open>beginRetiring\<close> and \<open>endRetiring\<close>. The cursor of the node pool is a 64-bit counter;
  the step of \<open>insert\<close> that would wrap it is left out.
\<close>

inductive reg_step :: "registry \<Rightarrow> registry \<Rightarrow> bool" where
  insert: "\<lbrakk>r_NodeCursor reg \<noteq> - 1;
     registry_insert reg st p u bs us aid tid nm cnt = Some (reg', st', ok)\<rbrakk> \<Longrightarrow> reg_step reg reg'"
| begin_retiring: "beginRetiring reg p tid pol = Some (reg', r) \<Longrightarrow> reg_step reg reg'"
| object: "\<lbrakk>reg_holds reg p i; n_State (r_nodes reg ! i) = SRetiring\<rbrakk> \<Longrightarrow>
     reg_step reg (set_node reg i ((r_nodes reg ! i)\<lparr>n_LiveCount := n_LiveCount (r_nodes reg ! i) - 1\<rparr>))"
| end_retiring: "endRetiring_node reg p = Some (reg', q) \<Longrightarrow> reg_step reg reg'"
| retire: "registry_retire reg p = Some (reg', ok) \<Longrightarrow> reg_step reg reg'"

inductive_cases reg_stepE: "reg_step reg reg'"

lemma reg_inv_object:
  assumes "reg_inv reg" and "reg_holds reg p i" and "n_State (r_nodes reg ! i) = SRetiring"
  shows "reg_inv (set_node reg i ((r_nodes reg ! i)\<lparr>n_LiveCount := c\<rparr>))"
proof -
  have i: "i < reg_used reg" using assms(2) by (simp add: reg_holds_def)
  then have "n_DtorLock (r_nodes reg ! i)" using assms by (simp add: reg_inv_def node_ok_def)
  with assms(3) show ?thesis by (intro reg_inv_set_node [OF assms(1) i]) (simp_all add: counted_def)
qed

lemma reg_step_inv: "reg_step reg reg' \<Longrightarrow> reg_inv reg \<Longrightarrow> reg_inv reg'"
  by (erule reg_stepE)
    (auto intro: registry_insert_inv beginRetiring_inv reg_inv_object endRetiring_node_inv registry_retire_inv)

definition state_next :: "alloc_state \<Rightarrow> alloc_state set" where
  "state_next s = (case s of SEmpty \<Rightarrow> {} | SLive \<Rightarrow> {SRetiring} | SRetiring \<Rightarrow> {SLive, SQuarantine}
     | SQuarantine \<Rightarrow> {SDead} | SDead \<Rightarrow> {})"

text \<open>What a step may do to the record \<open>i\<close>.\<close>

definition node_evolves :: "node \<Rightarrow> node \<Rightarrow> bool" where
  "node_evolves n n' \<longleftrightarrow> n_BlockBase n' = n_BlockBase n \<and> n_Generation n' = n_Generation n
     \<and> n_BlockSize n' = n_BlockSize n \<and> n_UserPtr n' = n_UserPtr n
     \<and> (n_State n' = n_State n \<or> n_State n' \<in> state_next (n_State n))"

lemma node_evolves_refl [simp]: "node_evolves n n"
  by (simp add: node_evolves_def)

lemma node_evolves_simps [simp]:
  "node_evolves n (n\<lparr>n_DtorLock := l, n_State := s\<rparr>) \<longleftrightarrow> s = n_State n \<or> s \<in> state_next (n_State n)"
  "node_evolves n (n\<lparr>n_State := s, n_DtorLock := l\<rparr>) \<longleftrightarrow> s = n_State n \<or> s \<in> state_next (n_State n)"
  "node_evolves n (n\<lparr>n_State := s\<rparr>) \<longleftrightarrow> s = n_State n \<or> s \<in> state_next (n_State n)"
  "node_evolves n (n\<lparr>n_LiveCount := c\<rparr>)"
  by (auto simp: node_evolves_def)

lemma set_node_evolves:
  assumes "node_evolves (r_nodes reg ! i) n"
  shows "node_evolves (r_nodes reg ! j) (r_nodes (set_node reg i n) ! j)"
  using assms by (cases "i = j"; cases "i < length (r_nodes reg)")
    (auto simp: set_node_def nth_list_update list_update_beyond)

lemma reg_step_evolves:
  assumes "reg_step reg reg'" and inv: "reg_inv reg" and i: "i < reg_used reg"
  shows "reg_used reg \<le> reg_used reg' \<and> node_evolves (r_nodes reg ! i) (r_nodes reg' ! i)"
  using assms(1)
proof (cases rule: reg_step.cases)
  case (insert st p u bs us aid tid nm cnt st' ok)
  show ?thesis
  proof (rule registry_insert_cases [OF inv insert(2)])
    fix g assume "r_NodeCursor reg < r_NodeCapacity reg"
      and r: "Some (reg', st', ok) = Some (with_node reg (fresh_node reg g p u bs us aid tid nm cnt), statsOnInit bs st, True)"
    note lt = this(1)
    show ?thesis
      using r with_node_used(2) [OF lt] with_node_nth(2) [OF inv lt i] by simp
  qed (use insert(1) reg_inv_cursor(2) [OF inv] in auto)
next
  case (begin_retiring p tid pol r)
  show ?thesis
    by (rule beginRetiring_cases [OF inv begin_retiring])
      (auto simp: state_next_def intro!: set_node_evolves)
next
  case (object p j)
  then show ?thesis by (auto intro!: set_node_evolves)
next
  case (end_retiring p q)
  show ?thesis
    by (rule endRetiring_node_cases [OF inv end_retiring])
      (auto simp: state_next_def intro!: set_node_evolves)
next
  case (retire p ok)
  show ?thesis
    by (rule registry_retire_cases [OF inv retire])
      (auto simp: state_next_def intro!: set_node_evolves)
qed

lemma reg_steps_inv: "reg_step\<^sup>*\<^sup>* reg reg' \<Longrightarrow> reg_inv reg \<Longrightarrow> reg_inv reg'"
  by (induction rule: rtranclp_induct) (auto intro: reg_step_inv)

lemma reg_steps_dead:
  assumes "reg_step\<^sup>*\<^sup>* reg reg'" and "reg_inv reg" and "i < reg_used reg"
    and "n_State (r_nodes reg ! i) = SDead"
  shows "i < reg_used reg' \<and> n_State (r_nodes reg' ! i) = SDead
    \<and> n_BlockBase (r_nodes reg' ! i) = n_BlockBase (r_nodes reg ! i)
    \<and> n_Generation (r_nodes reg' ! i) = n_Generation (r_nodes reg ! i)"
  using assms(1)
proof (induction rule: rtranclp_induct)
  case base
  then show ?case using assms by simp
next
  case (step r1 r2)
  have "reg_inv r1" using step.hyps(1) assms(2) by (rule reg_steps_inv)
  from reg_step_evolves [OF step.hyps(2) this, of i] step.IH show ?case
    by (auto simp: node_evolves_def state_next_def)
qed

section \<open>Properties\<close>

text \<open>
  C7: From \<open>init\<close> on, through any sequence of registry operations by any callers, every record moves only
  along live -> retiring -> (live or quarantine), quarantine -> dead; its base and generation never
  change; an address has at most one record that is not dead; and two records of the same address
  carry different generations, the later one the larger.
\<close>

theorem registry_life_cycle:
  assumes "registry_init os e (registry_new cap) = (e', reg0, True)" and "unat cap < 2 ^ 56"
    and "reg_step\<^sup>*\<^sup>* reg0 reg" and "reg_step reg reg'"
  shows "reg_inv reg'
    \<and> (\<forall>i < reg_used reg. n_BlockBase (r_nodes reg' ! i) = n_BlockBase (r_nodes reg ! i)
         \<and> n_Generation (r_nodes reg' ! i) = n_Generation (r_nodes reg ! i)
         \<and> (n_State (r_nodes reg' ! i) = n_State (r_nodes reg ! i)
             \<or> n_State (r_nodes reg' ! i) \<in> state_next (n_State (r_nodes reg ! i))))
    \<and> (\<forall>i j. i < j \<longrightarrow> j < reg_used reg' \<longrightarrow> n_BlockBase (r_nodes reg' ! i) = n_BlockBase (r_nodes reg' ! j) \<longrightarrow>
         n_State (r_nodes reg' ! i) = SDead \<and> n_Generation (r_nodes reg' ! i) < n_Generation (r_nodes reg' ! j))"
proof -
  have "reg_inv reg0" using registry_init_inv [OF assms(1,2)] .
  then have inv: "reg_inv reg" by (rule reg_steps_inv [OF assms(3)])
  have inv': "reg_inv reg'" using reg_step_inv [OF assms(4) inv] .
  then show ?thesis
    using reg_step_evolves [OF assms(4) inv] by (auto simp: node_evolves_def reg_inv_def)
qed

definition os_giving :: "unit os_api" where
  "os_giving = \<lparr>sys_mmap = (\<lambda>e _ _ _. (e, Some 65536)), sys_mprotect = (\<lambda>e _ _ _. (e, True)),
     sys_madvise_dontneed = (\<lambda>e _ _. (e, True)), sys_munmap = (\<lambda>e _ _. (e, True)),
     sys_mincore = (\<lambda>e _ _. Some 1), sys_pagesize = (\<lambda>e. 4096)\<rparr>"

theorem registry_life_cycle_witness:
  "\<exists>reg'. registry_insert registry_demo1 stats_zero 8192 8256 256 64 1 7 0 1 = Some (reg', statsOnInit 256 stats_zero, True)
     \<and> reg_inv reg' \<and> n_BlockBase (r_nodes reg' ! 0) = 4096 \<and> n_Generation (r_nodes reg' ! 0) = 1"
proof -
  have rep: "replicate 2 node_zero = [node_zero, node_zero]" by (simp add: numeral_2_eq_2)
  have init: "registry_init os_giving () (registry_new 2) = ((), registry_demo, True)"
    by (simp add: registry_init_def os_giving_def mem_allocate_def sizeof_RegistryNode_def registry_new_def
        registry_demo_def Let_def rep)
  have cap: "unat (2 :: u64) < 2 ^ 56" by simp
  have none: "\<not> reg_holds registry_demo p i" for p i
    by (simp add: reg_holds_def registry_demo_def registry_new_def reg_used_def)
  have c0: "r_NodeCursor registry_demo < r_NodeCapacity registry_demo" "reg_used registry_demo = 0"
    by (simp_all add: registry_demo_def registry_new_def reg_used_def)
  have one: "registry_insert registry_demo stats_zero 4096 4160 256 64 1 7 0 1 = Some (registry_demo1, statsOnInit 256 stats_zero, True)"
  proof -
    have p0: "(4096 :: addr) \<noteq> null" by simp
    obtain g where g: "1 \<le> g" "unat g \<le> Suc (reg_used registry_demo)"
        "registry_insert registry_demo stats_zero 4096 4160 256 64 1 7 0 1
          = Some (with_node registry_demo (fresh_node registry_demo g 4096 4160 256 64 1 7 0 1), statsOnInit 256 stats_zero, True)"
      by (rule registry_insert_succeeds [OF registry_demo_inv p0 none c0(1)], rule that)
    then have "g = 1" by (simp add: c0 word_le_nat_alt word_unat_eq_iff)
    with g(3) show ?thesis by (simp add: registry_demo1_def)
  qed
  have s1: "reg_step registry_demo registry_demo1"
    by (rule reg_step.insert [OF _ one]) (simp add: registry_demo_def registry_new_def)
  have c: "r_NodeCursor registry_demo1 = 1" "r_NodeCapacity registry_demo1 = 2"
    by (simp_all add: registry_demo1_def with_node_def registry_demo_def registry_new_def)
  obtain reg' where two: "registry_insert registry_demo1 stats_zero 8192 8256 256 64 1 7 0 1
      = Some (reg', statsOnInit 256 stats_zero, True)"
  proof -
    have n1: "\<not> reg_holds registry_demo1 8192 i" for i
      by (cases "i = 0") (simp_all add: reg_holds_def registry_demo1_used registry_demo1_node)
    show thesis
      by (rule registry_insert_succeeds [OF registry_demo1_inv _ n1]) (use that c in simp_all)
  qed
  have s2: "reg_step registry_demo1 reg'" by (rule reg_step.insert [OF _ two]) (simp add: c)
  show ?thesis
    using registry_life_cycle [OF init cap r_into_rtranclp [where r = reg_step, OF s1] s2] two
    by (auto simp: registry_demo1_used registry_demo1_node)
qed

text \<open>
  A dead record stays dead, with the same base and generation, whatever operations follow: a freed
  allocation is never revived, not even when its address is allocated again.
\<close>

theorem registry_dead_is_final:
  assumes "reg_inv reg" and "reg_step\<^sup>*\<^sup>* reg reg'" and "i < reg_used reg"
    and "n_State (r_nodes reg ! i) = SDead"
  shows "n_State (r_nodes reg' ! i) = SDead
    \<and> n_BlockBase (r_nodes reg' ! i) = n_BlockBase (r_nodes reg ! i)
    \<and> n_Generation (r_nodes reg' ! i) = n_Generation (r_nodes reg ! i)
    \<and> registry_find reg' p \<noteq> Some (Some i)"
proof -
  have inv': "reg_inv reg'" using reg_steps_inv [OF assms(2,1)] .
  note d = reg_steps_dead [OF assms(2,1,3,4)]
  then have "\<not> reg_holds reg' p i" by (simp add: reg_holds_def)
  then have "registry_find reg' p \<noteq> Some (Some i)" using tbl.find_Some_iff [OF inv'] by blast
  with d show ?thesis by blast
qed

definition registry_dead :: registry where
  "registry_dead = (set_node registry_demo1 0 ((r_nodes registry_demo1 ! 0)\<lparr>n_State := SDead\<rparr>))\<lparr>r_Count := 0\<rparr>"

lemma registry_dead_facts:
  "reg_inv registry_dead" "reg_used registry_dead = 1" "n_State (r_nodes registry_dead ! 0) = SDead"
  "r_NodeCursor registry_dead = 1" "r_NodeCapacity registry_dead = 2"
proof -
  have len: "length (r_nodes registry_demo1) = 2"
    by (simp add: registry_demo1_def with_node_def registry_demo_def registry_new_def)
  have cnt: "unat (r_Count registry_demo1) = 1"
    by (simp add: registry_demo1_def with_node_def registry_demo_def registry_new_def)
  show "reg_inv registry_dead"
    unfolding registry_dead_def
    by (rule reg_inv_update [OF registry_demo1_inv])
      (simp_all add: registry_demo1_used registry_demo1_node counted_def cnt)
  show "reg_used registry_dead = 1" by (simp add: registry_dead_def registry_demo1_used)
  show "n_State (r_nodes registry_dead ! 0) = SDead"
    using len by (simp add: registry_dead_def set_node_def)
  show "r_NodeCursor registry_dead = 1" "r_NodeCapacity registry_dead = 2"
    by (simp_all add: registry_dead_def set_node_def registry_demo1_def with_node_def registry_demo_def registry_new_def)
qed

theorem registry_dead_is_final_witness:
  "\<exists>reg'. registry_insert registry_dead stats_zero 4096 4160 256 64 1 7 0 1 = Some (reg', statsOnInit 256 stats_zero, True)
     \<and> n_State (r_nodes reg' ! 0) = SDead \<and> registry_find reg' 4096 \<noteq> Some (Some 0)"
proof -
  have none: "\<not> reg_holds registry_dead 4096 i" for i
    by (cases "i = 0") (simp_all add: reg_holds_def registry_dead_facts)
  obtain reg' where ins: "registry_insert registry_dead stats_zero 4096 4160 256 64 1 7 0 1
      = Some (reg', statsOnInit 256 stats_zero, True)"
    by (rule registry_insert_succeeds [OF registry_dead_facts(1) _ none])
      (use that registry_dead_facts in simp_all)
  have "reg_step registry_dead reg'"
    by (rule reg_step.insert [OF _ ins]) (simp add: registry_dead_facts)
  then show ?thesis
    using registry_dead_is_final [OF registry_dead_facts(1) r_into_rtranclp [where r = reg_step], of reg' 0 4096] ins
    by (auto simp: registry_dead_facts)
qed

text \<open>
  C24: When the last object of a retiring block has been destroyed, \<open>endRetiring\<close> moves the record to
  quarantine, takes it off the live count, and appends the block to the waiting list with its recorded
  size, the given epoch and the registry itself as owner; with objects left it makes the block live
  again and queues nothing; with no room in the queue the process stops.
\<close>

theorem endRetiring_exact:
  assumes reg: "k_regs k this = Some reg" and inv: "reg_inv reg" and qinv: "q_inv (k_queue k)"
    and own: "this \<noteq> null" and wrap: "unat (q_Tail (k_queue k)) < 2 ^ 64 - 1"
    and i: "registry_find reg p = Some (Some i)" and st: "n_State (r_nodes reg ! i) = SRetiring"
  shows "if n_LiveCount (r_nodes reg ! i) \<noteq> 0
    then (\<exists>reg'. endRetiring k this p ep al th = Ret (k\<lparr>k_regs := (k_regs k)(this := Some reg')\<rparr>) ()
        \<and> reg_inv reg' \<and> n_State (r_nodes reg' ! i) = SLive \<and> r_Count reg' = r_Count reg)
    else if length (q_list (k_queue k)) < unat (q_Capacity (k_queue k))
    then (\<exists>k' reg'. endRetiring k this p ep al th = Ret k' () \<and> k_regs k' = (k_regs k)(this := Some reg')
        \<and> reg_inv reg' \<and> n_State (r_nodes reg' ! i) = SQuarantine
        \<and> unat (r_Count reg') + 1 = unat (r_Count reg)
        \<and> q_inv (k_queue k')
        \<and> q_list (k_queue k') = q_list (k_queue k) @ [\<lparr>e_BlockSize = n_BlockSize (r_nodes reg ! i),
             e_Epoch = ep, e_Allocator = al, e_DeallocThunk = th, e_OwningRegistry = this, e_BlockBase = p\<rparr>])
    else (\<exists>k'. endRetiring k this p ep al th = Trap k')"
proof -
  have h: "reg_holds reg p i" using i tbl.find_Some_iff [OF inv] by blast
  have il: "i < length (r_nodes reg)" using h reg_used_le [OF inv] by (simp add: reg_holds_def)
  have p0: "p \<noteq> null" using inv h by (auto simp: reg_inv_def reg_holds_def node_ok_def)
  note eq = endRetiring_eq [OF reg inv qinv own h st, of ep al th]
  note quar = reg_inv_quarantined [OF inv h st] and live = reg_inv_relived [OF inv h st]
  show ?thesis
  proof (cases "n_LiveCount (r_nodes reg ! i) = 0 \<and> length (q_list (k_queue k)) < unat (q_Capacity (k_queue k))")
    case True
    let ?e = "\<lparr>e_BlockSize = n_BlockSize (r_nodes reg ! i), e_Epoch = ep, e_Allocator = al, e_DeallocThunk = th,
        e_OwningRegistry = this, e_BlockBase = p\<rparr>"
    have acc: "ring_accepts (k_queue k) ?e" using True wrap p0 by (simp add: ring_accepts_def)
    let ?r = "(set_node reg i ((r_nodes reg ! i)\<lparr>n_State := SQuarantine, n_DtorLock := False\<rparr>))\<lparr>r_Count := r_Count reg - 1\<rparr>"
    have "\<exists>reg'. (k_regs k)(this := Some ?r) = (k_regs k)(this := Some reg') \<and> reg_inv reg'
        \<and> n_State (r_nodes reg' ! i) = SQuarantine \<and> unat (r_Count reg') + 1 = unat (r_Count reg)"
      using quar il by (intro exI [of _ ?r]) (simp add: set_node_def)
    then show ?thesis
      using True ring.put_inv [OF qinv acc] ring.put_contents [OF qinv acc] by (simp add: eq Let_def)
  next
    case False
    let ?l = "set_node reg i ((r_nodes reg ! i)\<lparr>n_State := SLive, n_DtorLock := False\<rparr>)"
    have alive: "n_State (r_nodes ?l ! i) = SLive" "r_Count ?l = r_Count reg" using il by (simp_all add: set_node_def)
    show ?thesis
    proof (cases "n_LiveCount (r_nodes reg ! i) = 0")
      case True
      with False show ?thesis by (simp add: eq Let_def)
    next
      case False
      then show ?thesis using live alive by (simp add: eq) (intro exI [of _ ?l], simp)
    qed
  qed
qed

definition registry_retiring :: registry where
  "registry_retiring = set_node registry_demo1 0
     ((r_nodes registry_demo1 ! 0)\<lparr>n_LiveCount := 0, n_State := SRetiring, n_DtorLock := True\<rparr>)"

theorem endRetiring_exact_witness:
  "\<exists>k'. endRetiring (demo_core\<lparr>k_regs := [16 \<mapsto> registry_retiring],
        k_queue := ring_drop (k_queue demo_core)\<rparr>) 16 4096 7 8 None = Ret k' ()
     \<and> map e_BlockBase (q_list (k_queue k')) = [8192, 4096]"
proof -
  let ?k = "demo_core\<lparr>k_regs := [16 \<mapsto> registry_retiring], k_queue := ring_drop (k_queue demo_core)\<rparr>"
  have len: "length (r_nodes registry_demo1) = 2"
    by (simp add: registry_demo1_def with_node_def registry_demo_def registry_new_def)
  have inv: "reg_inv registry_retiring"
    unfolding registry_retiring_def
    by (rule reg_inv_set_node [OF registry_demo1_inv])
      (simp_all add: registry_demo1_used registry_demo1_node counted_def)
  have node: "n_State (r_nodes registry_retiring ! 0) = SRetiring" "n_LiveCount (r_nodes registry_retiring ! 0) = 0"
    "n_BlockBase (r_nodes registry_retiring ! 0) = 4096" "reg_used registry_retiring = 1"
    using len by (simp_all add: registry_retiring_def registry_demo1_used)
      (simp_all add: set_node_def registry_demo1_node)
  then have "reg_holds registry_retiring 4096 0" by (simp add: reg_holds_def)
  then have f: "registry_find registry_retiring 4096 = Some (Some 0)" using tbl.find_Some_iff [OF inv] by blast
  have ne: "q_list (k_queue demo_core) \<noteq> []" by (simp add: demo_core_queue)
  note dr = ring_drop_spec [OF demo_core_queue(1) ne]
  have q: "q_inv (k_queue ?k)" "q_list (k_queue ?k) = [demo_entry 8192 6]"
    "q_Capacity (k_queue ?k) = 2" "q_Tail (k_queue ?k) = 2"
    using dr(1,2) demo_core_queue by (simp_all add: demo_core_queue) (simp_all add: ring_drop_def demo_core_queue)
  have r: "k_regs ?k 16 = Some registry_retiring" by simp
  have w: "unat (q_Tail (k_queue ?k)) < 2 ^ 64 - 1" by (simp only: q) simp
  have own: "(16 :: addr) \<noteq> null" by simp
  from endRetiring_exact [OF r inv q(1) own w f node(1), of 7 8 None] show ?thesis
    unfolding q node by (auto simp: demo_entry_def)
qed

end
