(* ===== verification/Kerbecs_RegionTable.thy ===== *)
theory Kerbecs_RegionTable
  imports Kerbecs_Memory Kerbecs_Registry
begin

text \<open>
  \<open>src/Public/RegionRecord.h\<close> and \<open>src/Private/RegionRecord.cpp\<close>: the process-wide table that maps an
  address to the region around it. \<open>REGION_TABLE_CAPACITY\<close> is a build option and a parameter here.
  The file-scope variables \<open>s_Records\<close>, \<open>s_Count\<close> and \<open>s_RegisterLock\<close> are the record \<open>region_table\<close>;
  \<open>None\<close> stands for an access outside the table or a lock that is never released.
\<close>

record region_record =
  rr_RegionPtr :: addr
  rr_ShadowMapBase :: addr
  rr_MetadataMapBase :: addr
  rr_RegionBase :: addr
  rr_RegionSize :: u64

record region_table =
  t_Records :: addr
  t_records :: "region_record list"
  t_Count :: u64
  t_RegisterLock :: bool

definition region_record_zero :: region_record where
  "region_record_zero = \<lparr>rr_RegionPtr = null, rr_ShadowMapBase = null, rr_MetadataMapBase = null,
     rr_RegionBase = null, rr_RegionSize = 0\<rparr>"

definition region_table_new :: region_table where
  "region_table_new = \<lparr>t_Records = null, t_records = [], t_Count = 0, t_RegisterLock = False\<rparr>"

definition sizeof_RegionRecord :: u64 where "sizeof_RegionRecord = 64"

definition initRegionTable ::
  "'e os_api \<Rightarrow> u64 \<Rightarrow> 'e \<Rightarrow> region_table \<Rightarrow> 'e \<times> region_table \<times> bool" where
  "initRegionTable os cap e t =
     (if t_Records t \<noteq> null then (e, t, True)
      else
        let bytes = cap * sizeof_RegionRecord;
            (e', records) = mem_allocate os e bytes;
            t = t\<lparr>t_Records := records, t_records := []\<rparr>
        in if records = null then (e', t, False)
           else (e', t\<lparr>t_records := replicate (unat bytes div 64) region_record_zero, t_Count := 0\<rparr>, True))"

definition shutdownRegionTable ::
  "'e os_api \<Rightarrow> u64 \<Rightarrow> 'e \<Rightarrow> region_table \<Rightarrow> 'e \<times> region_table" where
  "shutdownRegionTable os cap e t =
     (let (e', t) =
            (if t_Records t \<noteq> null
             then let (e', released) = mem_release os e (t_Records t) (cap * sizeof_RegionRecord)
                  in (e', t\<lparr>t_Records := null, t_records := []\<rparr>)
             else (e, t))
      in (e', t\<lparr>t_Count := 0\<rparr>))"

definition registerRegionRecord ::
  "u64 \<Rightarrow> region_table \<Rightarrow> addr \<Rightarrow> addr \<Rightarrow> addr \<Rightarrow> addr \<Rightarrow> u64 \<Rightarrow> (region_table \<times> bool) option" where
  "registerRegionRecord cap t p_Region p_ShadowMapBase p_MetadataMapBase p_RegionBase v_RegionSize =
     (if t_Records t = null \<or> p_Region = null then Some (t, False)
      else
        (case spin_lock (t_RegisterLock t) of
           None \<Rightarrow> None
         | Some held \<Rightarrow>
             let t = t\<lparr>t_RegisterLock := held\<rparr>;
                 idx = t_Count t
             in if idx \<ge> cap then Some (t\<lparr>t_RegisterLock := spin_unlock held\<rparr>, False)
                else if \<not> unat idx < length (t_records t) then None
                else
                  let rec = \<lparr>rr_RegionPtr = p_Region, rr_ShadowMapBase = p_ShadowMapBase,
                        rr_MetadataMapBase = p_MetadataMapBase, rr_RegionBase = p_RegionBase,
                        rr_RegionSize = v_RegionSize\<rparr>
                  in Some (t\<lparr>t_records := (t_records t)[unat idx := rec], t_Count := idx + 1,
                            t_RegisterLock := spin_unlock held\<rparr>, True)))"

lemma unat_suc_below: "(i :: u64) < count \<Longrightarrow> unat (i + 1) = Suc (unat i)"
proof -
  assume "i < count"
  then have "unat i < unat count" by (simp add: word_less_nat_alt)
  then show ?thesis using unat_lt_64 [of count] by (intro unat_succ_nowrap) linarith
qed

function resolve_loop :: "region_record list \<Rightarrow> addr \<Rightarrow> u64 \<Rightarrow> u64 \<Rightarrow> nat option option" where
  "resolve_loop recs addr i count =
     (if \<not> i < count then Some None
      else if \<not> unat i < length recs then None
      else
        let rec = recs ! unat i
        in if rr_RegionBase rec = null then resolve_loop recs addr (i + 1) count
           else
             let base = rr_RegionBase rec
             in if addr \<ge> base \<and> addr - base < rr_RegionSize rec then Some (Some (unat i))
                else resolve_loop recs addr (i + 1) count)"
  by pat_completeness auto

termination
  by (relation "measure (\<lambda>(_, _, i, count). unat count - unat i)")
    (auto simp: unat_suc_below word_less_nat_alt intro: diff_less_mono2)

declare resolve_loop.simps [simp del]

definition resolveRegion :: "region_table \<Rightarrow> addr \<Rightarrow> nat option option" where
  "resolveRegion t p_Address =
     (if t_Records t = null \<or> p_Address = null then Some None
      else resolve_loop (t_records t) p_Address 0 (t_Count t))"

section \<open>Lookup\<close>

definition table_inv :: "u64 \<Rightarrow> region_table \<Rightarrow> bool" where
  "table_inv cap t \<longleftrightarrow> t_Records t \<noteq> null \<and> \<not> t_RegisterLock t \<and> length (t_records t) = unat cap
     \<and> unat (t_Count t) \<le> unat cap"

definition covers :: "region_record \<Rightarrow> addr \<Rightarrow> bool" where
  "covers r a \<longleftrightarrow> rr_RegionBase r \<noteq> null \<and> rr_RegionBase r \<le> a \<and> a - rr_RegionBase r < rr_RegionSize r"

definition registered :: "region_table \<Rightarrow> region_record list" where
  "registered t = take (unat (t_Count t)) (t_records t)"

lemma resolve_loop_eq:
  assumes "unat count \<le> length recs" and "unat i \<le> unat count"
  shows "resolve_loop recs a i count =
    Some (List.find (\<lambda>j. covers (recs ! j) a) [unat i..<unat count])"
  using assms
proof (induction "unat count - unat i" arbitrary: i)
  case 0
  then show ?case by (subst resolve_loop.simps) (simp add: word_less_nat_alt)
next
  case (Suc n)
  then have lt: "i < count" "unat i < unat count" by (simp_all add: word_less_nat_alt)
  note nx = unat_suc_below [OF lt(1)]
  have up: "[unat i..<unat count] = unat i # [unat (i + 1)..<unat count]"
    using lt(2) by (simp add: nx upt_conv_Cons)
  have IH: "resolve_loop recs a (i + 1) count =
      Some (List.find (\<lambda>j. covers (recs ! j) a) [unat (i + 1)..<unat count])"
    using Suc.hyps(2) Suc.prems lt nx by (intro Suc.hyps(1)) simp_all
  show ?case
    unfolding up using lt Suc.prems
    by (subst resolve_loop.simps) (simp add: IH Let_def covers_def)
qed

lemma find_upt_Some:
  "List.find P [a..<b] = Some i \<longleftrightarrow> a \<le> i \<and> i < b \<and> P i \<and> (\<forall>j. a \<le> j \<longrightarrow> j < i \<longrightarrow> \<not> P j)"
proof (induction "b - a" arbitrary: a)
  case (Suc n)
  then have up: "[a..<b] = a # [Suc a..<b]" by (simp add: upt_conv_Cons)
  show ?case
  proof (cases "P a")
    case True
    then show ?thesis unfolding up using Suc.hyps(2) by (auto simp: le_less)
  next
    case False
    have "List.find P [Suc a..<b] = Some i \<longleftrightarrow> Suc a \<le> i \<and> i < b \<and> P i \<and> (\<forall>j. Suc a \<le> j \<longrightarrow> j < i \<longrightarrow> \<not> P j)"
      using Suc.hyps(2) by (intro Suc.hyps(1)) simp
    then show ?thesis unfolding up using False
      by simp (metis Suc_le_eq le_neq_implies_less less_imp_le_nat)
  qed
qed simp

lemma resolveRegion_eq:
  assumes "table_inv cap t" and "a \<noteq> null"
  obtains r where "resolveRegion t a = Some r"
    and "\<And>i. r = Some i \<longleftrightarrow> i < unat (t_Count t) \<and> covers (t_records t ! i) a
        \<and> (\<forall>j < i. \<not> covers (t_records t ! j) a)"
proof -
  have "resolveRegion t a =
      Some (List.find (\<lambda>j. covers (t_records t ! j) a) [0..<unat (t_Count t)])"
    using assms resolve_loop_eq [of "t_Count t" "t_records t" 0 a]
    by (simp add: resolveRegion_def table_inv_def)
  then show thesis by (rule that) (auto simp: find_upt_Some)
qed

section \<open>Properties\<close>

text \<open>
  Registering a region succeeds exactly when the table has a free entry and the region pointer is
  not null; it fills the next entry, never changes an earlier one, and publishes one more; a failure
  changes nothing.
\<close>

theorem region_register_exact:
  assumes "table_inv cap t"
  shows "\<exists>t' ok. registerRegionRecord cap t p sh md b sz = Some (t', ok) \<and> table_inv cap t'
    \<and> (ok \<longleftrightarrow> p \<noteq> null \<and> t_Count t < cap)
    \<and> (\<not> ok \<longrightarrow> t' = t)
    \<and> (ok \<longrightarrow> registered t' = registered t @ [\<lparr>rr_RegionPtr = p, rr_ShadowMapBase = sh,
          rr_MetadataMapBase = md, rr_RegionBase = b, rr_RegionSize = sz\<rparr>])"
proof -
  let ?rec = "\<lparr>rr_RegionPtr = p, rr_ShadowMapBase = sh, rr_MetadataMapBase = md, rr_RegionBase = b, rr_RegionSize = sz\<rparr>"
  consider "p = null" | "p \<noteq> null" "cap \<le> t_Count t" | "p \<noteq> null" "t_Count t < cap" by fastforce
  then show ?thesis
  proof cases
    case 1
    then show ?thesis using assms by (auto simp: registerRegionRecord_def)
  next
    case 2
    have "t\<lparr>t_RegisterLock := False\<rparr> = t" using assms by (cases t) (simp add: table_inv_def)
    then show ?thesis
      using 2 assms by (auto simp: registerRegionRecord_def table_inv_def spin_lock_def spin_unlock_def Let_def)
  next
    case 3
    let ?t = "t\<lparr>t_RegisterLock := True, t_records := (t_records t)[unat (t_Count t) := ?rec],
        t_Count := t_Count t + 1, t_RegisterLock := False\<rparr>"
    have lt: "unat (t_Count t) < unat cap" using 3 by (simp add: word_less_nat_alt)
    note nx = unat_suc_below [OF 3(2)]
    have "registerRegionRecord cap t p sh md b sz = Some (?t, True)"
      using 3 lt assms by (simp add: registerRegionRecord_def table_inv_def spin_lock_def spin_unlock_def Let_def not_le)
    moreover have "registered ?t = registered t @ [?rec]"
      using lt nx assms by (simp add: registered_def table_inv_def take_Suc_conv_app_nth)
    moreover have "table_inv cap ?t" using assms lt nx by (simp add: table_inv_def)
    ultimately show ?thesis using 3 by blast
  qed
qed

definition table_example :: region_table where
  "table_example = \<lparr>t_Records = 64, t_records = [\<lparr>rr_RegionPtr = 8, rr_ShadowMapBase = 1, rr_MetadataMapBase = 2,
      rr_RegionBase = 4096, rr_RegionSize = 4096\<rparr>, region_record_zero], t_Count = 1, t_RegisterLock = False\<rparr>"

lemma table_example_inv: "table_inv 2 table_example"
  by (simp add: table_inv_def table_example_def)

theorem region_register_exact_witness:
  "\<exists>t'. registerRegionRecord 2 table_example 16 3 4 8192 100 = Some (t', True) \<and> length (registered t') = 2"
proof -
  have "t_Count table_example < 2" "length (registered table_example) = 1"
    by (simp_all add: table_example_def registered_def)
  with region_register_exact [OF table_example_inv, of 16 3 4 8192 100] show ?thesis by auto
qed

text \<open>
  \<open>resolveRegion\<close> returns, and finds the earliest registered record whose range contains the address,
  or nothing when no record's does. As records are never removed, a record registered later for a range
  that an earlier one still covers (a new region in the place of a destroyed one) is never found.
\<close>

theorem region_resolve_earliest:
  assumes inv: "table_inv cap t" and a: "a \<noteq> null"
  shows "(\<exists>r. resolveRegion t a = Some r
      \<and> (\<forall>i. r = Some i \<longleftrightarrow> i < length (registered t) \<and> covers (registered t ! i) a
            \<and> (\<forall>j < i. \<not> covers (registered t ! j) a)))
    \<and> ((\<exists>rec \<in> set (registered t). covers rec a) \<longrightarrow>
        (\<forall>t'. registerRegionRecord cap t p sh md b sz = Some (t', True) \<longrightarrow> resolveRegion t' a = resolveRegion t a))"
proof (intro conjI impI allI)
  have len: "length (registered t) = unat (t_Count t)" "\<And>i. i < unat (t_Count t) \<Longrightarrow> registered t ! i = t_records t ! i"
    using inv by (simp_all add: registered_def table_inv_def)
  obtain r where r: "resolveRegion t a = Some r"
    "\<And>i. r = Some i \<longleftrightarrow> i < unat (t_Count t) \<and> covers (t_records t ! i) a \<and> (\<forall>j < i. \<not> covers (t_records t ! j) a)"
    using resolveRegion_eq [OF inv a] by blast
  have iff: "r = Some i \<longleftrightarrow> i < length (registered t) \<and> covers (registered t ! i) a
            \<and> (\<forall>j < i. \<not> covers (registered t ! j) a)" for i
    unfolding r(2) len(1) using len(2) by (auto dest: order_less_trans)
  then show "\<exists>r. resolveRegion t a = Some r \<and> (\<forall>i. r = Some i \<longleftrightarrow> i < length (registered t)
      \<and> covers (registered t ! i) a \<and> (\<forall>j < i. \<not> covers (registered t ! j) a))"
    using r(1) by blast
  fix t' assume ex: "\<exists>rec \<in> set (registered t). covers rec a"
    and reg: "registerRegionRecord cap t p sh md b sz = Some (t', True)"
  have t': "t_records t' = (t_records t)[unat (t_Count t) := \<lparr>rr_RegionPtr = p, rr_ShadowMapBase = sh,
      rr_MetadataMapBase = md, rr_RegionBase = b, rr_RegionSize = sz\<rparr>]" "t_Count t' = t_Count t + 1"
      "t_Count t < cap" "t_Records t' = t_Records t" "\<not> t_RegisterLock t'"
    using reg inv by (auto simp: registerRegionRecord_def table_inv_def spin_lock_def spin_unlock_def Let_def
        split: if_splits)
  note nx = unat_suc_below [OF t'(3)]
  have inv': "table_inv cap t'" using inv t' nx by (auto simp: table_inv_def word_less_nat_alt)
  obtain r' where r': "resolveRegion t' a = Some r'"
    "\<And>i. r' = Some i \<longleftrightarrow> i < unat (t_Count t') \<and> covers (t_records t' ! i) a \<and> (\<forall>j < i. \<not> covers (t_records t' ! j) a)"
    using resolveRegion_eq [OF inv' a] by blast
  obtain k where k: "k < length (registered t)" "covers (registered t ! k) a"
    using ex by (auto simp: in_set_conv_nth)
  then have ex': "\<exists>k. k < unat (t_Count t) \<and> covers (t_records t ! k) a" using len by auto
  define m where "m = (LEAST k. k < unat (t_Count t) \<and> covers (t_records t ! k) a)"
  have m: "m < unat (t_Count t)" "covers (t_records t ! m) a"
    using LeastI_ex [OF ex'] by (simp_all add: m_def)
  have least: "\<not> covers (t_records t ! j) a" if "j < m" for j
  proof
    assume "covers (t_records t ! j) a"
    then have "m \<le> j" unfolding m_def using that m(1) by (intro Least_le) linarith
    then show False using that by simp
  qed
  have "r = Some m" using r(2) m least by blast
  moreover have "r' = Some m" using m least unfolding r'(2) t' nx by auto
  ultimately show "resolveRegion t' a = resolveRegion t a" using r(1) r'(1) by simp
qed

theorem region_resolve_earliest_witness:
  "\<exists>t'. registerRegionRecord 2 table_example 16 3 4 4096 4096 = Some (t', True)
     \<and> resolveRegion t' 5000 = resolveRegion table_example 5000"
proof -
  let ?r = "registerRegionRecord 2 table_example 16 3 4 4096 4096"
  have "\<exists>t'. ?r = Some (t', True)"
    by (simp add: registerRegionRecord_def table_example_def spin_lock_def spin_unlock_def Let_def
        word_le_nat_alt)
  then obtain t' where t': "?r = Some (t', True)" by blast
  have "\<exists>rec \<in> set (registered table_example). covers rec 5000"
    by (simp add: registered_def table_example_def covers_def)
  then show ?thesis
    using region_resolve_earliest [OF table_example_inv, of 5000 16 3 4 4096 4096] t' by auto
qed

end
