(* ===== verification/Kerbecs_Runtime.thy ===== *)
theory Kerbecs_Runtime
  imports Kerbecs_Allocators Kerbecs_Retire Kerbecs_RegionTable
begin

text \<open>
  \<open>src/Public/KerbecsRuntime.h\<close> and \<open>src/Private/KerbecsRuntime.cpp\<close>: the process-wide runtime with its
  reserved zones, their bump allocators, the quarantine, and the drain thread that advances the epoch.
  The epoch, the counters and the queue are in \<open>rt_core\<close>, with the registries and the environment; the
  region table, file-scope data of \<open>RegionRecord.cpp\<close>, is \<open>rt_table\<close>. The sizes of the zones, of the
  quarantine and of the region table are build options (\<open>CMakeLists.txt\<close>), here a record \<open>config\<close>.

  \<open>MemorySupport\<close> (\<open>src/Public/MemorySupport.h\<close>) is a pointer to an allocator; in the runtime it can
  only be null or the runtime's own allocator, which a boolean tells. \<open>Trap\<close> is \<open>std::terminate\<close>, the
  effect of assigning to a joinable \<open>std::thread\<close>.
\<close>

record config =
  c_SHADOWZONE_SIZE :: u64
  c_GLOBALZONE_SIZE :: u64
  c_STATICZONE_SIZE :: u64
  c_METADATAZONE_SIZE :: u64
  c_QUARANTINE_CAPACITY :: u64
  c_REGION_TABLE_CAPACITY :: u64
  c_REGISTRY_CAPACITY :: u64

definition default_config :: config where
  "default_config = \<lparr>c_SHADOWZONE_SIZE = 1500, c_GLOBALZONE_SIZE = 500, c_STATICZONE_SIZE = 500,
     c_METADATAZONE_SIZE = 500, c_QUARANTINE_CAPACITY = 4096, c_REGION_TABLE_CAPACITY = 1024,
     c_REGISTRY_CAPACITY = 4096\<rparr>"

definition MEMORY_ZONE_ADDRESS :: addr where "MEMORY_ZONE_ADDRESS = 0x0000100000000000"

record 'e runtime =
  rt_MemoryZone :: addr
  rt_ShadowZone :: addr
  rt_GlobalZone :: addr
  rt_StaticZone :: addr
  rt_MetadataZone :: addr
  rt_ShadowzoneAllocatorImpl :: bump
  rt_StaticAllocatorImpl :: bump
  rt_GlobalAllocatorImpl :: bump
  rt_MetadataZoneAllocatorImpl :: bump
  rt_ShadowzoneAllocator :: bool
  rt_StaticAllocator :: bool
  rt_GlobalAllocator :: bool
  rt_MetadataZoneAllocator :: bool
  rt_core :: "'e kcore"
  rt_table :: region_table
  rt_Initialized :: bool
  rt_Shutdown :: bool
  rt_DrainThread :: bool
  rt_DrainRunning :: bool

definition bump_new :: bump where
  "bump_new = \<lparr>ba_base = null, ba_size = 0, ba_bump = 0\<rparr>"

definition runtime_new :: "'e \<Rightarrow> 'e runtime" where
  "runtime_new e = \<lparr>rt_MemoryZone = null, rt_ShadowZone = null, rt_GlobalZone = null,
     rt_StaticZone = null, rt_MetadataZone = null, rt_ShadowzoneAllocatorImpl = bump_new,
     rt_StaticAllocatorImpl = bump_new, rt_GlobalAllocatorImpl = bump_new,
     rt_MetadataZoneAllocatorImpl = bump_new, rt_ShadowzoneAllocator = False,
     rt_StaticAllocator = False, rt_GlobalAllocator = False, rt_MetadataZoneAllocator = False,
     rt_core = \<lparr>k_stats = stats_zero, k_epoch = 0, k_queue = queue_new, k_regs = (\<lambda>_. None), k_env = e\<rparr>,
     rt_table = region_table_new, rt_Initialized = False, rt_Shutdown = False,
     rt_DrainThread = False, rt_DrainRunning = False\<rparr>"

section \<open>init\<close>

definition shadowBytes :: "config \<Rightarrow> u64" where "shadowBytes c = c_SHADOWZONE_SIZE c * GIBI_BYTE"
definition globalBytes :: "config \<Rightarrow> u64" where "globalBytes c = c_GLOBALZONE_SIZE c * GIBI_BYTE"
definition staticBytes :: "config \<Rightarrow> u64" where "staticBytes c = c_STATICZONE_SIZE c * GIBI_BYTE"
definition metadataBytes :: "config \<Rightarrow> u64" where "metadataBytes c = c_METADATAZONE_SIZE c * GIBI_BYTE"

definition runtime_init ::
  "'e os_api \<Rightarrow> config \<Rightarrow> 'e runtime \<Rightarrow> ('e runtime, bool) outcome" where
  "runtime_init os c rt =
     (if rt_Initialized rt then Ret rt True
      else
        let totalBytes = shadowBytes c + globalBytes c + staticBytes c + metadataBytes c;
            (e, zone) = mem_reserveAt os (k_env (rt_core rt)) MEMORY_ZONE_ADDRESS totalBytes;
            rt = rt\<lparr>rt_MemoryZone := zone, rt_core := (rt_core rt)\<lparr>k_env := e\<rparr>\<rparr>
        in if zone = null then Ret rt False
           else
             let base = zone;
                 rt = rt\<lparr>rt_ShadowZone := base,
                         rt_GlobalZone := base + shadowBytes c,
                         rt_StaticZone := base + shadowBytes c + globalBytes c,
                         rt_MetadataZone := base + shadowBytes c + globalBytes c + staticBytes c\<rparr>;
                 rt = rt\<lparr>rt_ShadowzoneAllocatorImpl :=
                           Bump_init (rt_ShadowzoneAllocatorImpl rt) (rt_ShadowZone rt) (shadowBytes c),
                         rt_GlobalAllocatorImpl :=
                           Bump_init (rt_GlobalAllocatorImpl rt) (rt_GlobalZone rt) (globalBytes c),
                         rt_StaticAllocatorImpl :=
                           Bump_init (rt_StaticAllocatorImpl rt) (rt_StaticZone rt) (staticBytes c),
                         rt_MetadataZoneAllocatorImpl :=
                           Bump_init (rt_MetadataZoneAllocatorImpl rt) (rt_MetadataZone rt) (metadataBytes c)\<rparr>;
                 rt = rt\<lparr>rt_ShadowzoneAllocator := True, rt_StaticAllocator := True,
                         rt_GlobalAllocator := True, rt_MetadataZoneAllocator := True\<rparr>;
                 (e, q, queued) = queue_init os (k_env (rt_core rt)) (k_queue (rt_core rt))
                                    (c_QUARANTINE_CAPACITY c) True;
                 rt = rt\<lparr>rt_core := (rt_core rt)\<lparr>k_env := e, k_queue := q\<rparr>\<rparr>;
                 (e, t, tabled) =
                   (if queued then initRegionTable os (c_REGION_TABLE_CAPACITY c) (k_env (rt_core rt)) (rt_table rt)
                    else (k_env (rt_core rt), rt_table rt, False));
                 rt = rt\<lparr>rt_core := (rt_core rt)\<lparr>k_env := e\<rparr>, rt_table := t\<rparr>
             in if \<not> queued \<or> \<not> tabled
                then
                  let (e, q) = queue_shutdown os (k_env (rt_core rt)) (k_queue (rt_core rt));
                      (e, t) = shutdownRegionTable os (c_REGION_TABLE_CAPACITY c) e (rt_table rt);
                      (e, released) = mem_release os e (rt_MemoryZone rt) totalBytes
                  in Ret (rt\<lparr>rt_core := (rt_core rt)\<lparr>k_env := e, k_queue := q\<rparr>, rt_table := t,
                            rt_MemoryZone := null, rt_ShadowZone := null, rt_GlobalZone := null,
                            rt_StaticZone := null, rt_MetadataZone := null,
                            rt_Shutdown := False, rt_Initialized := False\<rparr>) False
                else
                  let rt = rt\<lparr>rt_Shutdown := False, rt_Initialized := True, rt_DrainRunning := True\<rparr>
                  in if rt_DrainThread rt then Trap rt
                     else Ret (rt\<lparr>rt_DrainThread := True\<rparr>) True)"

definition initShadowzone :: "'e os_api \<Rightarrow> config \<Rightarrow> 'e runtime \<Rightarrow> ('e runtime, bool) outcome" where
  "initShadowzone os c rt = runtime_init os c rt"

section \<open>The drain thread\<close>

definition drain_tick :: "'e kcore \<Rightarrow> 'e kcore option" where
  "drain_tick k =
     (case queue_flushEligible (k\<lparr>k_epoch := k_epoch k + 1\<rparr>) (- 1) False of
        None \<Rightarrow> None
      | Some (k', flushed) \<Rightarrow> Some k')"

text \<open>
  \<open>_drainLoop\<close> reads \<open>m_DrainRunning\<close> before and after each sleep; the list holds the values it has read
  so far. The result is the state when the loop has ended or has used up the list.
\<close>

fun drainLoop :: "'e kcore \<Rightarrow> bool list \<Rightarrow> 'e kcore option" where
  "drainLoop k [] = Some k"
| "drainLoop k [running] = Some k"
| "drainLoop k (running # running' # reads) =
     (if \<not> running then Some k
      else if \<not> running' then Some k
      else (case drain_tick k of None \<Rightarrow> None | Some k' \<Rightarrow> drainLoop k' reads))"

section \<open>teardown and the zones\<close>

definition teardownShadowzone ::
  "'e os_api \<Rightarrow> config \<Rightarrow> 'e runtime \<Rightarrow> ('e runtime \<times> bool) option" where
  "teardownShadowzone os c zone =
     (if rt_Shutdown zone then Some (zone, False)
      else
        let zone = zone\<lparr>rt_Shutdown := True\<rparr>;
            zone = zone\<lparr>rt_DrainRunning := False\<rparr>;
            zone = (if rt_DrainThread zone then zone\<lparr>rt_DrainThread := False\<rparr> else zone)
        in (case queue_flushEligible (rt_core zone) (- 1) True of
              None \<Rightarrow> None
            | Some (k, flushed) \<Rightarrow>
                let (e, q) = queue_shutdown os (k_env k) (k_queue k);
                    (e, t) = shutdownRegionTable os (c_REGION_TABLE_CAPACITY c) e (rt_table zone);
                    totalBytes = (c_SHADOWZONE_SIZE c + c_GLOBALZONE_SIZE c + c_STATICZONE_SIZE c
                                  + c_METADATAZONE_SIZE c) * GIBI_BYTE;
                    (e, released) = mem_release os e (rt_MemoryZone zone) totalBytes
                in Some (zone\<lparr>rt_core := k\<lparr>k_env := e, k_queue := q\<rparr>, rt_table := t,
                              rt_MemoryZone := null, rt_ShadowZone := null, rt_GlobalZone := null,
                              rt_StaticZone := null, rt_MetadataZone := null,
                              rt_Initialized := False\<rparr>, True)))"

text \<open>\<open>alignof(std::max_align_t)\<close> is 16 on x86-64.\<close>

definition alignof_max_align_t :: u64 where "alignof_max_align_t = 16"

definition shadowzoneAllocate :: "'e runtime \<Rightarrow> u64 \<Rightarrow> 'e runtime \<times> addr" where
  "shadowzoneAllocate rt v_Bytes =
     (case Shadowzone_allocate (rt_ShadowzoneAllocatorImpl rt) v_Bytes alignof_max_align_t of
        (ba, p) \<Rightarrow> (rt\<lparr>rt_ShadowzoneAllocatorImpl := ba\<rparr>, p))"

definition metadataZoneAllocate ::
  "'e os_api \<Rightarrow> 'e runtime \<Rightarrow> u64 \<Rightarrow> u64 \<Rightarrow> ('e runtime \<times> addr) option" where
  "metadataZoneAllocate os rt v_Bytes v_Align =
     (case MetadataZone_allocate os (k_env (rt_core rt)) (rt_MetadataZoneAllocatorImpl rt) v_Bytes v_Align of
        None \<Rightarrow> None
      | Some (e, ba, p) \<Rightarrow>
          Some (rt\<lparr>rt_MetadataZoneAllocatorImpl := ba, rt_core := (rt_core rt)\<lparr>k_env := e\<rparr>\<rparr>, p))"

definition runtime_registerRegion ::
  "config \<Rightarrow> 'e runtime \<Rightarrow> addr \<Rightarrow> addr \<Rightarrow> addr \<Rightarrow> u64 \<Rightarrow> addr \<Rightarrow> ('e runtime \<times> bool) option" where
  "runtime_registerRegion c rt p_Region p_ShadowMapBase p_MetadataMapBase v_Size p_RegionBase =
     (case registerRegionRecord (c_REGION_TABLE_CAPACITY c) (rt_table rt) p_Region p_ShadowMapBase
             p_MetadataMapBase p_RegionBase v_Size of
        None \<Rightarrow> None
      | Some (t, ok) \<Rightarrow> Some (rt\<lparr>rt_table := t\<rparr>, ok))"

section \<open>Invariants after init\<close>

lemma unat_gib:
  assumes "unat a * 1073741824 < 18446744073709551616"
  shows "unat (a * GIBI_BYTE) = unat a * 1073741824"
  using assms by (simp add: GIBI_BYTE_def unat_word_ariths)

lemma queue_init_inv:
  assumes "queue_init os e q cap True = (e', q', True)" and "is_pow2 cap" and "unat cap < 2 ^ 58"
  shows "q_inv q'" and "q_list q' = []" and "q_Stats q'" and "q_FlushLock q' = q_FlushLock q"
proof -
  have bytes: "unat (cap * sizeof_QuarantineEntry) = unat cap * 64"
    using assms(3) by (simp add: sizeof_QuarantineEntry_def unat_word_ariths)
  then have q': "q_Slots q' \<noteq> null" "q_slots q' = replicate (unat cap) qentry_zero" "q_Capacity q' = cap"
    "q_Head q' = 0" "q_Tail q' = 0" "q_Stats q'" "q_FlushLock q' = q_FlushLock q"
    using assms(1) by (auto simp: queue_init_def Let_def split: if_splits prod.splits)
  then show "q_inv q'" using assms(2) by (simp add: q_inv_def q_window_def)
  show "q_list q' = []" using q' by (simp add: q_list_def)
  show "q_Stats q'" "q_FlushLock q' = q_FlushLock q" using q' by simp_all
qed

definition zone_ok :: "bump \<Rightarrow> addr \<Rightarrow> u64 \<Rightarrow> bool" where
  "zone_ok ba base sz \<longleftrightarrow> ba_base ba = base \<and> ba_size ba = sz \<and> ba_bump ba = 0 \<and> bump_ok ba"

lemma zone_okI:
  "unat base + unat sz \<le> 18446744073709551616 \<Longrightarrow> zone_ok (Bump_init ba base sz) base sz"
  by (simp add: zone_ok_def Bump_init_def bump_ok_def)

lemma init_zones:
  assumes run: "runtime_init os c rt = Ret rt' True" and fresh: "\<not> rt_Initialized rt"
    and mmap: "\<forall>e h n e' p. sys_mmap os e h n PROT_NONE = (e', Some p) \<longrightarrow> unat p + unat n \<le> 2 ^ 64"
    and sizes: "(unat (c_SHADOWZONE_SIZE c) + unat (c_GLOBALZONE_SIZE c) + unat (c_STATICZONE_SIZE c)
        + unat (c_METADATAZONE_SIZE c)) * 2 ^ 30 < 2 ^ 64"
    and cap: "is_pow2 (c_QUARANTINE_CAPACITY c)" "unat (c_QUARANTINE_CAPACITY c) < 2 ^ 58"
  shows "zone_ok (rt_ShadowzoneAllocatorImpl rt') (rt_MemoryZone rt') (shadowBytes c)
    \<and> zone_ok (rt_GlobalAllocatorImpl rt') (rt_MemoryZone rt' + shadowBytes c) (globalBytes c)
    \<and> zone_ok (rt_StaticAllocatorImpl rt') (rt_MemoryZone rt' + shadowBytes c + globalBytes c) (staticBytes c)
    \<and> zone_ok (rt_MetadataZoneAllocatorImpl rt')
        (rt_MemoryZone rt' + shadowBytes c + globalBytes c + staticBytes c) (metadataBytes c)
    \<and> unat (rt_MemoryZone rt') + unat (shadowBytes c) + unat (globalBytes c) + unat (staticBytes c)
        + unat (metadataBytes c) \<le> 2 ^ 64
    \<and> q_inv (k_queue (rt_core rt')) \<and> q_list (k_queue (rt_core rt')) = []
    \<and> k_epoch (rt_core rt') = k_epoch (rt_core rt) \<and> k_stats (rt_core rt') = k_stats (rt_core rt)
    \<and> rt_Initialized rt' \<and> rt_GlobalZone rt' = rt_MemoryZone rt' + shadowBytes c
    \<and> rt_StaticZone rt' = rt_MemoryZone rt' + shadowBytes c + globalBytes c"
proof -
  let ?sh = "shadowBytes c" and ?gl = "globalBytes c" and ?st = "staticBytes c" and ?md = "metadataBytes c"
  let ?total = "?sh + ?gl + ?st + ?md"
  obtain e zone where r: "mem_reserveAt os (k_env (rt_core rt)) MEMORY_ZONE_ADDRESS ?total = (e, zone)"
    by (cases "mem_reserveAt os (k_env (rt_core rt)) MEMORY_ZONE_ADDRESS ?total")
  obtain e1 q qd where q: "queue_init os e (k_queue (rt_core rt)) (c_QUARANTINE_CAPACITY c) True = (e1, q, qd)"
    by (cases "queue_init os e (k_queue (rt_core rt)) (c_QUARANTINE_CAPACITY c) True")
  obtain e2 t td where t: "(if qd then initRegionTable os (c_REGION_TABLE_CAPACITY c) e1 (rt_table rt)
      else (e1, rt_table rt, False)) = (e2, t, td)"
    by (cases "if qd then initRegionTable os (c_REGION_TABLE_CAPACITY c) e1 (rt_table rt) else (e1, rt_table rt, False)")
  have z: "zone \<noteq> null" using run fresh r by (auto simp: runtime_init_def Let_def)
  have ok: "qd" "td"
    using run fresh r q t z by (auto simp: runtime_init_def Let_def split: if_splits prod.splits)
  have rt': "rt_MemoryZone rt' = zone \<and> rt_Initialized rt' \<and> rt_core rt' = (rt_core rt)\<lparr>k_env := e2, k_queue := q\<rparr>
    \<and> rt_GlobalZone rt' = zone + ?sh \<and> rt_StaticZone rt' = zone + ?sh + ?gl
    \<and> rt_ShadowzoneAllocatorImpl rt' = Bump_init (rt_ShadowzoneAllocatorImpl rt) zone ?sh
    \<and> rt_GlobalAllocatorImpl rt' = Bump_init (rt_GlobalAllocatorImpl rt) (zone + ?sh) ?gl
    \<and> rt_StaticAllocatorImpl rt' = Bump_init (rt_StaticAllocatorImpl rt) (zone + ?sh + ?gl) ?st
    \<and> rt_MetadataZoneAllocatorImpl rt' = Bump_init (rt_MetadataZoneAllocatorImpl rt) (zone + ?sh + ?gl + ?st) ?md"
    using run fresh r q t z ok
    by (cases "rt_DrainThread rt") (auto simp: runtime_init_def Let_def)
  have n: "unat ?sh = unat (c_SHADOWZONE_SIZE c) * 1073741824" "unat ?gl = unat (c_GLOBALZONE_SIZE c) * 1073741824"
    "unat ?st = unat (c_STATICZONE_SIZE c) * 1073741824" "unat ?md = unat (c_METADATAZONE_SIZE c) * 1073741824"
    using sizes unfolding shadowBytes_def globalBytes_def staticBytes_def metadataBytes_def
    by (auto intro!: unat_gib)
  have s1: "unat (?sh + ?gl) = unat ?sh + unat ?gl" using sizes n by (subst unat_plus_nowrap) simp_all
  have s2: "unat (?sh + ?gl + ?st) = unat ?sh + unat ?gl + unat ?st"
    using sizes n s1 by (subst unat_plus_nowrap) simp_all
  have total: "unat ?total = unat ?sh + unat ?gl + unat ?st + unat ?md"
    using sizes n s2 by (subst unat_plus_nowrap) simp_all
  have range: "unat zone + unat ?total \<le> 18446744073709551616"
    using r z mmap by (auto simp: mem_reserveAt_def split: prod.splits option.splits)
  have all: "unat zone + unat ?sh + unat ?gl + unat ?st + unat ?md \<le> 18446744073709551616"
    using range total by simp
  have zok: "zone_ok (Bump_init ba (zone + x) y) (zone + x) y"
    if "unat zone + unat x + unat y \<le> 18446744073709551616" "0 < unat y \<or> unat zone + unat x < 18446744073709551616" for ba x y
  proof -
    have "unat zone + unat x < 18446744073709551616" using that by linarith
    then have "unat (zone + x) = unat zone + unat x" by (rule unat_plus_nowrap)
    then show ?thesis using that(1) by (intro zone_okI) simp_all
  qed
  have zsh: "zone_ok (Bump_init ba zone ?sh) zone ?sh" for ba using all by (intro zone_okI) simp_all
  have wrap: "zone_ok (Bump_init ba (zone + x) y) (zone + x) y" if "unat zone + unat x + unat y \<le> 18446744073709551616" for ba x y
  proof (cases "0 < unat y \<or> unat zone + unat x < 18446744073709551616")
    case True
    then show ?thesis using zok that by blast
  next
    case False
    then have "unat y = 0" by simp
    then show ?thesis by (intro zone_okI) simp_all
  qed
  have "zone_ok (Bump_init ba (zone + (?sh + ?gl)) ?st) (zone + (?sh + ?gl)) ?st"
    "zone_ok (Bump_init ba (zone + (?sh + ?gl + ?st)) ?md) (zone + (?sh + ?gl + ?st)) ?md"
    "zone_ok (Bump_init ba (zone + ?sh) ?gl) (zone + ?sh) ?gl" for ba
    using all s1 s2 by (auto intro!: wrap)
  then have zones: "zone_ok (Bump_init ba (zone + ?sh + ?gl) ?st) (zone + ?sh + ?gl) ?st"
    "zone_ok (Bump_init ba (zone + ?sh + ?gl + ?st) ?md) (zone + ?sh + ?gl + ?st) ?md"
    "zone_ok (Bump_init ba (zone + ?sh) ?gl) (zone + ?sh) ?gl" for ba
    by (simp_all add: add.assoc)
  show ?thesis
    using zones zsh all rt' queue_init_inv [OF q [unfolded ok(1)[THEN eqTrueI]] cap] by simp
qed

section \<open>Properties\<close>

text \<open>
  C40: When \<open>init\<close> of a runtime that is not initialised succeeds, the four zones partition the reserved
  range in the order shadow, global, static, metadata, each with an empty, well-formed bump allocator
  over exactly its zone, and the quarantine is an empty well-formed ring; a second call succeeds and
  changes nothing. (The operating system is assumed to return ranges inside the address space.)
\<close>

theorem runtime_init_partitions:
  assumes run: "runtime_init os c rt = Ret rt' True" and fresh: "\<not> rt_Initialized rt"
    and mmap: "\<And>e h n e' p. sys_mmap os e h n PROT_NONE = (e', Some p) \<Longrightarrow> unat p + unat n \<le> 2 ^ 64"
    and sizes: "(unat (c_SHADOWZONE_SIZE c) + unat (c_GLOBALZONE_SIZE c) + unat (c_STATICZONE_SIZE c)
        + unat (c_METADATAZONE_SIZE c)) * 2 ^ 30 < 2 ^ 64"
    and cap: "is_pow2 (c_QUARANTINE_CAPACITY c)" "unat (c_QUARANTINE_CAPACITY c) < 2 ^ 58"
  shows "zone_ok (rt_ShadowzoneAllocatorImpl rt') (rt_MemoryZone rt') (shadowBytes c)
    \<and> zone_ok (rt_GlobalAllocatorImpl rt') (rt_MemoryZone rt' + shadowBytes c) (globalBytes c)
    \<and> zone_ok (rt_StaticAllocatorImpl rt') (rt_MemoryZone rt' + shadowBytes c + globalBytes c) (staticBytes c)
    \<and> zone_ok (rt_MetadataZoneAllocatorImpl rt')
        (rt_MemoryZone rt' + shadowBytes c + globalBytes c + staticBytes c) (metadataBytes c)
    \<and> unat (rt_MemoryZone rt') + unat (shadowBytes c) + unat (globalBytes c) + unat (staticBytes c)
        + unat (metadataBytes c) \<le> 2 ^ 64
    \<and> q_inv (k_queue (rt_core rt')) \<and> q_list (k_queue (rt_core rt')) = []
    \<and> k_epoch (rt_core rt') = k_epoch (rt_core rt) \<and> k_stats (rt_core rt') = k_stats (rt_core rt)
    \<and> runtime_init os c rt' = Ret rt' True"
proof -
  have "\<forall>e h n e' p. sys_mmap os e h n PROT_NONE = (e', Some p) \<longrightarrow> unat p + unat n \<le> 2 ^ 64" using mmap by blast
  note z = init_zones [OF run fresh this sizes cap]
  then have "runtime_init os c rt' = Ret rt' True" by (simp add: runtime_init_def)
  with z show ?thesis by simp
qed

definition os_bounded :: "unit os_api" where
  "os_bounded = os_giving\<lparr>sys_mmap := (\<lambda>e _ n _. (e, if n \<le> 2 ^ 62 then Some 65536 else None))\<rparr>"

definition small_config :: config where
  "small_config = \<lparr>c_SHADOWZONE_SIZE = 1, c_GLOBALZONE_SIZE = 1, c_STATICZONE_SIZE = 1,
     c_METADATAZONE_SIZE = 1, c_QUARANTINE_CAPACITY = 2, c_REGION_TABLE_CAPACITY = 2,
     c_REGISTRY_CAPACITY = 2\<rparr>"

lemma small_init: "\<exists>rt. runtime_init os_bounded small_config (runtime_new ()) = Ret rt True
    \<and> rt_MemoryZone rt = 65536"
  by (simp add: runtime_init_def runtime_new_def small_config_def shadowBytes_def globalBytes_def
      staticBytes_def metadataBytes_def GIBI_BYTE_def mem_reserveAt_def os_bounded_def os_giving_def
      queue_init_def mem_allocate_def sizeof_QuarantineEntry_def queue_new_def initRegionTable_def
      region_table_new_def sizeof_RegionRecord_def Let_def word_le_nat_alt)

theorem runtime_init_partitions_witness:
  "\<exists>rt. runtime_init os_bounded small_config (runtime_new ()) = Ret rt True
     \<and> zone_ok (rt_GlobalAllocatorImpl rt) (65536 + shadowBytes small_config) (globalBytes small_config)
     \<and> runtime_init os_bounded small_config rt = Ret rt True"
proof -
  obtain rt where run: "runtime_init os_bounded small_config (runtime_new ()) = Ret rt True"
    and z: "rt_MemoryZone rt = 65536" using small_init by blast
  have fresh: "\<not> rt_Initialized (runtime_new ())" by (simp add: runtime_new_def)
  have "unat p + unat n \<le> 2 ^ 64" if "sys_mmap os_bounded e h n PROT_NONE = (e', Some p)" for e h n e' p
    using that by (auto simp: os_bounded_def os_giving_def word_le_nat_alt split: if_splits)
  from runtime_init_partitions [OF run fresh this] show ?thesis
    using run z by (auto simp: small_config_def is_pow2_def)
qed

lemma mono_epoch_due:
  assumes "k_epoch k = cur + 2" and "\<forall>e \<in> set (q_list (k_queue k)). e_Epoch e \<le> cur" and "unat cur < 2 ^ 64 - 2"
    and "length (q_list (k_queue k)) \<le> unat mx"
  shows "due k mx force = q_list (k_queue k)"
proof -
  have c: "unat (cur + 2) = unat cur + 2" using assms(3) by (subst unat_plus_nowrap) simp_all
  have "eligible force (k_epoch k) e" if "e \<in> set (q_list (k_queue k))" for e
  proof -
    have le: "unat (e_Epoch e) \<le> unat cur" using assms(2) that by (simp add: word_le_nat_alt)
    then have "unat (e_Epoch e + 2) = unat (e_Epoch e) + 2"
      using assms(3) by (subst unat_plus_nowrap) simp_all
    then show ?thesis using le c assms(1) by (simp add: eligible_def word_le_nat_alt)
  qed
  then have tw: "takeWhile (eligible force (k_epoch k)) (q_list (k_queue k)) = q_list (k_queue k)"
    by (simp add: takeWhile_eq_all_conv)
  show ?thesis unfolding due_def tw using assms(4) by simp
qed

text \<open>What a tick does, from the queue's point of view.\<close>

definition core_ok :: "'e kcore \<Rightarrow> bool" where
  "core_ok k \<longleftrightarrow> q_inv (k_queue k) \<and> \<not> q_FlushLock (k_queue k) \<and> regs_ok k
     \<and> e_OwningRegistry ` set (q_list (k_queue k)) \<subseteq> dom (k_regs k)"

lemma flush_core:
  assumes "core_ok k"
  obtains k' where "queue_flushEligible k mx force = Some (k', of_nat (length (due k mx force)))"
    and "core_ok k'" and "q_list (k_queue k') = drop (length (due k mx force)) (q_list (k_queue k))"
    and "k_epoch k' = k_epoch k" and "k_env k' = foldl dealloc_entry (k_env k) (due k mx force)"
    and "dom (k_regs k') = dom (k_regs k)"
proof -
  let ?es = "due k mx force"
  have inv: "q_inv (k_queue k)" and free: "\<not> q_FlushLock (k_queue k)" and regs: "regs_ok k"
    and own: "e_OwningRegistry ` set (q_list (k_queue k)) \<subseteq> dom (k_regs k)"
    using assms by (simp_all add: core_ok_def)
  have "set ?es \<subseteq> set (q_list (k_queue k))"
    unfolding due_def using set_take_subset set_takeWhileD by (metis subset_code(1) in_set_takeD)
  then have "e_OwningRegistry ` set ?es \<subseteq> dom (k_regs k)" using own by blast
  then obtain k0 where k0: "retire_all k ?es = Some k0" "regs_ok k0" "dom (k_regs k0) = dom (k_regs k)"
    using retire_all_total [OF regs] by blast
  let ?k = "k0\<lparr>k_queue := (ring_drop ^^ length ?es) (k_queue k)\<rparr>"
  note many = ring.rest_many [OF inv length_due [of k mx force]]
  have unl: "\<not> q_FlushLock ((ring_drop ^^ n) (k_queue k))" for n
    using free by (induction n) (simp_all add: ring_drop_def)
  have "set (drop (length ?es) (q_list (k_queue k))) \<subseteq> set (q_list (k_queue k))" by (rule set_drop_subset)
  then have "e_OwningRegistry ` set (drop (length ?es) (q_list (k_queue k))) \<subseteq> dom (k_regs k)"
    using own by blast
  then have "core_ok ?k" using many unl k0 unfolding core_ok_def by (simp add: regs_ok_def)
  then show thesis
    using that [of ?k] flushEligible_eq [OF inv free] k0 many retire_all_env [OF k0(1)] retire_all_frame [OF k0(1)]
    by simp
qed

lemma two_ticks:
  assumes ok: "core_ok k" and ep: "\<forall>e \<in> set (q_list (k_queue k)). e_Epoch e \<le> k_epoch k"
    and room: "unat (k_epoch k) < 2 ^ 64 - 2"
  shows "\<exists>k1 k2. drain_tick k = Some k1 \<and> drain_tick k1 = Some k2
    \<and> (\<forall>e \<in> set (q_list (k_queue k)). e_Epoch e = k_epoch k \<longrightarrow> e \<in> set (q_list (k_queue k1)))
    \<and> q_list (k_queue k2) = [] \<and> k_env k2 = foldl dealloc_entry (k_env k) (q_list (k_queue k))
    \<and> drainLoop k [True, True, True, True] = Some k2"
proof -
  let ?k = "k\<lparr>k_epoch := k_epoch k + 1\<rparr>"
  have ok1: "core_ok ?k" using ok by (simp add: core_ok_def regs_ok_def)
  obtain k1 where k1: "queue_flushEligible ?k (- 1) False = Some (k1, of_nat (length (due ?k (- 1) False)))"
      "core_ok k1" "q_list (k_queue k1) = drop (length (due ?k (- 1) False)) (q_list (k_queue ?k))"
      "k_epoch k1 = k_epoch ?k" "k_env k1 = foldl dealloc_entry (k_env ?k) (due ?k (- 1) False)"
    by (rule flush_core [OF ok1])
  let ?k1 = "k1\<lparr>k_epoch := k_epoch k1 + 1\<rparr>"
  have ok2: "core_ok ?k1" using k1(2) by (simp add: core_ok_def regs_ok_def)
  obtain k2 where k2: "queue_flushEligible ?k1 (- 1) False = Some (k2, of_nat (length (due ?k1 (- 1) False)))"
      "core_ok k2" "q_list (k_queue k2) = drop (length (due ?k1 (- 1) False)) (q_list (k_queue ?k1))"
      "k_epoch k2 = k_epoch ?k1" "k_env k2 = foldl dealloc_entry (k_env ?k1) (due ?k1 (- 1) False)"
    by (rule flush_core [OF ok2])
  let ?d = "due ?k (- 1) False"
  have len: "length (q_list q) \<le> unat (- 1 :: u64)" for q :: "'a queue"
    unfolding length_q_list unat_minus_one_64 using unat_lt_64 [of "q_Tail q"] by linarith
  have pre: "q_list (k_queue k) = ?d @ drop (length ?d) (q_list (k_queue k))"
    using due_append [of ?k "- 1" False] by simp
  have stay: "e \<in> set (q_list (k_queue k1))" if e: "e \<in> set (q_list (k_queue k))" "e_Epoch e = k_epoch k" for e
  proof -
    have c1: "unat (k_epoch k + 1) = unat (k_epoch k) + 1" and c2: "unat (k_epoch k + 2) = unat (k_epoch k) + 2"
      using room by (subst unat_plus_nowrap, simp_all)+
    have "\<not> eligible False (k_epoch ?k) e" using e(2) c1 c2 by (simp add: eligible_def word_le_nat_alt)
    then have "e \<notin> set ?d" using due_eligible by blast
    moreover have "set (q_list (k_queue k)) = set ?d \<union> set (drop (length ?d) (q_list (k_queue k)))"
      by (subst pre) (rule set_append)
    ultimately show ?thesis using e(1) k1(3) by auto
  qed
  have ep1: "\<forall>e \<in> set (q_list (k_queue ?k1)). e_Epoch e \<le> k_epoch k"
    using ep k1(3) by (auto dest: in_set_dropD)
  have due1: "due ?k1 (- 1) False = q_list (k_queue ?k1)"
    using k1(4) room by (intro mono_epoch_due [OF _ ep1]) (simp_all add: len)
  have empty: "q_list (k_queue k2) = []" using k2(3) due1 by simp
  have env: "k_env k2 = foldl dealloc_entry (k_env k) (q_list (k_queue k))"
  proof -
    have "k_env k2 = foldl dealloc_entry (foldl dealloc_entry (k_env k) ?d) (drop (length ?d) (q_list (k_queue k)))"
      using k2(5) due1 k1(5,3) by simp
    also have "\<dots> = foldl dealloc_entry (k_env k) (?d @ drop (length ?d) (q_list (k_queue k)))" by simp
    also have "\<dots> = foldl dealloc_entry (k_env k) (q_list (k_queue k))"
      by (rule arg_cong [OF pre [symmetric]])
    finally show ?thesis .
  qed
  have t: "drain_tick k = Some k1" "drain_tick k1 = Some k2"
    using k1(1) k2(1) by (simp_all add: drain_tick_def)
  show ?thesis using t stay empty env by auto
qed

text \<open>
  C16: A block that enters the quarantine stays through the next tick of the drain thread and is gone
  after the second: when no waiting entry is from a later epoch than the current one, two ticks give
  back the memory of every waiting block, oldest first, and the first of them keeps the blocks of the
  current epoch.
\<close>

theorem drain_two_ticks:
  assumes ok: "core_ok k" and ep: "\<forall>e \<in> set (q_list (k_queue k)). e_Epoch e \<le> k_epoch k"
    and room: "unat (k_epoch k) < 2 ^ 64 - 2"
  shows "\<exists>k1 k2. drain_tick k = Some k1 \<and> drain_tick k1 = Some k2
    \<and> (\<forall>e \<in> set (q_list (k_queue k)). e_Epoch e = k_epoch k \<longrightarrow> e \<in> set (q_list (k_queue k1)))
    \<and> q_list (k_queue k2) = [] \<and> k_env k2 = foldl dealloc_entry (k_env k) (q_list (k_queue k))
    \<and> drainLoop k [True, True, True, True] = Some k2"
  by (rule two_ticks [OF assms])

lemma demo_core_ok: "core_ok demo_core"
  unfolding core_ok_def
  by (simp add: demo_core_queue regs_ok_def) (simp add: demo_core_def registry_demo_inv demo_entry_def)

theorem drain_two_ticks_witness:
  "\<exists>k1 k2. drain_tick demo_core = Some k1 \<and> drain_tick k1 = Some k2 \<and> q_list (k_queue k2) = [] \<and> k_env k2 = 2"
proof -
  have ep: "\<forall>e \<in> set (q_list (k_queue demo_core)). e_Epoch e \<le> k_epoch demo_core"
    unfolding demo_core_queue by (simp add: demo_entry_def demo_core_def word_le_nat_alt)
  have room: "unat (k_epoch demo_core) < 2 ^ 64 - 2" by (simp add: demo_core_def)
  have "k_env demo_core = 0" by (simp add: demo_core_def)
  with drain_two_ticks [OF demo_core_ok ep room] show ?thesis
    unfolding demo_core_queue by (auto simp: dealloc_entry_def demo_entry_def)
qed

text \<open>
  \<open>teardown\<close> gives back every waiting block, oldest first, before it unmaps anything, closes the
  queue, forgets the zones, and takes effect only once: a second call reports failure and changes
  nothing. It does not touch the zones' allocators.
\<close>

theorem teardown_exact:
  assumes ok: "core_ok (rt_core rt)" and run: "\<not> rt_Shutdown rt"
  shows "\<exists>rt' e. teardownShadowzone os c rt = Some (rt', True)
    \<and> e = foldl dealloc_entry (k_env (rt_core rt)) (q_list (k_queue (rt_core rt)))
    \<and> k_env (rt_core rt') =
        fst (mem_release os
          (fst (shutdownRegionTable os (c_REGION_TABLE_CAPACITY c)
            (fst (mem_release os e (q_Slots (k_queue (rt_core rt)))
              (q_Capacity (k_queue (rt_core rt)) * sizeof_QuarantineEntry))) (rt_table rt)))
          (rt_MemoryZone rt)
          ((c_SHADOWZONE_SIZE c + c_GLOBALZONE_SIZE c + c_STATICZONE_SIZE c + c_METADATAZONE_SIZE c) * GIBI_BYTE))
    \<and> q_Slots (k_queue (rt_core rt')) = null \<and> q_list (k_queue (rt_core rt')) = []
    \<and> rt_MemoryZone rt' = null \<and> \<not> rt_Initialized rt' \<and> \<not> rt_DrainRunning rt' \<and> \<not> rt_DrainThread rt'
    \<and> rt_ShadowzoneAllocatorImpl rt' = rt_ShadowzoneAllocatorImpl rt
    \<and> teardownShadowzone os c rt' = Some (rt', False)"
proof -
  let ?k = "rt_core rt"
  note all = due_forced [of ?k]
  obtain k' where k': "queue_flushEligible ?k (- 1) True = Some (k', of_nat (length (due ?k (- 1) True)))"
    "core_ok k'" "q_list (k_queue k') = drop (length (due ?k (- 1) True)) (q_list (k_queue ?k))"
    "k_epoch k' = k_epoch ?k" "k_env k' = foldl dealloc_entry (k_env ?k) (due ?k (- 1) True)"
    by (rule flush_core [OF ok])
  have q: "q_Slots (k_queue k') \<noteq> null" using k'(2) by (simp add: core_ok_def q_inv_def)
  have inv: "q_inv (k_queue ?k)" and free: "\<not> q_FlushLock (k_queue ?k)" using ok by (simp_all add: core_ok_def)
  have same: "q_Slots ((ring_drop ^^ n) q) = q_Slots q \<and> q_Capacity ((ring_drop ^^ n) q) = q_Capacity q"
    for n and q :: "'a queue" by (induction n) (simp_all add: ring_drop_def)
  have "q_Slots (k_queue k') = q_Slots (k_queue ?k)" "q_Capacity (k_queue k') = q_Capacity (k_queue ?k)"
    using k'(1) same flushEligible_eq [OF inv free, of "- 1" True] by auto
  then show ?thesis
    using k' q run
    by (cases "rt_DrainThread rt")
      (simp_all add: teardownShadowzone_def all queue_shutdown_def Let_def q_list_def split_beta)
qed

definition os_nat :: "nat os_api" where
  "os_nat = \<lparr>sys_mmap = (\<lambda>e _ _ _. (e, None)), sys_mprotect = (\<lambda>e _ _ _. (e, True)),
     sys_madvise_dontneed = (\<lambda>e _ _. (e, True)), sys_munmap = (\<lambda>e _ _. (e + 10, True)),
     sys_mincore = (\<lambda>e _ _. Some 1), sys_pagesize = (\<lambda>e. 4096)\<rparr>"

definition demo_runtime :: "nat runtime" where
  "demo_runtime = (runtime_new 0)\<lparr>rt_MemoryZone := 1048576, rt_core := demo_core, rt_Initialized := True,
     rt_ShadowzoneAllocatorImpl := \<lparr>ba_base = 1048576, ba_size = 4096, ba_bump = 0\<rparr>\<rparr>"

lemma demo_runtime_simps: "rt_core demo_runtime = demo_core" "\<not> rt_Shutdown demo_runtime"
  "rt_ShadowzoneAllocatorImpl demo_runtime = \<lparr>ba_base = 1048576, ba_size = 4096, ba_bump = 0\<rparr>"
  by (simp_all add: demo_runtime_def runtime_new_def)

theorem teardown_exact_witness:
  "\<exists>rt'. teardownShadowzone os_nat small_config demo_runtime = Some (rt', True)
     \<and> rt_MemoryZone rt' = null \<and> teardownShadowzone os_nat small_config rt' = Some (rt', False)"
proof -
  have "core_ok (rt_core demo_runtime)" by (simp add: demo_runtime_simps demo_core_ok)
  from teardown_exact [OF this demo_runtime_simps(2)] show ?thesis by blast
qed

text \<open>
  Tearing the runtime down leaves the zone allocators open: after the zones' memory has been
  released, \<open>shadowzoneAllocate\<close> still hands out the addresses it would have handed out before, inside
  the released range.
\<close>

theorem teardown_leaves_zones_open:
  assumes "teardownShadowzone os c rt = Some (rt', True)"
  shows "snd (shadowzoneAllocate rt' n) = snd (shadowzoneAllocate rt n) \<and> rt_MemoryZone rt' = null"
proof -
  have "rt_ShadowzoneAllocatorImpl rt' = rt_ShadowzoneAllocatorImpl rt \<and> rt_MemoryZone rt' = null"
    using assms by (auto simp: teardownShadowzone_def Let_def split: if_splits option.splits prod.splits)
  then show ?thesis by (simp add: shadowzoneAllocate_def split: prod.splits)
qed

lemma demo_teardown: "\<exists>rt'. teardownShadowzone os_nat small_config demo_runtime = Some (rt', True)"
proof -
  obtain k' where "queue_flushEligible demo_core (- 1) True = Some (k', of_nat (length (due demo_core (- 1) True)))"
    by (rule flush_core [OF demo_core_ok])
  then show ?thesis
    by (simp add: teardownShadowzone_def demo_runtime_def runtime_new_def Let_def split_beta)
qed

theorem teardown_leaves_zones_open_witness:
  "\<exists>rt'. teardownShadowzone os_nat small_config demo_runtime = Some (rt', True)
     \<and> rt_MemoryZone rt' = null \<and> snd (shadowzoneAllocate rt' 64) = 1048576"
proof -
  obtain rt' where t: "teardownShadowzone os_nat small_config demo_runtime = Some (rt', True)"
    using demo_teardown by blast
  have "snd (shadowzoneAllocate demo_runtime 64) = 1048576"
    by (simp add: shadowzoneAllocate_def demo_runtime_simps Shadowzone_allocate_def bumpReserve_def
        alignof_max_align_t_def alignUp_def Let_def)
  with teardown_leaves_zones_open [OF t, of 64] t show ?thesis by auto
qed

end
