(* ===== verification/Kerbecs_Violation.thy ===== *)
theory Kerbecs_Violation
  imports Kerbecs_Prelude
begin

text \<open>
  \<open>src/Public/Violation.h\<close> and \<open>src/Private/Violation.cpp\<close>: the violation record and the
  thread-local, fixed-capacity stack that detection sites push to and callers drain. The abstract
  view of a stack is the list of the violations it holds, newest first; the interface it promises is
  the locale \<open>evicting_stack\<close>.
\<close>

datatype violation_kind =
    DoubleFree | UseAfterFree | UseBeforeInit | BufferOverflow | OverlapDetected | LeakDetected
  | MetadataCorruption | AlignmentViolation | SizeOverflow | WildPointer | ThreadOwnership
  | QuarantineSaturation | RetiredBoundaryViolation | UndefinedWildPointerAccess
  | EngineMemoryAccessViolation | ViolationNone

record violation =
  v_Kind :: violation_kind
  v_Name :: addr
  v_Address :: addr
  v_BlockBase :: addr
  v_BlockSize :: u64
  v_Timestamp :: u64
  v_ThreadID :: u32

definition VIOLATION_STACK_CAPACITY :: u64 where
  "VIOLATION_STACK_CAPACITY = 32"

definition violation_blank :: violation where
  "violation_blank =
     \<lparr>v_Kind = ViolationNone, v_Name = null, v_Address = null, v_BlockBase = null, v_BlockSize = 0,
      v_Timestamp = 0, v_ThreadID = 0\<rparr>"

text \<open>The calling thread's identifier and \<open>__rdtsc()\<close> are inputs.\<close>

definition makeViolation ::
  "u32 \<Rightarrow> u64 \<Rightarrow> violation_kind \<Rightarrow> addr \<Rightarrow> addr \<Rightarrow> u64 \<Rightarrow> violation" where
  "makeViolation threadID tsc k p_Address p_BlockBase blockSize =
     violation_blank\<lparr>v_Kind := k, v_Address := p_Address, v_BlockBase := p_BlockBase,
       v_BlockSize := blockSize, v_ThreadID := threadID, v_Timestamp := tsc\<rparr>"

record vstack =
  vs_Entries :: "violation list"
  vs_Top :: u64
  vs_Count :: u64

definition vstack_init :: vstack where
  "vstack_init = \<lparr>vs_Entries = replicate 32 violation_blank, vs_Top = 0, vs_Count = 0\<rparr>"

definition pushViolation :: "vstack \<Rightarrow> violation \<Rightarrow> vstack" where
  "pushViolation stack v =
     (let stack = stack\<lparr>vs_Entries := (vs_Entries stack)[unat (vs_Top stack) := v]\<rparr>;
          stack = stack\<lparr>vs_Top := (vs_Top stack + 1) mod VIOLATION_STACK_CAPACITY\<rparr>
      in if vs_Count stack < VIOLATION_STACK_CAPACITY
         then stack\<lparr>vs_Count := vs_Count stack + 1\<rparr> else stack)"

text \<open>\<open>None\<close> is the return value \<open>false\<close>, with the stack and the out-parameter untouched.\<close>

definition popViolation :: "vstack \<Rightarrow> (violation \<times> vstack) option" where
  "popViolation stack =
     (if vs_Count stack = 0 then None
      else
        let stack = stack\<lparr>vs_Top := (vs_Top stack + VIOLATION_STACK_CAPACITY - 1)
                                       mod VIOLATION_STACK_CAPACITY\<rparr>;
            r_Out = vs_Entries stack ! unat (vs_Top stack)
        in Some (r_Out, stack\<lparr>vs_Count := vs_Count stack - 1\<rparr>))"

section \<open>The contract of an evicting stack\<close>

text \<open>
  A stack of bounded capacity: a push on a full stack forgets the oldest element, a pop returns
  the newest one.
\<close>

fun pop_many :: "('s \<Rightarrow> ('v \<times> 's) option) \<Rightarrow> nat \<Rightarrow> 's \<Rightarrow> 'v list" where
  "pop_many pp 0 s = []"
| "pop_many pp (Suc n) s = (case pp s of None \<Rightarrow> [] | Some (v, t) \<Rightarrow> v # pop_many pp n t)"

locale evicting_stack =
  fixes capacity :: nat
    and empty :: 's
    and push :: "'s \<Rightarrow> 'v \<Rightarrow> 's"
    and pop :: "'s \<Rightarrow> ('v \<times> 's) option"
    and contents :: "'s \<Rightarrow> 'v list"
    and invar :: "'s \<Rightarrow> bool"
  assumes capacity_pos: "0 < capacity"
    and invar_empty: "invar empty"
    and contents_empty: "contents empty = []"
    and invar_push: "invar s \<Longrightarrow> invar (push s v)"
    and contents_push: "invar s \<Longrightarrow> contents (push s v) = take capacity (v # contents s)"
    and pop_None: "invar s \<Longrightarrow> pop s = None \<longleftrightarrow> contents s = []"
    and pop_Some: "invar s \<Longrightarrow> pop s = Some (v, t) \<Longrightarrow> contents s = v # contents t \<and> invar t"
begin

lemma invar_push_all: "invar s \<Longrightarrow> invar (foldl push s vs)"
  by (induction vs arbitrary: s) (simp_all add: invar_push)

lemma contents_push_all:
  "invar s \<Longrightarrow> length (contents s) \<le> capacity \<Longrightarrow>
   contents (foldl push s vs) = take capacity (rev vs @ contents s)"
proof (induction vs arbitrary: s)
  case Nil
  then show ?case by simp
next
  case (Cons v vs)
  have "contents (foldl push (push s v) vs) = take capacity (rev vs @ contents (push s v))"
    using Cons.prems by (intro Cons.IH) (simp_all add: invar_push contents_push)
  also have "\<dots> = take capacity (rev vs @ v # contents s)"
    using Cons.prems capacity_pos by (simp add: contents_push min_def take_Cons')
  finally show ?case by simp
qed

lemma pop_many_contents: "invar s \<Longrightarrow> pop_many pop n s = take n (contents s)"
proof (induction n arbitrary: s)
  case (Suc n)
  show ?case
  proof (cases "pop s")
    case None
    with Suc.prems have "contents s = []" by (simp add: pop_None)
    with None show ?thesis by simp
  next
    case (Some r)
    obtain v t where r: "r = (v, t)" by (cases r)
    with Some Suc.prems have "contents s = v # contents t" and "invar t"
      using pop_Some by blast+
    with Suc.IH Some r show ?thesis by simp
  qed
qed simp

lemma drain_after_pushes:
  "length vs \<le> n \<Longrightarrow> pop_many pop n (foldl push empty vs) = take capacity (rev vs)"
  by (simp add: pop_many_contents invar_push_all invar_empty contents_push_all contents_empty
      min_def)

end

section \<open>The violation stack implements it\<close>

definition vs_inv :: "vstack \<Rightarrow> bool" where
  "vs_inv s \<longleftrightarrow> length (vs_Entries s) = 32 \<and> unat (vs_Top s) < 32 \<and> unat (vs_Count s) \<le> 32"

definition vs_slot :: "vstack \<Rightarrow> nat \<Rightarrow> nat" where
  "vs_slot s i = (unat (vs_Top s) + 31 - i) mod 32"

definition vs_list :: "vstack \<Rightarrow> violation list" where
  "vs_list s = map (\<lambda>i. vs_Entries s ! vs_slot s i) [0..<unat (vs_Count s)]"

lemma vs_inv_init: "vs_inv vstack_init"
  by (simp add: vs_inv_def vstack_init_def)

lemma vs_list_init: "vs_list vstack_init = []"
  by (simp add: vs_list_def vstack_init_def)

lemma vs_top_push:
  "vs_inv s \<Longrightarrow> unat (vs_Top (pushViolation s v)) = Suc (unat (vs_Top s)) mod 32"
  by (simp add: vs_inv_def pushViolation_def Let_def VIOLATION_STACK_CAPACITY_def unat_mod
      unat_succ_nowrap)

lemma vs_count_push:
  "vs_inv s \<Longrightarrow> unat (vs_Count (pushViolation s v)) = min 32 (Suc (unat (vs_Count s)))"
  by (auto simp: vs_inv_def pushViolation_def Let_def VIOLATION_STACK_CAPACITY_def
      word_less_nat_alt unat_succ_nowrap)

lemma vs_entries_push [simp]:
  "vs_Entries (pushViolation s v) = (vs_Entries s)[unat (vs_Top s) := v]"
  by (simp add: pushViolation_def Let_def)

lemma vs_inv_push: "vs_inv s \<Longrightarrow> vs_inv (pushViolation s v)"
  using vs_top_push [of s v] vs_count_push [of s v] by (simp add: vs_inv_def)

lemma vs_slot_lt: "vs_slot s i < 32"
  by (simp add: vs_slot_def)

lemma vs_slot_eq:
  assumes "unat (vs_Top s) < 32" and "i < 32"
  shows "vs_slot s i = (if i < unat (vs_Top s) then unat (vs_Top s) - 1 - i
                        else unat (vs_Top s) + 31 - i)"
proof (cases "i < unat (vs_Top s)")
  case True
  then have "vs_slot s i = ((unat (vs_Top s) - 1 - i) + 32) mod 32"
    unfolding vs_slot_def by (intro arg_cong [where f = "\<lambda>x. x mod 32"]) simp
  also have "\<dots> = unat (vs_Top s) - 1 - i" using assms by (simp only: mod_add_self2) simp
  finally show ?thesis using True by simp
next
  case False
  with assms show ?thesis unfolding vs_slot_def by simp
qed

lemma vs_top_push_cases:
  "vs_inv s \<Longrightarrow> unat (vs_Top (pushViolation s v))
     = (if unat (vs_Top s) = 31 then 0 else Suc (unat (vs_Top s)))"
  by (simp add: vs_top_push vs_inv_def mod_Suc)

lemma vs_slot_push_0:
  assumes inv: "vs_inv s"
  shows "vs_slot (pushViolation s v) 0 = unat (vs_Top s)"
proof -
  have "unat (vs_Top (pushViolation s v)) < 32" using vs_inv_push [OF inv] by (simp add: vs_inv_def)
  then show ?thesis by (simp add: vs_slot_eq vs_top_push_cases [OF inv])
qed

lemma vs_slot_push_Suc:
  assumes inv: "vs_inv s" and i: "i < 31"
  shows "vs_slot (pushViolation s v) (Suc i) = vs_slot s i"
proof -
  have "unat (vs_Top (pushViolation s v)) < 32" using vs_inv_push [OF inv] by (simp add: vs_inv_def)
  moreover have "unat (vs_Top s) < 32" using inv by (simp add: vs_inv_def)
  ultimately show ?thesis using i by (auto simp: vs_slot_eq vs_top_push_cases [OF inv])
qed

lemma vs_slot_not_top: "vs_inv s \<Longrightarrow> i < 31 \<Longrightarrow> vs_slot s i \<noteq> unat (vs_Top s)"
  by (auto simp: vs_inv_def vs_slot_eq)

lemma vs_list_length [simp]: "length (vs_list s) = unat (vs_Count s)"
  by (simp add: vs_list_def)

lemma vs_list_nth: "i < unat (vs_Count s) \<Longrightarrow> vs_list s ! i = vs_Entries s ! vs_slot s i"
  by (simp add: vs_list_def)

lemma vs_list_push:
  assumes inv: "vs_inv s"
  shows "vs_list (pushViolation s v) = take 32 (v # vs_list s)"
proof (rule nth_equalityI)
  show "length (vs_list (pushViolation s v)) = length (take 32 (v # vs_list s))"
    using vs_count_push [OF inv, of v] by simp
next
  fix i assume "i < length (vs_list (pushViolation s v))"
  then have i: "i < min 32 (Suc (unat (vs_Count s)))" by (simp add: vs_count_push [OF inv])
  then have lhs: "vs_list (pushViolation s v) ! i
      = (vs_Entries s)[unat (vs_Top s) := v] ! vs_slot (pushViolation s v) i"
    by (simp add: vs_list_nth vs_count_push [OF inv])
  show "vs_list (pushViolation s v) ! i = take 32 (v # vs_list s) ! i"
  proof (cases i)
    case 0
    with lhs inv show ?thesis by (simp add: vs_slot_push_0 vs_inv_def)
  next
    case (Suc j)
    with i have "j < 31" "j < unat (vs_Count s)" by auto
    with lhs Suc inv show ?thesis
      using vs_slot_not_top [OF inv, of j]
      by (simp add: vs_slot_push_Suc vs_list_nth nth_list_update_neq)
  qed
qed

lemma vs_pop_None: "popViolation s = None \<longleftrightarrow> vs_list s = []"
  by (auto simp: popViolation_def Let_def unat_gt_0 simp flip: length_0_conv)

lemma vs_pop_Some:
  assumes inv: "vs_inv s" and pop: "popViolation s = Some (v, t)"
  shows "vs_list s = v # vs_list t \<and> vs_inv t"
proof -
  from pop have count: "vs_Count s \<noteq> 0"
    and v: "v = vs_Entries s ! unat (vs_Top t)"
    and t: "vs_Entries t = vs_Entries s" "vs_Count t = vs_Count s - 1"
      "vs_Top t = (vs_Top s + 32 - 1) mod 32"
    by (auto simp: popViolation_def Let_def VIOLATION_STACK_CAPACITY_def split: if_splits)
  have one: "1 \<le> vs_Count s" using count by (simp add: word_le_nat_alt unat_gt_0 Suc_le_eq)
  have "unat (vs_Top s + 31) = unat (vs_Top s) + 31"
    using inv by (subst unat_plus_nowrap) (auto simp: vs_inv_def)
  moreover have "vs_Top s + 32 - 1 = vs_Top s + 31" by simp
  ultimately have top: "unat (vs_Top t) = vs_slot s 0"
    unfolding t(3) vs_slot_def by (simp only: unat_mod) simp
  have cnt: "unat (vs_Count s) = Suc (unat (vs_Count t))"
    using one count unfolding t(2) by (simp add: unat_minus_le unat_gt_0)
  have slots: "vs_slot t i = vs_slot s (Suc i)" if "i < 31" for i
    using inv that vs_slot_lt [of s 0]
    by (simp add: vs_slot_eq [of t] top) (simp add: vs_slot_eq vs_inv_def)
  have inv_t: "vs_inv t"
    using inv cnt top vs_slot_lt [of s 0] by (simp add: vs_inv_def t(1))
  have "vs_list s = v # vs_list t"
  proof (rule nth_equalityI)
    show "length (vs_list s) = length (v # vs_list t)" by (simp add: cnt)
  next
    fix i assume i: "i < length (vs_list s)"
    show "vs_list s ! i = (v # vs_list t) ! i"
    proof (cases i)
      case 0
      with i show ?thesis by (simp add: vs_list_nth v top)
    next
      case (Suc j)
      with i cnt inv have "j < unat (vs_Count t)" "j < 31" by (auto simp: vs_inv_def)
      with Suc i show ?thesis by (simp add: vs_list_nth slots t(1))
    qed
  qed
  with inv_t show ?thesis by simp
qed

interpretation vstk: evicting_stack 32 vstack_init pushViolation popViolation vs_list vs_inv
  by unfold_locales
     (auto simp: vs_inv_init vs_list_init vs_inv_push vs_list_push vs_pop_None dest: vs_pop_Some)

section \<open>Properties\<close>

text \<open>
  C39: Draining a thread's violation stack after any number of pushes on a fresh one returns the
  violations in reverse order of their detection, the newest 32 of them: nothing is lost below
  that bound, and past it exactly the oldest ones are.
\<close>

theorem violations_drain_lifo:
  assumes "length vs \<le> n"
  shows "pop_many popViolation n (foldl pushViolation vstack_init vs) = take 32 (rev vs)"
  using assms by (rule vstk.drain_after_pushes)

theorem violations_drain_lifo_witness:
  "pop_many popViolation 2 (foldl pushViolation vstack_init
     [makeViolation 7 1 DoubleFree 64 64 8, makeViolation 7 2 WildPointer 128 0 8])
   = [makeViolation 7 2 WildPointer 128 0 8, makeViolation 7 1 DoubleFree 64 64 8]"
  using violations_drain_lifo
    [of "[makeViolation 7 1 DoubleFree 64 64 8, makeViolation 7 2 WildPointer 128 0 8]" 2]
  by simp

end
