(* ===== verification/Kerbecs_ShadowUtils.thy ===== *)
theory Kerbecs_ShadowUtils
  imports Kerbecs_Prelude
begin

text \<open>
  \<open>src/Private/ShadowUtils.cpp\<close>, the pattern constants of \<open>src/Public/KerbecsRuntime.h\<close> and the
  canary stamp the layouts share (\<open>_stampCanary\<close> of \<open>src/Public/MemoryLayouts.h\<close>): checking and
  writing guard patterns in byte memory. Each loop is a recursion over the number of bytes or words
  left; the section at the end gives its closed form.
\<close>

section \<open>Patterns\<close>

definition POISONED :: u8 where "POISONED = 0xFA"
definition UNPOISONED :: u8 where "UNPOISONED = 0x0A"
definition REDZONE :: u8 where "REDZONE = 0xFE"
definition TOMBSTONE :: u8 where "TOMBSTONE = 0xDD"
definition GUARD_CANARY :: u64 where "GUARD_CANARY = 0xDEADBEEFCAFEBABE"
definition SHADOW_SCALE :: nat where "SHADOW_SCALE = 3"
definition REDZONE_SIZE :: u64 where "REDZONE_SIZE = 16"
definition CANARY_SIZE :: u64 where "CANARY_SIZE = 8"

datatype memory_state = UNINITIALIZED | CONSTRUCTED | DESTROYED | CORRUPTED

datatype diagnostic_access = Restricted | Unlocked

text \<open>Byte \<open>i\<close> of the canary as it lies in little-endian memory.\<close>

definition canary_byte :: "nat \<Rightarrow> u8" where
  "canary_byte i = ucast (drop_bit (8 * i) GUARD_CANARY)"

definition canary_bytes :: "nat \<Rightarrow> u8 list" where
  "canary_bytes n = map canary_byte [0..<n]"

text \<open>A little-endian load of \<open>n\<close> bytes (\<open>std::memcpy\<close> into a \<open>uint64_t\<close>).\<close>

fun load_le :: "memory \<Rightarrow> addr \<Rightarrow> nat \<Rightarrow> u64" where
  "load_le m p 0 = 0"
| "load_le m p (Suc n) = ucast (m p) OR push_bit 8 (load_le m (p + 1) n)"

section \<open>Operations\<close>

fun bytes_loop :: "memory \<Rightarrow> addr \<Rightarrow> nat \<Rightarrow> u8 \<Rightarrow> bool" where
  "bytes_loop m p 0 v = True"
| "bytes_loop m p (Suc n) v = (if m p \<noteq> v then False else bytes_loop m (p + 1) n v)"

definition verifyTombstone :: "memory \<Rightarrow> addr \<Rightarrow> u64 \<Rightarrow> bool" where
  "verifyTombstone m p_Memory v_Length =
     (if v_Length = 0 then True
      else if p_Memory = null then False
      else bytes_loop m p_Memory (unat v_Length) TOMBSTONE)"

definition verifyRedzone :: "memory \<Rightarrow> addr \<Rightarrow> u64 \<Rightarrow> bool" where
  "verifyRedzone m p_User v_Length =
     (if v_Length = 0 then True
      else if p_User = null then False
      else bytes_loop m p_User (unat v_Length) REDZONE)"

fun canary_loop :: "memory \<Rightarrow> addr \<Rightarrow> nat \<Rightarrow> bool" where
  "canary_loop m p 0 = True"
| "canary_loop m p (Suc n) =
     (if load_le m p 8 \<noteq> GUARD_CANARY then False else canary_loop m (p + 8) n)"

definition verifyCanaries :: "memory \<Rightarrow> addr \<Rightarrow> u64 \<Rightarrow> bool" where
  "verifyCanaries m p_User v_Length =
     (if v_Length = 0 then True
      else if p_User = null then False
      else
        let fullWords = v_Length div 8; tail = v_Length mod 8
        in if \<not> canary_loop m p_User (unat fullWords) then False
           else if tail > 0 then
             list_all (\<lambda>i. m (p_User + fullWords * 8 + of_nat i) = canary_byte i) [0..<unat tail]
           else True)"

fun stamp_loop :: "memory \<Rightarrow> addr \<Rightarrow> nat \<Rightarrow> memory" where
  "stamp_loop m p 0 = m"
| "stamp_loop m p (Suc n) = stamp_loop (mem_write m p (canary_bytes 8)) (p + 8) n"

definition stampCanary :: "memory \<Rightarrow> addr \<Rightarrow> u64 \<Rightarrow> memory" where
  "stampCanary m p_Dst v_Length =
     (let fullWords = v_Length div 8; tail = v_Length mod 8;
          m = stamp_loop m p_Dst (unat fullWords)
      in if tail > 0 then mem_write m (p_Dst + fullWords * 8) (canary_bytes (unat tail)) else m)"

section \<open>Closed forms\<close>

lemma bytes_loop_iff: "bytes_loop m p n v \<longleftrightarrow> (\<forall>i < n. m (p + of_nat i) = v)"
proof (induction n arbitrary: p)
  case (Suc n)
  show ?case
    by (auto simp: Suc All_less_Suc2 algebra_simps)
qed simp

lemma verifyTombstone_iff:
  "verifyTombstone m p n \<longleftrightarrow> n = 0 \<or> p \<noteq> null \<and> (\<forall>i < unat n. m (p + of_nat i) = TOMBSTONE)"
  by (simp add: verifyTombstone_def bytes_loop_iff)

lemma verifyRedzone_iff:
  "verifyRedzone m p n \<longleftrightarrow> n = 0 \<or> p \<noteq> null \<and> (\<forall>i < unat n. m (p + of_nat i) = REDZONE)"
  by (simp add: verifyRedzone_def bytes_loop_iff)

lemma bit_load_le:
  "n \<le> 8 \<Longrightarrow> bit (load_le m p n) j \<longleftrightarrow> j < 8 * n \<and> bit (m (p + of_nat (j div 8))) (j mod 8)"
proof (induction n arbitrary: p j)
  case (Suc n)
  show ?case
  proof (cases "j < 8")
    case True
    then show ?thesis by (simp add: bit_simps)
  next
    case False
    define k where "k = j - 8"
    with False have j: "j = k + 8" by simp
    have "bit (load_le m p (Suc n)) j \<longleftrightarrow> j < 64 \<and> bit (load_le m (p + 1) n) k"
      using False by (auto simp: bit_simps k_def dest: bit_imp_le_length)
    also have "\<dots> \<longleftrightarrow> j < 64 \<and> k < 8 * n \<and> bit (m (p + 1 + of_nat (k div 8))) (k mod 8)"
      using Suc by simp
    also have "\<dots> \<longleftrightarrow> j < 8 * Suc n \<and> bit (m (p + of_nat (j div 8))) (j mod 8)"
    proof -
      have "j div 8 = Suc (k div 8)" and "j mod 8 = k mod 8" by (simp_all add: j)
      with Suc.prems show ?thesis by (auto simp: j add.assoc)
    qed
    finally show ?thesis .
  qed
qed simp

lemma bit_canary_byte: "j < 8 \<Longrightarrow> bit (canary_byte i) j \<longleftrightarrow> bit GUARD_CANARY (8 * i + j)"
  by (simp add: canary_byte_def bit_simps)

lemma load_canary_iff:
  "load_le m p 8 = GUARD_CANARY \<longleftrightarrow> (\<forall>i < 8. m (p + of_nat i) = canary_byte i)"
proof
  assume eq: "load_le m p 8 = GUARD_CANARY"
  show "\<forall>i < 8. m (p + of_nat i) = canary_byte i"
  proof (intro allI impI bit_word_eqI)
    fix i j :: nat assume "i < 8" and j: "j < LENGTH(8)"
    then have "bit (load_le m p 8) (8 * i + j) \<longleftrightarrow> bit (m (p + of_nat i)) j"
      by (simp add: bit_load_le)
    with eq j show "bit (m (p + of_nat i)) j = bit (canary_byte i) j"
      by (simp add: bit_canary_byte)
  qed
next
  assume bytes: "\<forall>i < 8. m (p + of_nat i) = canary_byte i"
  show "load_le m p 8 = GUARD_CANARY"
  proof (rule bit_word_eqI)
    fix n assume n: "n < LENGTH(64)"
    then have "n div 8 < 8" by simp
    with bytes have "bit (load_le m p 8) n \<longleftrightarrow> bit (canary_byte (n div 8)) (n mod 8)"
      using n by (simp add: bit_load_le)
    then show "bit (load_le m p 8) n = bit GUARD_CANARY n"
      by (simp add: bit_canary_byte)
  qed
qed

lemma all_less_add_split:
  "(\<forall>i < a + b. P i) \<longleftrightarrow> (\<forall>i < a. P i) \<and> (\<forall>i < b. P (a + i))" for a b :: nat
proof (intro iffI conjI allI impI)
  fix i assume "(\<forall>i < a. P i) \<and> (\<forall>i < b. P (a + i))" and "i < a + b"
  then show "P i" by (cases "i < a") (auto dest: spec [of _ "i - a"])
qed auto

lemma canary_loop_iff:
  "canary_loop m p n \<longleftrightarrow> (\<forall>i < 8 * n. m (p + of_nat i) = canary_byte (i mod 8))"
proof (induction n arbitrary: p)
  case (Suc n)
  have "(\<forall>i < 8 * Suc n. m (p + of_nat i) = canary_byte (i mod 8))
    \<longleftrightarrow> (\<forall>i < 8. m (p + of_nat i) = canary_byte i)
       \<and> (\<forall>i < 8 * n. m (p + 8 + of_nat i) = canary_byte (i mod 8))"
    using all_less_add_split [of 8 "8 * n" "\<lambda>i. m (p + of_nat i) = canary_byte (i mod 8)"]
    by (simp add: algebra_simps)
  with Suc show ?case by (simp add: load_canary_iff)
qed simp

lemma div_mod_8_unat: "unat (n :: u64) = 8 * unat (n div 8) + unat (n mod 8)"
proof -
  have "unat (n div 8) = unat n div 8" and "unat (n mod 8) = unat n mod 8"
    by (simp_all add: unat_div unat_mod)
  then show ?thesis by (simp only: mult_div_mod_eq)
qed

lemma verifyCanaries_iff:
  "verifyCanaries m p n
     \<longleftrightarrow> n = 0 \<or> p \<noteq> null \<and> (\<forall>i < unat n. m (p + of_nat i) = canary_byte (i mod 8))"
proof -
  have split: "(\<forall>i < unat n. m (p + of_nat i) = canary_byte (i mod 8))
    \<longleftrightarrow> (\<forall>i < 8 * unat (n div 8). m (p + of_nat i) = canary_byte (i mod 8))
       \<and> (\<forall>i < unat (n mod 8). m (p + n div 8 * 8 + of_nat i) = canary_byte i)"
  proof -
    have "(of_nat (8 * unat (n div 8)) :: u64) = n div 8 * 8" by simp
    moreover have "unat (n mod 8) \<le> 8" by (simp add: unat_mod)
    ultimately show ?thesis
      by (subst div_mod_8_unat, subst all_less_add_split) (auto simp: algebra_simps)
  qed
  have "n mod 8 > 0 \<longleftrightarrow> unat (n mod 8) \<noteq> 0" by (simp add: word_gt_0 unat_eq_0)
  then show ?thesis
    unfolding verifyCanaries_def Let_def canary_loop_iff split
    by (auto simp: list_all_iff)
qed

lemma canary_bytes_write:
  "mem_write m p (canary_bytes n) a
     = (if unat (a - p) < n then canary_byte (unat (a - p)) else m a)"
  by (simp add: mem_write_def canary_bytes_def)

lemma stamp_loop_apply:
  "8 * n \<le> 18446744073709551616 \<Longrightarrow>
   stamp_loop m p n a = (if unat (a - p) < 8 * n then canary_byte (unat (a - p) mod 8) else m a)"
proof (induction n arbitrary: m p)
  case (Suc n)
  then have "stamp_loop m p (Suc n) a
    = (if unat (a - (p + 8)) < 8 * n then canary_byte (unat (a - (p + 8)) mod 8)
       else if unat (a - p) < 8 then canary_byte (unat (a - p)) else m a)"
    by (simp add: canary_bytes_write)
  moreover have "unat (a - (p + 8)) = (if 8 \<le> unat (a - p) then unat (a - p) - 8
      else 18446744073709551616 + unat (a - p) - 8)"
    using unat_minus_offset [of a p 8] by simp
  ultimately show ?case
    using Suc.prems by (auto simp: le_mod_geq)
qed simp

lemma stampCanary_apply:
  "stampCanary m p n a = (if in_range a p n then canary_byte (unat (a - p) mod 8) else m a)"
proof -
  let ?w = "unat (n div 8)" and ?t = "unat (n mod 8)" and ?r = "unat (a - p)"
  note n = div_mod_8_unat [of n]
  have w: "8 * ?w \<le> 18446744073709551616" using unat_lt_64 [of n] n by linarith
  have prod: "unat (n div 8 * 8) = 8 * ?w"
    using unat_lt_64 [of n] n by (subst unat_mult_lem [THEN iffD1]) auto
  have t: "?t < 8" by (simp add: unat_mod)
  have off: "unat (a - (p + n div 8 * 8))
      = (if 8 * ?w \<le> ?r then ?r - 8 * ?w else 18446744073709551616 + ?r - 8 * ?w)"
    by (simp add: unat_minus_offset prod)
  have "stampCanary m p n a
    = (if ?t > 0 \<and> unat (a - (p + n div 8 * 8)) < ?t then canary_byte (unat (a - (p + n div 8 * 8)))
       else if ?r < 8 * ?w then canary_byte (?r mod 8) else m a)"
    by (auto simp: stampCanary_def Let_def canary_bytes_write stamp_loop_apply [OF w] word_gt_0
        unat_gt_0)
  also have "\<dots> = (if ?r < unat n then canary_byte (?r mod 8) else m a)"
  proof (cases "8 * ?w \<le> ?r \<and> ?r < unat n")
    case True
    then have "?r - 8 * ?w < ?t" using n by linarith
    moreover have "?r mod 8 = ?r - 8 * ?w"
    proof -
      define d where "d = ?r - 8 * ?w"
      have "?r = d + ?w * 8" and "d < 8" using True t \<open>?r - 8 * ?w < ?t\<close> by (simp_all add: d_def)
      then have "?r mod 8 = d" by (metis mod_less mod_mult_self1)
      then show ?thesis by (simp add: d_def)
    qed
    ultimately show ?thesis using True by (simp add: off)
  next
    case False
    have "\<not> 18446744073709551616 + ?r - 8 * ?w < ?t"
      using n unat_lt_64 [of n] by linarith
    with False n show ?thesis by (auto simp: off)
  qed
  finally show ?thesis by (simp add: in_range_base)
qed

lemma in_range_iff_index:
  "in_range a p n \<longleftrightarrow> (\<exists>i < unat n. a = p + of_nat i)"
proof
  assume "in_range a p n"
  then have "unat (a - p) < unat n" by (simp add: in_range_base)
  moreover have "a = p + of_nat (unat (a - p))" by simp
  ultimately show "\<exists>i < unat n. a = p + of_nat i" by blast
next
  assume "\<exists>i < unat n. a = p + of_nat i"
  then obtain i where i: "i < unat n" "a = p + of_nat i" by blast
  moreover from i have "i < 18446744073709551616" using unat_lt_64 [of n] by linarith
  ultimately have "unat (a - p) = i" by (simp add: unat_of_nat_64)
  with i show "in_range a p n" by (simp add: in_range_base)
qed

end
