(* ===== verification/Kerbecs_Handle.thy ===== *)
theory Kerbecs_Handle
  imports Kerbecs_Runtime Kerbecs_Violation Kerbecs_ShadowUtils
begin

text \<open>
  \<open>src/Public/ShadowedMemory.h\<close>: the handle a region gives out, and the state all region operations
  work on. \<open>world\<close> is the runtime, the byte memory of the program, the \<open>AccessInfo\<close> slots of the metadata
  zone by address (a store of their own, as that memory is only ever used at this type), and the
  violation stack of every thread, a thread being named by the address of its \<open>t_ThreadAnchor\<close>.

  The template parameter \<open>T\<close> enters as \<open>sizeof(T)\<close> and \<open>alignof(T)\<close>; \<open>__rdtsc()\<close> is an input. A
  \<open>ptrdiff_t\<close> is a \<open>64 word\<close> read as signed; where its arithmetic overflows the behaviour is
  \<open>Undefined\<close>.
\<close>

record access_info =
  ai_UserSize :: u64
  ai_Generation :: u64

record 'e world =
  w_rt :: "'e runtime"
  w_mem :: memory
  w_infos :: "addr \<Rightarrow> access_info"
  w_viol :: "addr \<Rightarrow> vstack"

record handle =
  h_MetaPtr :: addr
  h_PayloadPtr :: addr
  h_ShadowPtr :: addr
  h_Generation :: u64

definition handle_null :: handle where
  "handle_null = \<lparr>h_MetaPtr = null, h_PayloadPtr = null, h_ShadowPtr = null, h_Generation = 0\<rparr>"

text \<open>A caller: its thread and the time stamp it reads.\<close>

record caller =
  c_anchor :: addr
  c_tsc :: u64

text \<open>Counting a violation and pushing it on the caller's stack, as every detection site does.\<close>

definition report ::
  "'e world \<Rightarrow> caller \<Rightarrow> violation_kind \<Rightarrow> addr \<Rightarrow> addr \<Rightarrow> u64 \<Rightarrow> 'e world" where
  "report w c kind p_Address p_BlockBase blockSize =
     (let k = rt_core (w_rt w);
          k = k\<lparr>k_stats := statsVia True statsOnViolation (k_stats k)\<rparr>;
          v = makeViolation (currentThreadID (c_anchor c)) (c_tsc c) kind p_Address p_BlockBase blockSize
      in w\<lparr>w_rt := (w_rt w)\<lparr>rt_core := k\<rparr>,
           w_viol := (w_viol w)(c_anchor c := pushViolation (w_viol w (c_anchor c)) v)\<rparr>)"

definition handle_check :: "'e world \<Rightarrow> caller \<Rightarrow> handle \<Rightarrow> ('e world, unit) outcome" where
  "handle_check w c h =
     (if h_PayloadPtr h = null \<or> h_MetaPtr h = null then Ret w ()
      else if ai_Generation (w_infos w (h_MetaPtr h)) \<noteq> h_Generation h
      then Trap (report w c UseAfterFree (h_PayloadPtr h) (h_PayloadPtr h) 0)
      else Ret w ())"

text \<open>\<open>operator->\<close> and the conversion to \<open>T*\<close>; \<open>operator*\<close> forms a reference, which null has not.\<close>

definition handle_ptr :: "'e world \<Rightarrow> caller \<Rightarrow> handle \<Rightarrow> ('e world, addr) outcome" where
  "handle_ptr w c h =
     (case handle_check w c h of Ret w' u \<Rightarrow> Ret w' (h_PayloadPtr h) | Trap w' \<Rightarrow> Trap w' | Undefined \<Rightarrow> Undefined)"

definition handle_deref :: "'e world \<Rightarrow> caller \<Rightarrow> handle \<Rightarrow> ('e world, addr) outcome" where
  "handle_deref w c h =
     (case handle_check w c h of
        Ret w' u \<Rightarrow> if h_PayloadPtr h = null then Undefined else Ret w' (h_PayloadPtr h)
      | Trap w' \<Rightarrow> Trap w'
      | Undefined \<Rightarrow> Undefined)"

definition handle_eq :: "handle \<Rightarrow> handle \<Rightarrow> bool" where
  "handle_eq a b \<longleftrightarrow> h_PayloadPtr a = h_PayloadPtr b \<and> h_Generation a = h_Generation b"

definition signed_fits :: "int \<Rightarrow> bool" where
  "signed_fits i \<longleftrightarrow> - (2 ^ 63) \<le> i \<and> i < 2 ^ 63"

definition handle_plus ::
  "'e world \<Rightarrow> caller \<Rightarrow> u64 \<Rightarrow> handle \<Rightarrow> u64 \<Rightarrow> ('e world, handle) outcome" where
  "handle_plus w c sizeT h v_Index =
     (if h_PayloadPtr h = null \<or> h_MetaPtr h = null then Ret w handle_null
      else if \<not> signed_fits (sint v_Index * sint sizeT)
           \<or> \<not> signed_fits (sint v_Index * sint sizeT + sint sizeT) then Undefined
      else
        let info = w_infos w (h_MetaPtr h);
            byteOffset = v_Index * sizeT;
            newOffsetEnd = byteOffset + sizeT
        in if sint newOffsetEnd < 0 \<or> sint byteOffset < 0 \<or> newOffsetEnd > ai_UserSize info
           then Ret (report w c BufferOverflow (h_PayloadPtr h + byteOffset) (h_PayloadPtr h) (ai_UserSize info))
                  handle_null
           else Ret w (h\<lparr>h_PayloadPtr := h_PayloadPtr h + byteOffset\<rparr>))"

fun poisoned_loop :: "memory \<Rightarrow> addr \<Rightarrow> nat \<Rightarrow> u64 \<Rightarrow> u64" where
  "poisoned_loop m p 0 poisoned = poisoned"
| "poisoned_loop m p (Suc n) poisoned =
     poisoned_loop m (p + 1) n (if m p = POISONED then poisoned + 1 else poisoned)"

definition shadowStateOf :: "memory \<Rightarrow> handle \<Rightarrow> u64 \<Rightarrow> memory_state" where
  "shadowStateOf m h v_Size =
     (if h_PayloadPtr h = null then CORRUPTED
      else
        let poisoned = poisoned_loop m (h_PayloadPtr h) (unat v_Size) 0
        in if poisoned = v_Size then UNINITIALIZED
           else if poisoned > 0 \<and> poisoned < v_Size then CORRUPTED
           else if verifyTombstone m (h_PayloadPtr h) v_Size then DESTROYED
           else CONSTRUCTED)"

section \<open>Lemmas\<close>

lemma poisoned_loop_count:
  assumes "unat k + n < 18446744073709551616"
  shows "unat (poisoned_loop m p n k) = unat k + card {i. i < n \<and> m (p + of_nat i) = POISONED}"
  using assms
proof (induction n arbitrary: p k)
  case (Suc n)
  let ?k = "if m p = POISONED then k + 1 else k"
  have k: "unat ?k = unat k + (if m p = POISONED then 1 else 0)"
    using Suc.prems by (simp add: unat_succ_nowrap)
  let ?S = "{i. i < n \<and> m (p + 1 + of_nat i) = POISONED}"
  have "{i. i < Suc n \<and> m (p + of_nat i) = POISONED} = (if m p = POISONED then {0} else {}) \<union> Suc ` ?S"
  proof (rule set_eqI)
    fix i
    show "i \<in> {i. i < Suc n \<and> m (p + of_nat i) = POISONED}
        \<longleftrightarrow> i \<in> (if m p = POISONED then {0} else {}) \<union> Suc ` ?S"
      by (cases i) (auto simp: add.assoc)
  qed
  then have "card {i. i < Suc n \<and> m (p + of_nat i) = POISONED} = (if m p = POISONED then 1 else 0) + card ?S"
    by (simp add: card_Un_disjoint card_image)
  moreover have "unat (poisoned_loop m (p + 1) n ?k) = unat ?k + card ?S"
    using Suc.prems k by (intro Suc.IH) (simp split: if_splits)
  ultimately show ?case using k by simp
qed simp

lemma sint_unat_small: "unat (w :: u64) < 9223372036854775808 \<Longrightarrow> sint w = int (unat w)"
proof -
  assume "unat w < 9223372036854775808"
  then have "int (unat w) < 9223372036854775808" by linarith
  then have lt: "uint w < 9223372036854775808" by simp
  have "sint w = signed_take_bit 63 (uint w)" by (simp add: sint_uint)
  also have "\<dots> = uint w"
  proof (rule signed_take_bit_int_eq_self)
    show "- (2 ^ 63) \<le> uint w" by (rule order_trans [OF _ uint_ge_0]) simp
    show "uint w < 2 ^ 63" using lt by simp
  qed
  finally show ?thesis by simp
qed

lemma sint_nonneg_unat:
  assumes "0 \<le> sint (w :: u64)"
  shows "int (unat w) = sint w"
proof -
  have lt: "sint w < 18446744073709551616" using sint_lt [of w] by simp
  have "uint w = take_bit 64 (sint w)" by (simp add: uint_sint)
  also have "\<dots> = sint w" using assms lt by (intro take_bit_int_eq_self) simp_all
  finally show ?thesis by simp
qed

lemma report_stats: "st_TotalViolations (k_stats (rt_core (w_rt (report w c kd a b n))))
    = st_TotalViolations (k_stats (rt_core (w_rt w))) + 1"
  by (simp add: report_def statsVia_def statsOnViolation_def Let_def)

lemma report_frame [env_simps]:
  "w_mem (report w c kd a b n) = w_mem w" "w_infos (report w c kd a b n) = w_infos w"
  "k_regs (rt_core (w_rt (report w c kd a b n))) = k_regs (rt_core (w_rt w))"
  "k_queue (rt_core (w_rt (report w c kd a b n))) = k_queue (rt_core (w_rt w))"
  "k_env (rt_core (w_rt (report w c kd a b n))) = k_env (rt_core (w_rt w))"
  "k_epoch (rt_core (w_rt (report w c kd a b n))) = k_epoch (rt_core (w_rt w))"
  by (simp_all add: report_def Let_def)

lemma handle_plus_eq:
  assumes ne: "h_PayloadPtr h \<noteq> null" "h_MetaPtr h \<noteq> null"
    and sz: "0 < unat sizeT" "unat sizeT < 2 ^ 63"
    and fit: "signed_fits (sint i * int (unat sizeT))" "signed_fits (sint i * int (unat sizeT) + int (unat sizeT))"
  shows "handle_plus w c sizeT h i =
    (if 0 \<le> sint i \<and> (sint i + 1) * int (unat sizeT) \<le> int (unat (ai_UserSize (w_infos w (h_MetaPtr h))))
     then Ret w (h\<lparr>h_PayloadPtr := h_PayloadPtr h + i * sizeT\<rparr>)
     else Ret (report w c BufferOverflow (h_PayloadPtr h + i * sizeT) (h_PayloadPtr h)
                 (ai_UserSize (w_infos w (h_MetaPtr h)))) handle_null)"
proof -
  let ?us = "ai_UserSize (w_infos w (h_MetaPtr h))"
  define X where "X = int (unat sizeT)"
  have s: "sint sizeT = X" using sz(2) unfolding X_def by (intro sint_unat_small) simp
  have self: "signed_take_bit 63 k = k" if "signed_fits k" for k :: int
    using that by (intro signed_take_bit_int_eq_self) (simp_all add: signed_fits_def)
  note fit = fit [folded X_def]
  have off: "sint (i * sizeT) = sint i * X"
    using self [OF fit(1)] s by (simp add: sint_word_ariths)
  have end_: "sint (i * sizeT + sizeT) = sint i * X + X"
    using self [OF fit(2)] off s by (simp add: sint_word_ariths)
  have X: "0 < X" using sz(1) unfolding X_def by (simp only: of_nat_0_less_iff)
  have pos: "sint i * X < 0 \<longleftrightarrow> sint i < 0" using X by (auto simp: mult_less_0_iff)
  have ub: "i * sizeT + sizeT \<le> ?us \<longleftrightarrow> (sint i + 1) * X \<le> int (unat ?us)" if "0 \<le> sint i"
  proof -
    have "0 \<le> sint i * X + X" using that X by simp
    then have "int (unat (i * sizeT + sizeT)) = sint i * X + X"
      using sint_nonneg_unat [of "i * sizeT + sizeT"] end_ by simp
    moreover have "i * sizeT + sizeT \<le> ?us \<longleftrightarrow> int (unat (i * sizeT + sizeT)) \<le> int (unat ?us)"
      by (simp only: word_le_nat_alt of_nat_le_iff)
    ultimately show ?thesis by (simp only: distrib_right mult_1)
  qed
  have low: "\<not> sint i * X + X < 0" if "0 \<le> sint i" using that X by (simp add: not_less)
  show ?thesis
  proof (cases "0 \<le> sint i")
    case True
    then show ?thesis
      using ne fit low [OF True] ub [OF True] unfolding X_def [symmetric]
      by (auto simp: handle_plus_def Let_def s off end_ pos not_less not_le)
  next
    case False
    then show ?thesis
      using ne fit unfolding X_def [symmetric]
      by (simp add: handle_plus_def Let_def s off end_ pos not_le)
  qed
qed

section \<open>Properties\<close>

text \<open>
  C20: One step \<open>h + i\<close> from the start of a block, for every index. When the byte offset of element \<open>i\<close> or
  of its end is no \<open>ptrdiff_t\<close>, the signed arithmetic of \<open>operator+\<close> is undefined behaviour. Otherwise the
  result is the element \<open>i\<close> exactly when \<open>0 \<le> i\<close> and the element ends inside the \<open>m_UserSize\<close> bytes of the
  block, and every other index gives the empty handle and reports \<open>BufferOverflow\<close>.
\<close>

theorem handle_plus_bounds:
  assumes "h_PayloadPtr h \<noteq> null" "h_MetaPtr h \<noteq> null"
    and "0 < unat sizeT" "unat sizeT < 2 ^ 63"
  shows "handle_plus w c sizeT h i =
    (if \<not> signed_fits (sint i * int (unat sizeT)) \<or> \<not> signed_fits ((sint i + 1) * int (unat sizeT)) then Undefined
     else if 0 \<le> sint i \<and> (sint i + 1) * int (unat sizeT) \<le> int (unat (ai_UserSize (w_infos w (h_MetaPtr h))))
     then Ret w (h\<lparr>h_PayloadPtr := h_PayloadPtr h + i * sizeT\<rparr>)
     else Ret (report w c BufferOverflow (h_PayloadPtr h + i * sizeT) (h_PayloadPtr h)
                 (ai_UserSize (w_infos w (h_MetaPtr h)))) handle_null)"
proof -
  have d: "(sint i + 1) * int (unat sizeT) = sint i * int (unat sizeT) + int (unat sizeT)" by (simp add: distrib_right)
  have "sint sizeT = int (unat sizeT)" using assms(4) by (intro sint_unat_small) simp
  then have undef: "handle_plus w c sizeT h i = Undefined"
    if "\<not> (signed_fits (sint i * int (unat sizeT)) \<and> signed_fits (sint i * int (unat sizeT) + int (unat sizeT)))"
    using that assms(1,2) by (simp add: handle_plus_def)
  show ?thesis
  proof (cases "signed_fits (sint i * int (unat sizeT)) \<and> signed_fits (sint i * int (unat sizeT) + int (unat sizeT))")
    case True
    then show ?thesis using handle_plus_eq [OF assms, of i w c] unfolding d by simp
  next
    case False
    then show ?thesis using undef unfolding d by simp
  qed
qed

definition handle_example :: handle where
  "handle_example = \<lparr>h_MetaPtr = 64, h_PayloadPtr = 4096, h_ShadowPtr = 8, h_Generation = 3\<rparr>"

definition world_example :: "unit world" where
  "world_example = \<lparr>w_rt = runtime_new (), w_mem = (\<lambda>_. 0), w_infos = (\<lambda>_. \<lparr>ai_UserSize = 40, ai_Generation = 3\<rparr>),
     w_viol = (\<lambda>_. vstack_init)\<rparr>"

definition caller_example :: caller where
  "caller_example = \<lparr>c_anchor = 4160, c_tsc = 99\<rparr>"

lemma sint_examples: "sint (9 :: u64) = 9" "sint (10 :: u64) = 10" "sint (1 :: u64) = 1" "sint (4 :: u64) = 4"
  by (simp_all add: sint_unat_small)

theorem handle_plus_bounds_witness:
  "handle_plus world_example caller_example 4 handle_example 9 = Ret world_example (handle_example\<lparr>h_PayloadPtr := 4132\<rparr>)
    \<and> handle_plus world_example caller_example 4 handle_example 10
      = Ret (report world_example caller_example BufferOverflow 4136 4096 40) handle_null
    \<and> handle_plus world_example caller_example 4 handle_example 4611686018427387904 = Undefined"
proof -
  have ne: "h_PayloadPtr handle_example \<noteq> null" "h_MetaPtr handle_example \<noteq> null"
    and sz: "0 < unat (4 :: u64)" "unat (4 :: u64) < 2 ^ 63" by (simp_all add: handle_example_def)
  have "sint (4611686018427387904 :: u64) = 4611686018427387904" by (simp add: sint_unat_small)
  then show ?thesis
    using handle_plus_bounds [OF ne sz, of world_example caller_example 9]
      handle_plus_bounds [OF ne sz, of world_example caller_example 10]
      handle_plus_bounds [OF ne sz, of world_example caller_example 4611686018427387904]
    by (simp add: sint_examples world_example_def handle_example_def signed_fits_def)
qed

text \<open>
  The bound is taken from the handle's current position, but against the size of the whole block:
  for a block of \<open>n\<close> elements, \<open>2 \<le> n\<close>, the handle \<open>(h + 1) + (n - 1)\<close> is accepted without a report
  and points directly behind the block; and a step back, to an element inside the block, is refused.
\<close>

theorem handle_plus_escapes_block:
  assumes ne: "h_PayloadPtr h \<noteq> null" "h_MetaPtr h \<noteq> null" "h_PayloadPtr h + sizeT \<noteq> null"
    and n: "2 \<le> unat n" and sz: "0 < unat sizeT" and small: "unat n * unat sizeT < 2 ^ 63"
    and us: "ai_UserSize (w_infos w (h_MetaPtr h)) = n * sizeT"
  shows "\<exists>h1. handle_plus w c sizeT h 1 = Ret w h1
    \<and> handle_plus w c sizeT h1 (n - 1) = Ret w (h\<lparr>h_PayloadPtr := h_PayloadPtr h + n * sizeT\<rparr>)
    \<and> (\<exists>w'. handle_plus w c sizeT h1 (- 1) = Ret w' handle_null)"
proof -
  define X where "X = int (unat sizeT)"
  define N where "N = int (unat n)"
  have X: "1 \<le> X" using sz unfolding X_def by linarith
  have N: "2 \<le> N" using n unfolding N_def by linarith
  have NX: "N * X < 9223372036854775808"
  proof -
    have "N * X = int (unat n * unat sizeT)" unfolding N_def X_def by (simp only: of_nat_mult)
    moreover have "unat n * unat sizeT < 9223372036854775808" using small by simp
    then have "int (unat n * unat sizeT) < int 9223372036854775808" by (simp only: of_nat_less_iff)
    then have "int (unat n * unat sizeT) < 9223372036854775808" by (simp only: of_nat_numeral)
    ultimately show ?thesis by (simp only:)
  qed
  have "1 * X \<le> N * X" "N * 1 \<le> N * X" using X N by (intro mult_right_mono mult_left_mono; linarith)+
  then have lt: "X < 9223372036854775808" "N < 9223372036854775808" using NX by linarith+
  have "unat (n * sizeT) = unat n * unat sizeT" using small by (simp add: unat_word_ariths)
  then have nz: "int (unat (n * sizeT)) = N * X" unfolding N_def X_def by (simp only: of_nat_mult)
  have us': "int (unat (ai_UserSize (w_infos w (h_MetaPtr h)))) = N * X" using nz us by simp
  have n1: "unat (n - 1) = unat n - 1" using n by (intro unat_minus_one) auto
  have sn1: "sint (n - 1) = N - 1"
  proof -
    have "unat n < 9223372036854775808" using lt(2) unfolding N_def by linarith
    then have "unat (n - 1) < 9223372036854775808" using n1 by linarith
    then have "sint (n - 1) = int (unat (n - 1))" by (rule sint_unat_small)
    also have "\<dots> = N - 1" unfolding n1 N_def using n by (simp only: of_nat_diff of_nat_1)
    finally show ?thesis .
  qed
  have two: "2 * X \<le> N * X" using X N by (intro mult_right_mono) linarith+
  have last: "(N - 1) * X + X = N * X" by (simp add: algebra_simps)
  have "unat sizeT < 9223372036854775808" using lt(1) unfolding X_def by linarith
  then have szg: "unat sizeT < 2 ^ 63" by simp
  have uX: "uint sizeT = X" by (simp add: X_def)
  have X62: "X < 4611686018427387904" "- 4611686018427387904 \<le> X" using two NX X by linarith+
  have us'': "uint (ai_UserSize (w_infos w (h_MetaPtr h))) = N * X" using us' by simp
  let ?h1 = "h\<lparr>h_PayloadPtr := h_PayloadPtr h + sizeT\<rparr>"
  have p1: "handle_plus w c sizeT h 1 = Ret w ?h1"
    using handle_plus_eq [OF ne(1,2) sz szg, of 1 w c] two X62
    by (simp add: signed_fits_def uX us'')
  have q: "h_PayloadPtr ?h1 \<noteq> null" "h_MetaPtr ?h1 \<noteq> null" using ne by simp_all
  have low: "0 \<le> (N - 1) * X" using X N by simp
  have fits: "signed_fits (sint (n - 1) * int (unat sizeT))"
    "signed_fits (sint (n - 1) * int (unat sizeT) + int (unat sizeT))"
    unfolding sn1 X_def [symmetric] signed_fits_def using low last NX X by simp_all
  have cond: "0 \<le> sint (n - 1)
      \<and> (sint (n - 1) + 1) * int (unat sizeT) \<le> int (unat (ai_UserSize (w_infos w (h_MetaPtr ?h1))))"
    unfolding sn1 X_def [symmetric] using N us' by simp
  have addr: "h_PayloadPtr h + sizeT + (n - 1) * sizeT = h_PayloadPtr h + n * sizeT"
    by (simp only: left_diff_distrib mult_1) simp
  have p2: "handle_plus w c sizeT ?h1 (n - 1) = Ret w (h\<lparr>h_PayloadPtr := h_PayloadPtr h + n * sizeT\<rparr>)"
    unfolding handle_plus_eq [OF q sz szg fits] if_P [OF cond] by (simp add: addr)
  have "sint (- 1 :: u64) = - 1" by simp
  then have p3: "\<exists>w'. handle_plus w c sizeT ?h1 (- 1) = Ret w' handle_null"
    using handle_plus_eq [OF q sz szg, of "- 1" w c] lt X
    by (simp add: signed_fits_def uX)
  show ?thesis using p1 p2 p3 by blast
qed

theorem handle_plus_escapes_block_witness:
  "\<exists>h1. handle_plus world_example caller_example 4 handle_example 1 = Ret world_example h1
    \<and> handle_plus world_example caller_example 4 h1 (10 - 1)
      = Ret world_example (handle_example\<lparr>h_PayloadPtr := 4136\<rparr>)
    \<and> (\<exists>w'. handle_plus world_example caller_example 4 h1 (- 1) = Ret w' handle_null)"
proof -
  have ne: "h_PayloadPtr handle_example \<noteq> null" "h_MetaPtr handle_example \<noteq> null"
    "h_PayloadPtr handle_example + 4 \<noteq> null" by (simp_all add: handle_example_def)
  have us: "ai_UserSize (w_infos world_example (h_MetaPtr handle_example)) = 10 * 4"
    by (simp add: world_example_def)
  have to: "h_PayloadPtr handle_example + 10 * 4 = 4136" by (simp add: handle_example_def)
  show ?thesis
    using handle_plus_escapes_block [OF ne, of 10 world_example caller_example] us unfolding to by simp
qed

text \<open>
  The state of a block read from its bytes: uninitialised when every byte is \<open>POISONED\<close>,
  otherwise corrupted when some byte is; destroyed when every byte is \<open>TOMBSTONE\<close>; constructed in all other
  cases. An empty handle is corrupted.
\<close>

theorem shadowStateOf_exact:
  shows "shadowStateOf m h n =
    (let bytes = map (\<lambda>i. m (h_PayloadPtr h + of_nat i)) [0..<unat n]
     in if h_PayloadPtr h = null then CORRUPTED
        else if set bytes \<subseteq> {POISONED} then UNINITIALIZED
        else if POISONED \<in> set bytes then CORRUPTED
        else if set bytes \<subseteq> {TOMBSTONE} then DESTROYED
        else CONSTRUCTED)"
proof -
  let ?p = "h_PayloadPtr h"
  define S where "S = {i. i < unat n \<and> m (?p + of_nat i) = POISONED}"
  have count: "unat (poisoned_loop m ?p (unat n) 0) = card S"
    using poisoned_loop_count [of 0 "unat n" m ?p] by (simp add: S_def)
  have sub: "S \<subseteq> {..<unat n}" by (auto simp: S_def)
  then have fin: "finite S" and le: "card S \<le> unat n"
    using finite_subset card_mono [OF _ sub] by auto
  have "card S = unat n \<longleftrightarrow> S = {..<unat n}" using card_subset_eq [OF _ sub] by auto
  also have "\<dots> \<longleftrightarrow> (\<forall>i < unat n. m (?p + of_nat i) = POISONED)" by (auto simp: S_def)
  finally have all: "poisoned_loop m ?p (unat n) 0 = n \<longleftrightarrow> (\<forall>i < unat n. m (?p + of_nat i) = POISONED)"
    by (simp only: word_eq_iff_unat count)
  have "0 < card S \<longleftrightarrow> (\<exists>i < unat n. m (?p + of_nat i) = POISONED)" using fin by (auto simp: S_def card_gt_0_iff)
  then have some: "poisoned_loop m ?p (unat n) 0 > 0 \<longleftrightarrow> (\<exists>i < unat n. m (?p + of_nat i) = POISONED)"
    by (simp only: word_less_nat_alt count unat_0)
  have below: "poisoned_loop m ?p (unat n) 0 < n" if "\<not> poisoned_loop m ?p (unat n) 0 = n"
    using that le by (simp only: word_less_nat_alt word_eq_iff_unat count)
  let ?bytes = "map (\<lambda>i. m (?p + of_nat i)) [0..<unat n]"
  have sets: "set ?bytes \<subseteq> {v} \<longleftrightarrow> (\<forall>i < unat n. m (?p + of_nat i) = v)"
    "v \<in> set ?bytes \<longleftrightarrow> (\<exists>i < unat n. m (?p + of_nat i) = v)" for v
    by (simp_all add: image_subset_iff image_iff Bex_def Ball_def eq_commute [of v])
  show ?thesis
  proof (cases "?p = null \<or> poisoned_loop m ?p (unat n) 0 = n")
    case True
    then show ?thesis unfolding Let_def sets all [symmetric] by (auto simp: shadowStateOf_def Let_def)
  next
    case False
    then have "n \<noteq> 0" using below by auto
    with False show ?thesis
      unfolding Let_def sets all [symmetric] some [symmetric]
      by (simp add: shadowStateOf_def Let_def verifyTombstone_iff below)
  qed
qed

end
