(* ===== verification/Kerbecs_Shadow.thy ===== *)
theory Kerbecs_Shadow
  imports Kerbecs_Handle
begin

text \<open>
  The part of \<open>src/Public/Region.h\<close> that keeps the shadow bitmap: one bit per byte of the region's
  logical range, eight to a byte of the blob in the shadow zone. \<open>region\<close> is the object itself; its
  allocation registry is kept, with all others, in \<open>k_regs\<close> under the address of the member. The shadow
  bytes are part of the byte memory, and the pages they are on belong to the operating system.

  The lemmas read the bitmap back: \<open>shadow_bit\<close> is the bit of a user offset, and one pass of the loop
  changes the bits of the offsets it covers and nothing else.
\<close>

record region =
  rg_this :: addr
  rg_Allocator :: addr
  rg_Size :: u64
  rg_RegionBase :: addr
  rg_ShadowBlobPtr :: addr
  rg_MetadataMapBase :: addr
  rg_AllocatorSupport :: addr
  rg_AllocationRegistry :: addr
  rg_Initialized :: bool

definition region_contains :: "region \<Rightarrow> addr \<Rightarrow> u64 \<Rightarrow> bool" where
  "region_contains r p_Address v_Size =
     (if rg_RegionBase r = null \<or> p_Address = null \<or> v_Size = 0 then False
      else
        let base = rg_RegionBase r;
            address = p_Address
        in address \<ge> base \<and> address - base \<le> rg_Size r \<and> v_Size \<le> rg_Size r - (address - base))"

text \<open>The inner loop, with \<open>off\<close> standing for \<open>bitOffset + i\<close>.\<close>

fun bit_loop :: "memory \<Rightarrow> addr \<Rightarrow> nat \<Rightarrow> nat \<Rightarrow> bool \<Rightarrow> memory" where
  "bit_loop m shadowByte off 0 v_Poisoned = m"
| "bit_loop m shadowByte off (Suc n) v_Poisoned =
     (let mask = push_bit off (1 :: u8)
      in bit_loop (m(shadowByte := (if v_Poisoned then m shadowByte OR mask else m shadowByte AND NOT mask)))
           shadowByte (off + 1) n v_Poisoned)"

lemma unat_and_7: "unat (x AND 7 :: u64) = unat x mod 8"
proof -
  have "x AND 7 = take_bit 3 x" by (simp add: take_bit_eq_mask mask_eq_exp_minus_1)
  then have "unat (x AND 7) = take_bit 3 (unat x)" by (simp only: unsigned_take_bit_eq)
  then show ?thesis by (simp only: take_bit_eq_mod) simp
qed

text \<open>How far one pass gets: to the end of the shadow byte, or of the range.\<close>

lemma shadow_span:
  fixes u remaining :: u64
  assumes "remaining \<noteq> 0"
  defines "span \<equiv> min remaining (push_bit SHADOW_SCALE 1 - (u AND (push_bit SHADOW_SCALE 1 - 1)))"
  shows "unat span = min (unat remaining) (8 - unat u mod 8)" and "0 < unat span" and "span \<le> remaining"
proof -
  have c: "push_bit SHADOW_SCALE 1 = (8 :: u64)" by (simp add: SHADOW_SCALE_def)
  have b: "unat (u AND 7) = unat u mod 8" by (rule unat_and_7)
  then have "u AND 7 \<le> 8" by (simp add: word_le_nat_alt)
  then have "unat (8 - (u AND 7)) = 8 - unat u mod 8" by (simp add: unat_minus_le b)
  then show 1: "unat span = min (unat remaining) (8 - unat u mod 8)"
    unfolding span_def c by (simp add: min_def word_le_nat_alt)
  have "0 < unat remaining" using assms(1) by (simp add: unat_gt_0)
  moreover have "unat u mod 8 < 8" by simp
  ultimately show "0 < unat span" unfolding 1 by linarith
  show "span \<le> remaining" by (simp add: span_def)
qed

lemma shadow_span_decreases:
  fixes u remaining :: u64
  assumes "remaining \<noteq> 0"
  shows "unat (remaining - min remaining (push_bit SHADOW_SCALE 1 - (u AND (push_bit SHADOW_SCALE 1 - 1))))
    < unat remaining"
  using shadow_span(2,3) [OF assms, of u] by (simp add: unat_minus_le word_le_nat_alt)

text \<open>\<open>None\<close>: \<open>commitPageIfNeeded\<close> met a page that is not mapped.\<close>

function shadow_loop ::
  "'e os_api \<Rightarrow> 'e \<Rightarrow> memory \<Rightarrow> addr \<Rightarrow> addr \<Rightarrow> addr \<Rightarrow> u64 \<Rightarrow> bool \<Rightarrow> ('e \<times> memory \<times> bool) option" where
  "shadow_loop os e m base shadowBase address remaining v_Poisoned =
     (if \<not> remaining > 0 then Some (e, m, True)
      else
        let userOffset = address - base;
            shadowByte = shadowBase + drop_bit SHADOW_SCALE userOffset;
            bitOffset = userOffset AND (push_bit SHADOW_SCALE 1 - 1);
            span = min remaining (push_bit SHADOW_SCALE 1 - bitOffset)
        in (case (if v_Poisoned then commitPageIfNeeded os e shadowByte else Some (e, True)) of
              None \<Rightarrow> None
            | Some (e', committed) \<Rightarrow>
                if \<not> committed then Some (e', m, False)
                else if \<not> v_Poisoned \<and> queryPage os e' shadowByte \<noteq> PageCommitted
                then shadow_loop os e' m base shadowBase (address + span) (remaining - span) v_Poisoned
                else shadow_loop os e' (bit_loop m shadowByte (unat bitOffset) (unat span) v_Poisoned)
                       base shadowBase (address + span) (remaining - span) v_Poisoned))"
  by pat_completeness auto

termination
  by (relation "measure (\<lambda>(_, _, _, _, _, _, remaining, _). unat remaining)")
    (simp_all add: shadow_span_decreases [simplified])

declare shadow_loop.simps [simp del]

definition setShadow :: "'e os_api \<Rightarrow> region \<Rightarrow> 'e world \<Rightarrow> addr \<Rightarrow> u64 \<Rightarrow> bool \<Rightarrow> ('e world \<times> bool) option" where
  "setShadow os r w p_Address v_Size v_Poisoned =
     (if \<not> region_contains r p_Address v_Size \<or> rg_ShadowBlobPtr r = null then Some (w, False)
      else
        (case shadow_loop os (k_env (rt_core (w_rt w))) (w_mem w) (rg_RegionBase r) (rg_ShadowBlobPtr r)
                p_Address v_Size v_Poisoned of
           None \<Rightarrow> None
         | Some (e, m, ok) \<Rightarrow>
             Some (w\<lparr>w_rt := (w_rt w)\<lparr>rt_core := (rt_core (w_rt w))\<lparr>k_env := e\<rparr>\<rparr>, w_mem := m\<rparr>, ok)))"

section \<open>The bitmap\<close>

definition shadow_bit :: "memory \<Rightarrow> addr \<Rightarrow> u64 \<Rightarrow> bool" where
  "shadow_bit m shadowBase u = bit (m (shadowBase + drop_bit SHADOW_SCALE u)) (unat u mod 8)"

text \<open>The offsets of a range that starts at \<open>u\<close> and has \<open>n\<close> bytes.\<close>

definition touched :: "u64 \<Rightarrow> u64 \<Rightarrow> u64 \<Rightarrow> bool" where
  "touched u n k \<longleftrightarrow> unat u \<le> unat k \<and> unat k < unat u + unat n"

lemma bit_loop_other: "a \<noteq> p \<Longrightarrow> bit_loop m p off n v a = m a"
  by (induction m p off n v rule: bit_loop.induct) (simp_all add: Let_def)

lemma bit_loop_bit:
  "k < 8 \<Longrightarrow> bit (bit_loop m p off n v p) k \<longleftrightarrow> (if off \<le> k \<and> k < off + n then v else bit (m p) k)"
proof (induction m p off n v rule: bit_loop.induct)
  case (2 m p off n v)
  show ?case
    unfolding bit_loop.simps Let_def 2(1) [OF refl 2(2)]
    using 2(2) by (cases v; cases "k = off") (auto simp: bit_simps)
qed auto

lemma unat_drop_scale: "unat (drop_bit SHADOW_SCALE u :: u64) = unat u div 8"
proof -
  have "unat (drop_bit SHADOW_SCALE u) = drop_bit SHADOW_SCALE (take_bit 64 (unat u))"
    by (simp only: unsigned_drop_bit_eq) simp
  then show ?thesis by (simp add: SHADOW_SCALE_def drop_bit_eq_div take_bit_nat_eq_self)
qed

lemma same_shadow_byte:
  fixes u k :: u64
  assumes "unat u mod 8 + n \<le> 8" and "unat u \<le> unat k" "unat k < unat u + n"
  shows "drop_bit SHADOW_SCALE k = drop_bit SHADOW_SCALE u"
proof -
  have "unat k < 8 * (unat u div 8) + 8"
    using assms div_mult_mod_eq [of "unat u" 8] by linarith
  moreover have "8 * (unat u div 8) \<le> unat k" using assms(2) div_mult_mod_eq [of "unat u" 8] by linarith
  ultimately have "unat k div 8 = unat u div 8" by (intro div_nat_eqI) simp_all
  then show ?thesis by (simp add: word_eq_iff_unat unat_drop_scale)
qed

lemma shadow_byte_pass:
  assumes "unat u mod 8 + n \<le> 8"
  shows "shadow_bit (bit_loop m (sb + drop_bit SHADOW_SCALE u) (unat u mod 8) n v) sb k
    \<longleftrightarrow> (if unat u \<le> unat k \<and> unat k < unat u + n then v else shadow_bit m sb k)"
proof (cases "drop_bit SHADOW_SCALE k = drop_bit SHADOW_SCALE u")
  case True
  then have "unat k div 8 = unat u div 8" using unat_drop_scale by metis
  then have "unat u \<le> unat k \<and> unat k < unat u + n \<longleftrightarrow> unat u mod 8 \<le> unat k mod 8 \<and> unat k mod 8 < unat u mod 8 + n"
    using div_mult_mod_eq [of "unat k" 8] div_mult_mod_eq [of "unat u" 8] by linarith
  then show ?thesis using True by (simp add: shadow_bit_def bit_loop_bit)
next
  case False
  then show ?thesis using same_shadow_byte [OF assms, of k] by (auto simp: shadow_bit_def bit_loop_other)
qed

lemma touched_split:
  assumes "unat u + unat n < 18446744073709551616" and "s \<le> n"
  shows "touched u n k \<longleftrightarrow> (unat u \<le> unat k \<and> unat k < unat u + unat s) \<or> touched (u + s) (n - s) k"
    and "unat (u + s) + unat (n - s) = unat u + unat n"
proof -
  have le: "unat s \<le> unat n" using assms(2) by (simp add: word_le_nat_alt)
  then have 1: "unat (u + s) = unat u + unat s" using assms(1) by (intro unat_plus_nowrap) linarith
  have 2: "unat (n - s) = unat n - unat s" using assms(2) by (rule unat_minus_le)
  show "unat (u + s) + unat (n - s) = unat u + unat n" using 1 2 le by linarith
  show "touched u n k \<longleftrightarrow> (unat u \<le> unat k \<and> unat k < unat u + unat s) \<or> touched (u + s) (n - s) k"
    unfolding touched_def 1 2 using le by linarith
qed

text \<open>One pass of the loop, with the mask and the span spelled out.\<close>

lemma shadow_loop_pass:
  assumes "remaining \<noteq> 0" and "shadow_loop os e m base sb address remaining v = Some (e', m', True)"
  obtains s e1 m1 where "s \<le> remaining" "0 < unat s" "unat (address - base) mod 8 + unat s \<le> 8"
    "m1 = (if v \<or> queryPage os e (sb + drop_bit SHADOW_SCALE (address - base)) = PageCommitted
       then bit_loop m (sb + drop_bit SHADOW_SCALE (address - base)) (unat (address - base) mod 8) (unat s) v else m)"
    "v \<or> e1 = e"
    "shadow_loop os e1 m1 base sb (address + s) (remaining - s) v = Some (e', m', True)"
proof -
  let ?u = "address - base"
  define s where "s = min remaining (push_bit SHADOW_SCALE 1 - (?u AND (push_bit SHADOW_SCALE 1 - 1)))"
  note sp = shadow_span [OF assms(1), of ?u, folded s_def]
  have m8: "unat (?u AND (push_bit SHADOW_SCALE 1 - 1)) = unat ?u mod 8"
    using unat_and_7 [of ?u] by (simp add: SHADOW_SCALE_def)
  have fits: "unat ?u mod 8 + unat s \<le> 8" unfolding sp(1) by simp
  have pos: "remaining > 0" using assms(1) by (simp add: word_gt_0)
  let ?b = "sb + drop_bit SHADOW_SCALE ?u"
  let ?next = "\<lambda>e1 m1. shadow_loop os e1 m1 base sb (address + s) (remaining - s) v"
  let ?m1 = "bit_loop m ?b (unat ?u mod 8) (unat s) v"
  have eq: "(case (if v then commitPageIfNeeded os e ?b else Some (e, True)) of
      None \<Rightarrow> None
    | Some (e1, committed) \<Rightarrow>
        if \<not> committed then Some (e1, m, False)
        else if \<not> v \<and> queryPage os e1 ?b \<noteq> PageCommitted then ?next e1 m else ?next e1 ?m1)
    = Some (e', m', True)"
    using assms(2) pos
    by (subst (asm) shadow_loop.simps) (simp only: Let_def s_def [symmetric] m8 if_False not_True_eq_False)
  show thesis
  proof (cases v)
    case True
    then obtain e1 where "?next e1 ?m1 = Some (e', m', True)"
      using eq by (auto split: option.splits prod.splits if_splits)
    then show thesis using that [of s ?m1 e1] sp(2,3) fits True by simp
  next
    case False
    then show thesis using that [of s _ e] sp(2,3) fits eq by (simp split: if_splits)
  qed
qed

lemma shadow_loop_bits:
  assumes "shadow_loop os e m base sb address remaining v = Some (e', m', True)"
    and "unat (address - base) + unat remaining < 18446744073709551616"
  shows "(\<forall>k. shadow_bit m' sb k \<longleftrightarrow>
      (if touched (address - base) remaining k
          \<and> (v \<or> queryPage os e (sb + drop_bit SHADOW_SCALE k) = PageCommitted)
       then v else shadow_bit m sb k))
    \<and> (\<forall>a. (\<forall>k. touched (address - base) remaining k \<longrightarrow> a \<noteq> sb + drop_bit SHADOW_SCALE k) \<longrightarrow> m' a = m a)
    \<and> (v \<or> e' = e)"
  using assms
proof (induction "unat remaining" arbitrary: e m address remaining rule: less_induct)
  case less
  show ?case
  proof (cases "remaining = 0")
    case True
    then show ?thesis using less.prems by (subst (asm) shadow_loop.simps) (auto simp: touched_def)
  next
    case False
    obtain s e1 m1 where s: "s \<le> remaining" "0 < unat s" "unat (address - base) mod 8 + unat s \<le> 8"
      and m1: "m1 = (if v \<or> queryPage os e (sb + drop_bit SHADOW_SCALE (address - base)) = PageCommitted
         then bit_loop m (sb + drop_bit SHADOW_SCALE (address - base)) (unat (address - base) mod 8) (unat s) v else m)"
      and e1: "v \<or> e1 = e"
      and rest: "shadow_loop os e1 m1 base sb (address + s) (remaining - s) v = Some (e', m', True)"
      by (rule shadow_loop_pass [OF False less.prems(1)])
    have shift: "address + s - base = address - base + s" by simp
    note split = touched_split [OF less.prems(2) s(1)]
    have "unat (remaining - s) < unat remaining" using s(1,2) by (simp add: unat_minus_le word_le_nat_alt)
    note IH = less.hyps [OF this rest, unfolded shift, unfolded split(2), OF less.prems(2)]
    have pass: "shadow_bit m1 sb k \<longleftrightarrow>
        (if unat (address - base) \<le> unat k \<and> unat k < unat (address - base) + unat s
            \<and> (v \<or> queryPage os e (sb + drop_bit SHADOW_SCALE k) = PageCommitted)
         then v else shadow_bit m sb k)" for k
      using shadow_byte_pass [OF s(3), of m sb v k] same_shadow_byte [OF s(3), of k] unfolding m1 by auto
    have here: "touched (address - base) remaining (address - base)"
      using False by (simp add: touched_def unat_gt_0)
    have same: "v \<or> queryPage os e1 q = PageCommitted \<longleftrightarrow> v \<or> queryPage os e q = PageCommitted" for q
      using e1 by auto
    show ?thesis
    proof (intro conjI allI impI)
      fix k
      show "shadow_bit m' sb k \<longleftrightarrow> (if touched (address - base) remaining k
          \<and> (v \<or> queryPage os e (sb + drop_bit SHADOW_SCALE k) = PageCommitted) then v else shadow_bit m sb k)"
        using IH [THEN conjunct1, rule_format, of k] pass [of k] same split(1) [of k] by auto
    next
      fix a assume out: "\<forall>k. touched (address - base) remaining k \<longrightarrow> a \<noteq> sb + drop_bit SHADOW_SCALE k"
      then have "m' a = m1 a" using IH split(1) by blast
      moreover have "m1 a = m a" using out here unfolding m1 by (simp add: bit_loop_other)
      ultimately show "m' a = m a" by simp
    next
      show "v \<or> e' = e" using IH e1 by auto
    qed
  qed
qed

text \<open>The loop runs to its end when nothing has to be committed, or every page is resident.\<close>

lemma shadow_loop_total:
  assumes "v \<Longrightarrow> \<forall>k. touched (address - base) remaining k \<longrightarrow>
      commitPageIfNeeded os e (sb + drop_bit SHADOW_SCALE k) = Some (e, True)"
    and "unat (address - base) + unat remaining < 18446744073709551616"
  shows "\<exists>m'. shadow_loop os e m base sb address remaining v = Some (e, m', True)"
  using assms
proof (induction "unat remaining" arbitrary: m address remaining rule: less_induct)
  case less
  show ?case
  proof (cases "remaining = 0")
    case True
    then show ?thesis by (subst shadow_loop.simps) simp
  next
    case False
    define s where "s = min remaining (push_bit SHADOW_SCALE 1 - ((address - base) AND (push_bit SHADOW_SCALE 1 - 1)))"
    have dec: "unat (remaining - s) < unat remaining"
      unfolding s_def by (rule shadow_span_decreases [OF False])
    have shift: "address + s - base = address - base + s" by simp
    note split = touched_split [OF less.prems(2), of s]
    have le: "s \<le> remaining" by (simp add: s_def)
    have rest: "v \<Longrightarrow> \<forall>k. touched (address + s - base) (remaining - s) k \<longrightarrow>
        commitPageIfNeeded os e (sb + drop_bit SHADOW_SCALE k) = Some (e, True)"
      unfolding shift using less.prems(1) split(1) [OF le] by blast
    have fit: "unat (address + s - base) + unat (remaining - s) < 18446744073709551616"
      unfolding shift split(2) [OF le] by (rule less.prems(2))
    note IH = less.hyps [OF dec rest fit]
    have here: "touched (address - base) remaining (address - base)"
      using False by (simp add: touched_def unat_gt_0)
    then have c: "(if v then commitPageIfNeeded os e (sb + drop_bit SHADOW_SCALE (address - base)) else Some (e, True))
        = Some (e, True)" using less.prems(1) by simp
    have pos: "remaining > 0" using False by (simp add: word_gt_0)
    show ?thesis
      by (subst shadow_loop.simps)
        (simp only: Let_def s_def [symmetric] c option.case prod.case pos simp_thms if_False IH split: if_split)
  qed
qed

text \<open>Every shadow page of the region is mapped and resident.\<close>

definition shadow_resident :: "'e os_api \<Rightarrow> 'e \<Rightarrow> region \<Rightarrow> bool" where
  "shadow_resident os e r \<longleftrightarrow> (\<forall>u. u < rg_Size r \<longrightarrow>
     commitPageIfNeeded os e (rg_ShadowBlobPtr r + drop_bit SHADOW_SCALE u) = Some (e, True))"

lemma region_contains_offset:
  assumes "region_contains r p n"
  shows "unat (p - rg_RegionBase r) + unat n \<le> unat (rg_Size r)" and "n \<noteq> 0" and "p \<noteq> null"
  using assms by (auto simp: region_contains_def Let_def word_le_nat_alt unat_minus_le split: if_splits)

lemma setShadow_total:
  assumes c: "region_contains r p n" and "rg_ShadowBlobPtr r \<noteq> null"
    and res: "v \<Longrightarrow> shadow_resident os (k_env (rt_core (w_rt w))) r"
  shows "\<exists>m. setShadow os r w p n v = Some (w\<lparr>w_mem := m\<rparr>, True)"
proof -
  note off = region_contains_offset(1) [OF c]
  have "k < rg_Size r" if "touched (p - rg_RegionBase r) n k" for k
    using that off by (simp add: touched_def word_less_nat_alt)
  then have ready: "v \<Longrightarrow> \<forall>k. touched (p - rg_RegionBase r) n k \<longrightarrow>
      commitPageIfNeeded os (k_env (rt_core (w_rt w))) (rg_ShadowBlobPtr r + drop_bit SHADOW_SCALE k)
        = Some (k_env (rt_core (w_rt w)), True)"
    using res by (simp add: shadow_resident_def)
  have fit: "unat (p - rg_RegionBase r) + unat n < 18446744073709551616"
    using off unat_lt_64 [of "rg_Size r"] by linarith
  obtain m' where
    "shadow_loop os (k_env (rt_core (w_rt w))) (w_mem w) (rg_RegionBase r) (rg_ShadowBlobPtr r) p n v
      = Some (k_env (rt_core (w_rt w)), m', True)"
    using shadow_loop_total [OF ready fit] by blast
  then show ?thesis using assms(1,2) by (intro exI [of _ m']) (simp add: setShadow_def)
qed

lemma setShadow_frame:
  assumes "setShadow os r w p n v = Some (w', ok)"
  shows "w_infos w' = w_infos w" "w_viol w' = w_viol w" "rt_table (w_rt w') = rt_table (w_rt w)"
    "k_regs (rt_core (w_rt w')) = k_regs (rt_core (w_rt w))" "k_queue (rt_core (w_rt w')) = k_queue (rt_core (w_rt w))"
    "k_stats (rt_core (w_rt w')) = k_stats (rt_core (w_rt w))" "k_epoch (rt_core (w_rt w')) = k_epoch (rt_core (w_rt w))"
  using assms by (auto simp: setShadow_def split: if_splits option.splits)

lemma setShadow_refuses: "\<not> region_contains r p n \<Longrightarrow> setShadow os r w p n v = Some (w, False)"
  by (simp add: setShadow_def)

lemma setShadow_bits:
  assumes "setShadow os r w p n v = Some (w', True)"
  shows "region_contains r p n
    \<and> (\<forall>k. shadow_bit (w_mem w') (rg_ShadowBlobPtr r) k \<longleftrightarrow>
        (if touched (p - rg_RegionBase r) n k \<and> (v \<or> queryPage os (k_env (rt_core (w_rt w)))
              (rg_ShadowBlobPtr r + drop_bit SHADOW_SCALE k) = PageCommitted)
         then v else shadow_bit (w_mem w) (rg_ShadowBlobPtr r) k))
    \<and> (\<forall>a. (\<forall>k. touched (p - rg_RegionBase r) n k \<longrightarrow> a \<noteq> rg_ShadowBlobPtr r + drop_bit SHADOW_SCALE k)
        \<longrightarrow> w_mem w' a = w_mem w a)
    \<and> w_infos w' = w_infos w \<and> k_regs (rt_core (w_rt w')) = k_regs (rt_core (w_rt w))"
proof -
  have c: "region_contains r p n" using assms by (auto simp: setShadow_def split: if_splits)
  then have "unat (p - rg_RegionBase r) + unat n < 18446744073709551616"
    using region_contains_offset(1) [OF c] unat_lt_64 [of "rg_Size r"] by linarith
  moreover obtain e' where
    "shadow_loop os (k_env (rt_core (w_rt w))) (w_mem w) (rg_RegionBase r) (rg_ShadowBlobPtr r) p n v
      = Some (e', w_mem w', True)"
    using assms c by (auto simp: setShadow_def split: if_splits option.splits)
  ultimately have b: "(\<forall>k. shadow_bit (w_mem w') (rg_ShadowBlobPtr r) k \<longleftrightarrow>
        (if touched (p - rg_RegionBase r) n k \<and> (v \<or> queryPage os (k_env (rt_core (w_rt w)))
              (rg_ShadowBlobPtr r + drop_bit SHADOW_SCALE k) = PageCommitted)
         then v else shadow_bit (w_mem w) (rg_ShadowBlobPtr r) k))
    \<and> (\<forall>a. (\<forall>k. touched (p - rg_RegionBase r) n k \<longrightarrow> a \<noteq> rg_ShadowBlobPtr r + drop_bit SHADOW_SCALE k)
        \<longrightarrow> w_mem w' a = w_mem w a) \<and> (v \<or> e' = k_env (rt_core (w_rt w)))"
    by (intro shadow_loop_bits)
  show ?thesis
    by (intro conjI c b [THEN conjunct1] b [THEN conjunct2, THEN conjunct1] setShadow_frame(1,4) [OF assms])
qed

lemma setShadow_defined:
  assumes "v \<Longrightarrow> shadow_resident os (k_env (rt_core (w_rt w))) r"
  obtains m ok where "setShadow os r w p n v = Some (w\<lparr>w_mem := m\<rparr>, ok)"
    and "\<And>a. (\<And>u. a \<noteq> rg_ShadowBlobPtr r + drop_bit SHADOW_SCALE u) \<Longrightarrow> m a = w_mem w a"
    and "ok \<longleftrightarrow> region_contains r p n \<and> rg_ShadowBlobPtr r \<noteq> null"
proof (cases "region_contains r p n \<and> rg_ShadowBlobPtr r \<noteq> null")
  case True
  then obtain m where m: "setShadow os r w p n v = Some (w\<lparr>w_mem := m\<rparr>, True)"
    using setShadow_total [OF _ _ assms] by blast
  have "m a = w_mem w a" if "\<And>u. a \<noteq> rg_ShadowBlobPtr r + drop_bit SHADOW_SCALE u" for a
    using setShadow_bits [OF m, THEN conjunct2, THEN conjunct2, THEN conjunct1] that by simp
  then show thesis using that [of m True] m True by blast
next
  case False
  then have "setShadow os r w p n v = Some (w\<lparr>w_mem := w_mem w\<rparr>, False)" by (auto simp: setShadow_def)
  then show thesis using that False by blast
qed

section \<open>Properties\<close>

text \<open>
  C11: When \<open>_setShadow\<close> reports success the range lies inside the region, and the bitmap has changed at
  exactly its bytes: poisoning sets the bit of every byte of the range, unpoisoning clears it
  wherever the shadow page is resident; every other bit, every other byte of memory and the rest
  of the state are as before.
\<close>

theorem shadow_bitmap_exact:
  assumes "setShadow os r w p n v = Some (w', True)"
  shows "region_contains r p n
    \<and> (\<forall>k. shadow_bit (w_mem w') (rg_ShadowBlobPtr r) k \<longleftrightarrow>
        (if touched (p - rg_RegionBase r) n k \<and> (v \<or> queryPage os (k_env (rt_core (w_rt w)))
              (rg_ShadowBlobPtr r + drop_bit SHADOW_SCALE k) = PageCommitted)
         then v else shadow_bit (w_mem w) (rg_ShadowBlobPtr r) k))
    \<and> (\<forall>a. (\<forall>k. touched (p - rg_RegionBase r) n k \<longrightarrow> a \<noteq> rg_ShadowBlobPtr r + drop_bit SHADOW_SCALE k)
        \<longrightarrow> w_mem w' a = w_mem w a)
    \<and> w_infos w' = w_infos w \<and> k_regs (rt_core (w_rt w')) = k_regs (rt_core (w_rt w))"
  using assms by (rule setShadow_bits)

text \<open>An operating system in which every mapped page is resident, and a region of 64 bytes.\<close>

definition os_resident :: "unit os_api" where
  "os_resident = \<lparr>sys_mmap = (\<lambda>e a n p. (e, Some 1048576)), sys_mprotect = (\<lambda>e a n p. (e, True)),
     sys_madvise_dontneed = (\<lambda>e a n. (e, True)), sys_munmap = (\<lambda>e a n. (e, True)),
     sys_mincore = (\<lambda>e a n. Some 1), sys_pagesize = (\<lambda>e. 4096)\<rparr>"

definition region_example :: region where
  "region_example = \<lparr>rg_this = 256, rg_Allocator = 320, rg_Size = 8192, rg_RegionBase = 65536, rg_ShadowBlobPtr = 524288,
     rg_MetadataMapBase = 786432, rg_AllocatorSupport = 328, rg_AllocationRegistry = 384, rg_Initialized = True\<rparr>"

lemma os_resident_commits: "p \<noteq> null \<Longrightarrow> commitPageIfNeeded os_resident () p = Some ((), True)"
  by (simp add: commitPageIfNeeded_def queryPage_def os_resident_def Let_def)

lemma blob_not_null: "rg_ShadowBlobPtr region_example + drop_bit SHADOW_SCALE u \<noteq> null"
proof -
  have "unat u div 8 < 2305843009213693952" by (rule less_mult_imp_div_less) simp
  then have "unat (524288 + drop_bit SHADOW_SCALE u) = 524288 + unat u div 8"
    by (subst unat_plus_nowrap) (simp_all add: unat_drop_scale)
  then have "unat (524288 + drop_bit SHADOW_SCALE u) \<noteq> 0" by linarith
  then show ?thesis by (auto simp: region_example_def)
qed

lemma example_resident: "shadow_resident os_resident () region_example"
  unfolding shadow_resident_def using os_resident_commits [OF blob_not_null] by blast

theorem shadow_bitmap_exact_witness:
  "\<exists>w'. setShadow os_resident region_example world_example 65549 40 True = Some (w', True)
    \<and> shadow_bit (w_mem w') 524288 13 \<and> shadow_bit (w_mem w') 524288 52
    \<and> (shadow_bit (w_mem w') 524288 53 \<longleftrightarrow> shadow_bit (w_mem world_example) 524288 53)"
proof -
  have c: "region_contains region_example 65549 40" by (simp add: region_contains_def region_example_def)
  obtain m where m: "setShadow os_resident region_example world_example 65549 40 True = Some (world_example\<lparr>w_mem := m\<rparr>, True)"
    using setShadow_total [OF c, of True os_resident world_example] example_resident
    by (auto simp: region_example_def)
  show ?thesis
    using shadow_bitmap_exact [OF m] m by (simp add: touched_def region_example_def)
qed

end
