(* ===== verification/Kerbecs_Layouts.thy ===== *)
theory Kerbecs_Layouts
  imports Kerbecs_Memory Kerbecs_ShadowUtils
begin

text \<open>
  \<open>src/Public/MemoryLayouts.h\<close>: the three block layouts, each with its block size, the placement of
  guards around the payload and the check of those guards. \<open>place\<close> returns the offsets and the
  memory after it; the asserts on its arguments compile to nothing in a release build and appear
  as the hypotheses of the lemmas. The contract the region relies on
  (\<open>LayoutPolicyConcept\<close> of \<open>src/Public/KerbecsEnforcements.h\<close>, with the laws its users need) is the
  locale \<open>layout_policy\<close>, interpreted by all three.

  The sizes and alignments of the metadata types follow from their members and \<open>alignas\<close>: 32 and
  32 for \<open>NormalMetaData\<close>, 64 and 64 for \<open>EnhancedMetaData\<close> (six words padded to the alignment).
  Value-initialising one zeroes its members; the 16 padding bytes of \<open>EnhancedMetaData\<close> are left
  as they were.
\<close>

definition sizeof_NormalMetaData :: u64 where "sizeof_NormalMetaData = 32"
definition alignof_NormalMetaData :: u64 where "alignof_NormalMetaData = 32"
definition sizeof_EnhancedMetaData :: u64 where "sizeof_EnhancedMetaData = 64"
definition alignof_EnhancedMetaData :: u64 where "alignof_EnhancedMetaData = 64"

lemmas layout_consts =
  sizeof_NormalMetaData_def alignof_NormalMetaData_def sizeof_EnhancedMetaData_def
  alignof_EnhancedMetaData_def REDZONE_SIZE_def CANARY_SIZE_def

section \<open>NormalLayout\<close>

record normal_offsets =
  no_RedzoneLeading :: u64
  no_UserData :: u64
  no_RedzoneTrailing :: u64
  no_MetaData :: u64

definition Normal_blockSize :: "u64 \<Rightarrow> u64 \<Rightarrow> u64" where
  "Normal_blockSize v_PayloadSize v_Align =
     (let afterLeading = alignUp REDZONE_SIZE v_Align;
          afterPayload = afterLeading + v_PayloadSize + REDZONE_SIZE;
          afterTrailing = alignUp afterPayload alignof_NormalMetaData
      in afterTrailing + sizeof_NormalMetaData)"

definition Normal_place ::
  "memory \<Rightarrow> addr \<Rightarrow> u64 \<Rightarrow> u64 \<Rightarrow> u64 \<Rightarrow> normal_offsets \<times> memory" where
  "Normal_place m base v_BlockSize v_PayloadSize v_Align =
     (let leading = 0;
          user = alignUp REDZONE_SIZE v_Align;
          m = mem_set m base REDZONE user;
          trailing = user + v_PayloadSize;
          meta = alignUp (trailing + REDZONE_SIZE) alignof_NormalMetaData;
          m = mem_set m (base + trailing) REDZONE (meta - trailing);
          m = mem_set m (base + meta) 0 sizeof_NormalMetaData
      in (\<lparr>no_RedzoneLeading = leading, no_UserData = user, no_RedzoneTrailing = trailing,
           no_MetaData = meta\<rparr>, m))"

definition Normal_verifyGuards ::
  "memory \<Rightarrow> addr \<Rightarrow> normal_offsets \<Rightarrow> u64 \<Rightarrow> bool" where
  "Normal_verifyGuards m base ofs v_BlockSize =
     (if base = null then False
      else
        let leadingSize = no_UserData ofs - no_RedzoneLeading ofs
        in if \<not> verifyRedzone m (base + no_RedzoneLeading ofs) leadingSize then False
           else
             let trailingSize = no_MetaData ofs - no_RedzoneTrailing ofs
             in if \<not> verifyRedzone m (base + no_RedzoneTrailing ofs) trailingSize then False
                else True)"

section \<open>EnhancedLayout\<close>

record enhanced_offsets =
  eo_RedzoneLeading :: u64
  eo_MetaDataLeading :: u64
  eo_CanaryLeading :: u64
  eo_UserData :: u64
  eo_CanaryTrailing :: u64
  eo_MetaDataTrailing :: u64
  eo_RedzoneTrailing :: u64

definition Enhanced_blockSize :: "u64 \<Rightarrow> u64 \<Rightarrow> u64" where
  "Enhanced_blockSize v_PayloadSize v_Align =
     (let cursor = REDZONE_SIZE;
          cursor = alignUp cursor alignof_EnhancedMetaData;
          cursor = cursor + sizeof_EnhancedMetaData;
          cursor = cursor + CANARY_SIZE;
          cursor = alignUp cursor v_Align;
          cursor = cursor + v_PayloadSize;
          cursor = cursor + CANARY_SIZE;
          cursor = alignUp cursor alignof_EnhancedMetaData;
          cursor = cursor + sizeof_EnhancedMetaData;
          cursor = cursor + REDZONE_SIZE
      in cursor)"

definition Enhanced_place ::
  "memory \<Rightarrow> addr \<Rightarrow> u64 \<Rightarrow> u64 \<Rightarrow> u64 \<Rightarrow> enhanced_offsets \<times> memory" where
  "Enhanced_place m base v_BlockSize v_PayloadSize v_Align =
     (let leading = 0;
          metaL = alignUp REDZONE_SIZE alignof_EnhancedMetaData;
          m = mem_set m base REDZONE metaL;
          m = mem_set m (base + metaL) 0 48;
          canaryL = metaL + sizeof_EnhancedMetaData;
          user = alignUp (canaryL + CANARY_SIZE) v_Align;
          m = stampCanary m (base + canaryL) (user - canaryL);
          canaryT = user + v_PayloadSize;
          metaT = alignUp (canaryT + CANARY_SIZE) alignof_EnhancedMetaData;
          m = stampCanary m (base + canaryT) (metaT - canaryT);
          m = mem_set m (base + metaT) 0 48;
          trailing = metaT + sizeof_EnhancedMetaData;
          totalSize = v_BlockSize;
          m = mem_set m (base + trailing) REDZONE (totalSize - trailing)
      in (\<lparr>eo_RedzoneLeading = leading, eo_MetaDataLeading = metaL, eo_CanaryLeading = canaryL,
           eo_UserData = user, eo_CanaryTrailing = canaryT, eo_MetaDataTrailing = metaT,
           eo_RedzoneTrailing = trailing\<rparr>, m))"

definition Enhanced_verifyGuards ::
  "memory \<Rightarrow> addr \<Rightarrow> enhanced_offsets \<Rightarrow> u64 \<Rightarrow> bool" where
  "Enhanced_verifyGuards m base ofs v_BlockSize =
     (if base = null then False
      else
        let leadingRZSize = eo_MetaDataLeading ofs - eo_RedzoneLeading ofs
        in if \<not> verifyRedzone m (base + eo_RedzoneLeading ofs) leadingRZSize then False
        else let leadingCanarySize = eo_UserData ofs - eo_CanaryLeading ofs
        in if \<not> verifyCanaries m (base + eo_CanaryLeading ofs) leadingCanarySize then False
        else let trailingCanarySize = eo_MetaDataTrailing ofs - eo_CanaryTrailing ofs
        in if \<not> verifyCanaries m (base + eo_CanaryTrailing ofs) trailingCanarySize then False
        else let trailingRZSize = v_BlockSize - eo_RedzoneTrailing ofs
        in if \<not> verifyRedzone m (base + eo_RedzoneTrailing ofs) trailingRZSize then False
        else True)"

section \<open>StaticLayout\<close>

record static_offsets =
  so_RedzoneLeading :: u64
  so_CanaryLeading :: u64
  so_UserData :: u64
  so_CanaryTrailing :: u64
  so_RedzoneTrailing :: u64

definition Static_blockSize :: "u64 \<Rightarrow> u64 \<Rightarrow> u64" where
  "Static_blockSize v_PayloadSize v_Align =
     (let cursor = REDZONE_SIZE;
          cursor = cursor + CANARY_SIZE;
          cursor = alignUp cursor v_Align;
          cursor = cursor + v_PayloadSize;
          cursor = cursor + CANARY_SIZE;
          cursor = cursor + REDZONE_SIZE
      in cursor)"

definition Static_place ::
  "memory \<Rightarrow> addr \<Rightarrow> u64 \<Rightarrow> u64 \<Rightarrow> u64 \<Rightarrow> static_offsets \<times> memory" where
  "Static_place m base v_BlockSize v_PayloadSize v_Align =
     (let leading = 0;
          canaryL = REDZONE_SIZE;
          m = mem_set m base REDZONE canaryL;
          user = alignUp (canaryL + CANARY_SIZE) v_Align;
          m = stampCanary m (base + canaryL) (user - canaryL);
          canaryT = user + v_PayloadSize;
          trailing = canaryT + CANARY_SIZE;
          m = stampCanary m (base + canaryT) (trailing - canaryT);
          totalSize = v_BlockSize;
          m = mem_set m (base + trailing) REDZONE (totalSize - trailing)
      in (\<lparr>so_RedzoneLeading = leading, so_CanaryLeading = canaryL, so_UserData = user,
           so_CanaryTrailing = canaryT, so_RedzoneTrailing = trailing\<rparr>, m))"

definition Static_verifyGuards ::
  "memory \<Rightarrow> addr \<Rightarrow> static_offsets \<Rightarrow> u64 \<Rightarrow> bool" where
  "Static_verifyGuards m base ofs v_BlockSize =
     (if base = null then False
      else
        let leadingRZSize = so_CanaryLeading ofs - so_RedzoneLeading ofs
        in if \<not> verifyRedzone m (base + so_RedzoneLeading ofs) leadingRZSize then False
        else let leadingCanarySize = so_UserData ofs - so_CanaryLeading ofs
        in if \<not> verifyCanaries m (base + so_CanaryLeading ofs) leadingCanarySize then False
        else let trailingCanarySize = so_RedzoneTrailing ofs - so_CanaryTrailing ofs
        in if \<not> verifyCanaries m (base + so_CanaryTrailing ofs) trailingCanarySize then False
        else let trailingRZSize = v_BlockSize - so_RedzoneTrailing ofs
        in if \<not> verifyRedzone m (base + so_RedzoneTrailing ofs) trailingRZSize then False
        else True)"

section \<open>Guard segments\<close>

text \<open>
  A guard segment is a kind of pattern, its offset in the block and its length. \<open>seg_ok\<close> says that
  memory holds the pattern there.
\<close>

datatype guard_kind = GRedzone | GCanary

type_synonym seg = "guard_kind \<times> u64 \<times> u64"

fun guard_byte :: "guard_kind \<Rightarrow> nat \<Rightarrow> u8" where
  "guard_byte GRedzone i = REDZONE"
| "guard_byte GCanary i = canary_byte (i mod 8)"

fun seg_ok :: "memory \<Rightarrow> addr \<Rightarrow> seg \<Rightarrow> bool" where
  "seg_ok m b (k, off, n) \<longleftrightarrow> (\<forall>i < unat n. m (b + off + of_nat i) = guard_byte k i)"

fun seg_covers :: "seg \<Rightarrow> nat \<Rightarrow> bool" where
  "seg_covers (k, off, n) i \<longleftrightarrow> unat off \<le> i \<and> i < unat off + unat n"

definition block_ok :: "addr \<Rightarrow> u64 \<Rightarrow> bool" where
  "block_ok b bs \<longleftrightarrow> b \<noteq> null \<and> unat b + unat bs \<le> 2 ^ 64"

lemma block_ok_offset:
  assumes "block_ok b bs" and "unat off < unat bs"
  shows "b + off \<noteq> null"
proof -
  from assms have "unat b + unat off < 18446744073709551616" by (simp add: block_ok_def)
  then have "unat (b + off) = unat b + unat off" by (rule unat_plus_nowrap)
  moreover have "unat b \<noteq> 0" using assms(1) by (simp add: block_ok_def unat_eq_0)
  ultimately show ?thesis by (metis add_is_0 unat_0)
qed

lemma verifyRedzone_seg:
  assumes "block_ok b bs" and "unat off + unat n \<le> unat bs"
  shows "verifyRedzone m (b + off) n \<longleftrightarrow> seg_ok m b (GRedzone, off, n)"
proof (cases "n = 0")
  case False
  then have "0 < unat n" by (simp add: unat_gt_0)
  with assms(2) have "unat off < unat bs" by linarith
  with block_ok_offset [OF assms(1)] False show ?thesis by (simp add: verifyRedzone_iff)
qed (simp add: verifyRedzone_iff)

lemma verifyRedzone_seg0:
  assumes "block_ok b bs" and "unat n \<le> unat bs"
  shows "verifyRedzone m b n \<longleftrightarrow> seg_ok m b (GRedzone, 0, n)"
  using verifyRedzone_seg [of b bs 0 n m] assms by simp

lemma verifyCanaries_seg:
  assumes "block_ok b bs" and "unat off + unat n \<le> unat bs"
  shows "verifyCanaries m (b + off) n \<longleftrightarrow> seg_ok m b (GCanary, off, n)"
proof (cases "n = 0")
  case False
  then have "0 < unat n" by (simp add: unat_gt_0)
  with assms(2) have "unat off < unat bs" by linarith
  with block_ok_offset [OF assms(1)] False show ?thesis by (simp add: verifyCanaries_iff)
qed (simp add: verifyCanaries_iff)

text \<open>A segment in terms of the offset of an address in the block.\<close>

lemma seg_ok_iff:
  assumes "unat off + unat n \<le> 18446744073709551616"
  shows "seg_ok m b (k, off, n) \<longleftrightarrow>
    (\<forall>a. seg_covers (k, off, n) (unat (a - b)) \<longrightarrow>
       m a = guard_byte k (unat (a - b) - unat off))"
proof (intro iffI allI impI)
  fix a assume ok: "seg_ok m b (k, off, n)" and c: "seg_covers (k, off, n) (unat (a - b))"
  let ?i = "unat (a - b) - unat off"
  have "b + off + of_nat ?i = a"
  proof -
    have "(of_nat ?i :: u64) = (a - b) - off"
      using c by (simp add: of_nat_diff)
    then show ?thesis by simp
  qed
  moreover have "?i < unat n" using c by auto
  ultimately show "m a = guard_byte k ?i" using ok by auto
next
  assume all: "\<forall>a. seg_covers (k, off, n) (unat (a - b)) \<longrightarrow>
       m a = guard_byte k (unat (a - b) - unat off)"
  show "seg_ok m b (k, off, n)"
  proof (unfold seg_ok.simps, intro allI impI)
    fix i assume i: "i < unat n"
    let ?a = "b + off + of_nat i"
    have "unat (of_nat i :: u64) = i" using i unat_lt_64 [of n] by (intro unat_of_nat_64) linarith
    then have "unat (off + of_nat i) = unat off + i"
      using i assms by (subst unat_plus_nowrap) simp_all
    then have "unat (?a - b) = unat off + i" by (simp add: add.assoc)
    with all [rule_format, of ?a] i show "m ?a = guard_byte k i" by simp
  qed
qed

lemma seg_okI:
  assumes "unat off + unat n \<le> 18446744073709551616"
    and "\<And>a. unat off \<le> unat (a - b) \<Longrightarrow> unat (a - b) < unat off + unat n \<Longrightarrow>
      m a = guard_byte k (unat (a - b) - unat off)"
  shows "seg_ok m b (k, off, n)"
  unfolding seg_ok_iff [OF assms(1)] using assms(2) by simp

section \<open>The contract of a layout policy\<close>

text \<open>
  \<open>fits n al\<close> says that the alignment is a power of two and that the true size of the block is below
  \<open>2 ^ 64\<close>; \<open>segs\<close> lists the guard segments of a placed block.
\<close>

locale layout_policy =
  fixes blockSize :: "u64 \<Rightarrow> u64 \<Rightarrow> u64"
    and place :: "memory \<Rightarrow> addr \<Rightarrow> u64 \<Rightarrow> u64 \<Rightarrow> u64 \<Rightarrow> 'o \<times> memory"
    and verifyGuards :: "memory \<Rightarrow> addr \<Rightarrow> 'o \<Rightarrow> u64 \<Rightarrow> bool"
    and userData :: "'o \<Rightarrow> u64"
    and segs :: "'o \<Rightarrow> u64 \<Rightarrow> seg list"
    and fits :: "u64 \<Rightarrow> u64 \<Rightarrow> bool"
  assumes segs_in_block: "\<lbrakk>fits n al; blockSize n al \<le> bs; place m b bs n al = (ofs, m');
        (k, off, len) \<in> set (segs ofs bs)\<rbrakk> \<Longrightarrow> unat off + unat len \<le> unat bs"
    and user_in_block: "\<lbrakk>fits n al; blockSize n al \<le> bs; place m b bs n al = (ofs, m')\<rbrakk>
        \<Longrightarrow> unat (userData ofs) + unat n \<le> unat bs"
    and user_aligned: "\<lbrakk>fits n al; blockSize n al \<le> bs; place m b bs n al = (ofs, m')\<rbrakk>
        \<Longrightarrow> unat al dvd unat (userData ofs)"
    and segs_avoid_user: "\<lbrakk>fits n al; blockSize n al \<le> bs; place m b bs n al = (ofs, m');
        g \<in> set (segs ofs bs); seg_covers g i\<rbrakk>
        \<Longrightarrow> i < unat (userData ofs) \<or> unat (userData ofs) + unat n \<le> i"
    and user_fenced: "\<lbrakk>fits n al; blockSize n al \<le> bs; place m b bs n al = (ofs, m')\<rbrakk>
        \<Longrightarrow> 0 < unat (userData ofs)
          \<and> (\<exists>g \<in> set (segs ofs bs). seg_covers g (unat (userData ofs) - 1))
          \<and> (\<exists>g \<in> set (segs ofs bs). seg_covers g (unat (userData ofs) + unat n))"
    and place_segs: "\<lbrakk>fits n al; blockSize n al \<le> bs; place m b bs n al = (ofs, m');
        g \<in> set (segs ofs bs)\<rbrakk> \<Longrightarrow> seg_ok m' b g"
    and place_frame: "\<lbrakk>fits n al; blockSize n al \<le> bs; place m b bs n al = (ofs, m');
        unat bs \<le> unat (a - b)\<rbrakk> \<Longrightarrow> m' a = m a"
    and verify_segs: "\<lbrakk>fits n al; blockSize n al \<le> bs; place m b bs n al = (ofs, m');
        block_ok b bs\<rbrakk>
        \<Longrightarrow> verifyGuards m'' b ofs bs \<longleftrightarrow> (\<forall>g \<in> set (segs ofs bs). seg_ok m'' b g)"
begin

lemma seg_end:
  assumes "fits n al" "blockSize n al \<le> bs" "place m b bs n al = (ofs, m')"
    and "(k, off, len) \<in> set (segs ofs bs)"
  shows "unat off + unat len \<le> 18446744073709551616"
  using segs_in_block [OF assms] unat_lt_64 [of bs] by linarith

lemma seg_covers_in_block:
  assumes "fits n al" "blockSize n al \<le> bs" "place m b bs n al = (ofs, m')"
    and "g \<in> set (segs ofs bs)" and "seg_covers g i"
  shows "i < unat bs"
proof -
  obtain k off len where g: "g = (k, off, len)" by (cases g)
  then show ?thesis using segs_in_block [OF assms(1-3), of k off len] assms(4,5) by simp
qed

text \<open>Right after placement, and as long as only payload bytes are written, the guards verify.\<close>

lemma payload_writes_keep_guards:
  assumes fit: "fits n al" "blockSize n al \<le> bs" and place: "place m b bs n al = (ofs, m')"
    and ok: "block_ok b bs"
    and confined: "\<And>a. m'' a \<noteq> m' a \<Longrightarrow> in_range a (b + userData ofs) n"
  shows "verifyGuards m'' b ofs bs"
proof -
  have bs: "unat bs \<le> 18446744073709551616" using unat_lt_64 [of bs] by linarith
  have user: "unat (userData ofs) + unat n \<le> 18446744073709551616"
    using user_in_block [OF fit place] bs by linarith
  have "seg_ok m'' b g" if g: "g \<in> set (segs ofs bs)" for g
  proof (cases g)
    case (fields k off len)
    have in_blk: "unat off + unat len \<le> 18446744073709551616"
      using seg_end [OF fit place] g fields by blast
    have "m'' a = m' a" if "seg_covers g (unat (a - b))" for a
      using segs_avoid_user [OF fit place g that] confined [of a] in_range_offset [OF user, of a b]
      by auto
    with place_segs [OF fit place g] show ?thesis
      unfolding fields seg_ok_iff [OF in_blk] by auto
  qed
  with verify_segs [OF fit place ok] show ?thesis by blast
qed

text \<open>A changed guard byte is noticed, whatever else was written.\<close>

lemma guard_write_detected:
  assumes fit: "fits n al" "blockSize n al \<le> bs" and place: "place m b bs n al = (ofs, m')"
    and ok: "block_ok b bs"
    and g: "g \<in> set (segs ofs bs)" "seg_covers g (unat (a - b))" and chg: "m'' a \<noteq> m' a"
  shows "\<not> verifyGuards m'' b ofs bs"
proof -
  obtain k off len where fields: "g = (k, off, len)" by (cases g)
  have "unat off + unat len \<le> 18446744073709551616"
    using seg_end [OF fit place] g(1) fields by blast
  note iff = seg_ok_iff [OF this]
  from place_segs [OF fit place g(1)] g(2) chg have "\<not> seg_ok m'' b g"
    unfolding fields iff by auto
  with verify_segs [OF fit place ok] g(1) show ?thesis by blast
qed

text \<open>The byte before the payload and the byte after it are guard bytes.\<close>

lemma off_by_one_write_detected:
  assumes fit: "fits n al" "blockSize n al \<le> bs" and place: "place m b bs n al = (ofs, m')"
    and ok: "block_ok b bs"
    and a: "a = b + userData ofs - 1 \<or> a = b + userData ofs + n" and chg: "m'' a \<noteq> m' a"
  shows "\<not> verifyGuards m'' b ofs bs"
proof -
  note fence = user_fenced [OF fit place]
  from a show ?thesis
  proof
    assume a: "a = b + userData ofs - 1"
    then have "a - b = userData ofs - 1" by simp
    moreover have "unat (userData ofs - 1) = unat (userData ofs) - 1"
      using fence by (intro unat_minus_one) (auto simp: unat_gt_0)
    ultimately show ?thesis
      using fence guard_write_detected [OF fit place ok, of _ a m''] chg by auto
  next
    assume a: "a = b + userData ofs + n"
    have "unat (userData ofs) + unat n < 18446744073709551616"
      using fence seg_covers_in_block [OF fit place] unat_lt_64 [of bs] order_less_trans by blast
    then have "unat (userData ofs + n) = unat (userData ofs) + unat n"
      by (rule unat_plus_nowrap)
    moreover have "a - b = userData ofs + n" using a by simp
    ultimately show ?thesis
      using fence guard_write_detected [OF fit place ok, of _ a m''] chg by auto
  qed
qed

end

section \<open>NormalLayout meets the contract\<close>

definition Normal_size_nat :: "nat \<Rightarrow> nat \<Rightarrow> nat" where
  "Normal_size_nat n al = align_nat (align_nat 16 al + n + 16) 32 + 32"

definition Normal_fits :: "u64 \<Rightarrow> u64 \<Rightarrow> bool" where
  "Normal_fits n al \<longleftrightarrow> is_pow2 al \<and> Normal_size_nat (unat n) (unat al) < 2 ^ 64"

definition Normal_segs :: "normal_offsets \<Rightarrow> u64 \<Rightarrow> seg list" where
  "Normal_segs ofs bs =
     [(GRedzone, no_RedzoneLeading ofs, no_UserData ofs - no_RedzoneLeading ofs),
      (GRedzone, no_RedzoneTrailing ofs, no_MetaData ofs - no_RedzoneTrailing ofs)]"

lemma is_pow2_32: "is_pow2 32" and is_pow2_64: "is_pow2 64"
  by (simp_all add: is_pow2_def)

lemma Normal_numbers:
  assumes "Normal_fits n al"
  obtains A M where "unat (alignUp REDZONE_SIZE al) = A"
    and "unat (alignUp REDZONE_SIZE al + n) = A + unat n"
    and "unat (alignUp (alignUp REDZONE_SIZE al + n + REDZONE_SIZE) alignof_NormalMetaData) = M"
    and "unat (Normal_blockSize n al) = M + 32"
    and "16 \<le> A" and "unat al dvd A" and "A + unat n + 16 \<le> M" and "M + 32 < 2 ^ 64"
proof -
  from assms have al: "is_pow2 al" by (simp add: Normal_fits_def)
  let ?A = "align_nat 16 (unat al)"
  let ?M = "align_nat (?A + unat n + 16) 32"
  from assms have M: "?M + 32 < 18446744073709551616"
    by (simp add: Normal_fits_def Normal_size_nat_def)
  have ge: "?A + unat n + 16 \<le> ?M" by (rule align_nat_ge) simp
  have u: "unat (alignUp REDZONE_SIZE al) = ?A"
    using alignUp_small_unat [OF al, of REDZONE_SIZE] by (simp add: REDZONE_SIZE_def)
  have t: "unat (alignUp REDZONE_SIZE al + n) = ?A + unat n"
    using M ge u by (subst unat_plus_nowrap) simp_all
  have t16: "unat (alignUp REDZONE_SIZE al + n + 16) = ?A + unat n + 16"
    using M ge t by (subst unat_plus_nowrap) simp_all
  have m: "unat (alignUp (alignUp REDZONE_SIZE al + n + REDZONE_SIZE) alignof_NormalMetaData) = ?M"
    using alignUp_pow2_unat [OF is_pow2_32, of "alignUp REDZONE_SIZE al + n + 16"] M ge t16
    by (simp add: layout_consts)
  have b: "unat (Normal_blockSize n al) = ?M + 32"
    unfolding Normal_blockSize_def Let_def using m M
    by (subst unat_plus_nowrap) (simp_all add: sizeof_NormalMetaData_def)
  have "0 < unat al" using al by (simp add: is_pow2_def unat_gt_0)
  then have "16 \<le> ?A" by (rule align_nat_ge)
  then show thesis using that [OF u t m b] M ge align_nat_dvd by simp
qed

lemma Normal_place_facts:
  assumes fit: "Normal_fits n al" and size: "Normal_blockSize n al \<le> bs"
    and place: "Normal_place m b bs n al = (ofs, m')"
  obtains A M where "no_RedzoneLeading ofs = 0" and "unat (no_UserData ofs) = A"
    and "unat (no_RedzoneTrailing ofs) = A + unat n" and "unat (no_MetaData ofs) = M"
    and "unat (no_UserData ofs - no_RedzoneLeading ofs) = A"
    and "unat (no_MetaData ofs - no_RedzoneTrailing ofs) = M - (A + unat n)"
    and "16 \<le> A" and "unat al dvd A" and "A + unat n + 16 \<le> M" and "M + 32 \<le> unat bs"
    and "m' = (\<lambda>a. let r = unat (a - b) in
           if M \<le> r \<and> r < M + 32 then 0 else if A + unat n \<le> r \<and> r < M then REDZONE
           else if r < A then REDZONE else m a)"
proof -
  obtain A M where u: "unat (alignUp REDZONE_SIZE al) = A"
    and t: "unat (alignUp REDZONE_SIZE al + n) = A + unat n"
    and mt: "unat (alignUp (alignUp REDZONE_SIZE al + n + REDZONE_SIZE) alignof_NormalMetaData) = M"
    and bl: "unat (Normal_blockSize n al) = M + 32"
    and ineq: "16 \<le> A" "unat al dvd A" "A + unat n + 16 \<le> M" "M + 32 < 2 ^ 64"
    using fit by (rule Normal_numbers)
  have bs: "M + 32 \<le> unat bs" using size bl by (simp add: word_le_nat_alt)
  let ?u = "alignUp REDZONE_SIZE al"
  let ?t = "?u + n"
  let ?m = "alignUp (?u + n + REDZONE_SIZE) alignof_NormalMetaData"
  have o: "no_RedzoneLeading ofs = 0" "no_UserData ofs = ?u" "no_RedzoneTrailing ofs = ?t"
    "no_MetaData ofs = ?m"
    and m': "m' = mem_set (mem_set (mem_set m b REDZONE ?u) (b + ?t) REDZONE (?m - ?t)) (b + ?m) 0
                    sizeof_NormalMetaData"
    using place by (auto simp: Normal_place_def Let_def)
  have gap: "unat (?m - ?t) = M - (A + unat n)"
    using t mt ineq by (subst unat_minus_le) (simp_all add: word_le_nat_alt)
  have mem: "m' a = (let r = unat (a - b) in
           if M \<le> r \<and> r < M + 32 then 0 else if A + unat n \<le> r \<and> r < M then REDZONE
           else if r < A then REDZONE else m a)" for a
  proof -
    have "in_range a (b + ?m) sizeof_NormalMetaData
        \<longleftrightarrow> M \<le> unat (a - b) \<and> unat (a - b) < M + 32"
      using in_range_offset [of ?m sizeof_NormalMetaData a b] mt ineq
      by (simp add: sizeof_NormalMetaData_def)
    moreover have "in_range a (b + ?t) (?m - ?t)
        \<longleftrightarrow> A + unat n \<le> unat (a - b) \<and> unat (a - b) < M"
      using in_range_offset [of ?t "?m - ?t" a b] t gap ineq by simp
    ultimately show ?thesis
      unfolding m' mem_set_apply in_range_base [of a b] u Let_def by simp
  qed
  show thesis
    using that [of A M] o u t mt gap ineq bs ext [of m', OF mem] by simp
qed

interpretation normal_layout: layout_policy Normal_blockSize Normal_place Normal_verifyGuards
  no_UserData Normal_segs Normal_fits
proof unfold_locales
  fix n al bs b :: u64 and m m' m'' :: memory and ofs :: normal_offsets
  assume fit: "Normal_fits n al" and size: "Normal_blockSize n al \<le> bs"
    and place: "Normal_place m b bs n al = (ofs, m')"
  obtain A M where o: "no_RedzoneLeading ofs = 0" "unat (no_UserData ofs) = A"
      "unat (no_RedzoneTrailing ofs) = A + unat n" "unat (no_MetaData ofs) = M"
      "unat (no_UserData ofs - no_RedzoneLeading ofs) = A"
      "unat (no_MetaData ofs - no_RedzoneTrailing ofs) = M - (A + unat n)"
    and ineq: "16 \<le> A" "unat al dvd A" "A + unat n + 16 \<le> M" "M + 32 \<le> unat bs"
    and mem: "m' = (\<lambda>a. let r = unat (a - b) in
           if M \<le> r \<and> r < M + 32 then 0 else if A + unat n \<le> r \<and> r < M then REDZONE
           else if r < A then REDZONE else m a)"
    using fit size place by (rule Normal_place_facts)
  show "unat off + unat len \<le> unat bs" if "(k, off, len) \<in> set (Normal_segs ofs bs)" for k off len
    using that o ineq by (auto simp: Normal_segs_def)
  show "unat (no_UserData ofs) + unat n \<le> unat bs" using o ineq by simp
  show "unat al dvd unat (no_UserData ofs)" using o ineq by simp
  show "i < unat (no_UserData ofs) \<or> unat (no_UserData ofs) + unat n \<le> i"
    if "g \<in> set (Normal_segs ofs bs)" "seg_covers g i" for g i
    using that o ineq by (auto simp: Normal_segs_def)
  show "0 < unat (no_UserData ofs)
      \<and> (\<exists>g \<in> set (Normal_segs ofs bs). seg_covers g (unat (no_UserData ofs) - 1))
      \<and> (\<exists>g \<in> set (Normal_segs ofs bs). seg_covers g (unat (no_UserData ofs) + unat n))"
    using o ineq by (auto simp: Normal_segs_def)
  show "seg_ok m' b g" if "g \<in> set (Normal_segs ofs bs)" for g
    using that o ineq
    by (auto simp: Normal_segs_def mem Let_def simp del: seg_ok.simps intro!: seg_okI)
  show "m' a = m a" if "unat bs \<le> unat (a - b)" for a
    using that o ineq by (simp add: mem Let_def)
  show "Normal_verifyGuards m'' b ofs bs \<longleftrightarrow> (\<forall>g \<in> set (Normal_segs ofs bs). seg_ok m'' b g)"
    if "block_ok b bs"
    using that o ineq verifyRedzone_seg [OF that] verifyRedzone_seg0 [OF that]
    by (auto simp: Normal_verifyGuards_def Normal_segs_def Let_def block_ok_def simp del: seg_ok.simps)
qed

section \<open>StaticLayout meets the contract\<close>

definition Static_size_nat :: "nat \<Rightarrow> nat \<Rightarrow> nat" where
  "Static_size_nat n al = align_nat 24 al + n + 24"

definition Static_fits :: "u64 \<Rightarrow> u64 \<Rightarrow> bool" where
  "Static_fits n al \<longleftrightarrow> is_pow2 al \<and> Static_size_nat (unat n) (unat al) < 2 ^ 64"

definition Static_segs :: "static_offsets \<Rightarrow> u64 \<Rightarrow> seg list" where
  "Static_segs ofs bs =
     [(GRedzone, so_RedzoneLeading ofs, so_CanaryLeading ofs - so_RedzoneLeading ofs),
      (GCanary, so_CanaryLeading ofs, so_UserData ofs - so_CanaryLeading ofs),
      (GCanary, so_CanaryTrailing ofs, so_RedzoneTrailing ofs - so_CanaryTrailing ofs),
      (GRedzone, so_RedzoneTrailing ofs, bs - so_RedzoneTrailing ofs)]"

lemma Static_place_facts:
  assumes fit: "Static_fits n al" and size: "Static_blockSize n al \<le> bs"
    and place: "Static_place m b bs n al = (ofs, m')"
  obtains A where "so_RedzoneLeading ofs = 0" and "so_CanaryLeading ofs = 16"
    and "unat (so_UserData ofs) = A" and "unat (so_UserData ofs - 16) = A - 16"
    and "unat (so_CanaryTrailing ofs) = A + unat n"
    and "unat (so_RedzoneTrailing ofs) = A + unat n + 8"
    and "so_RedzoneTrailing ofs - so_CanaryTrailing ofs = 8"
    and "unat (bs - so_RedzoneTrailing ofs) = unat bs - (A + unat n + 8)"
    and "24 \<le> A" and "unat al dvd A" and "A + unat n + 24 \<le> unat bs"
    and "m' = (\<lambda>a. let r = unat (a - b) in
           if A + unat n + 8 \<le> r \<and> r < unat bs then REDZONE
           else if A + unat n \<le> r \<and> r < A + unat n + 8 then canary_byte ((r - (A + unat n)) mod 8)
           else if 16 \<le> r \<and> r < A then canary_byte ((r - 16) mod 8)
           else if r < 16 then REDZONE else m a)"
proof -
  from fit have al: "is_pow2 al" by (simp add: Static_fits_def)
  let ?A = "align_nat 24 (unat al)"
  let ?u = "alignUp 24 al"
  have total: "?A + unat n + 24 < 18446744073709551616"
    using fit by (simp add: Static_fits_def Static_size_nat_def)
  have "0 < unat al" using al by (simp add: is_pow2_def unat_gt_0)
  then have ge: "24 \<le> ?A" by (rule align_nat_ge)
  have u: "unat ?u = ?A" using alignUp_small_unat [OF al, of 24] by simp
  have t: "unat (?u + n) = ?A + unat n" using total u by (subst unat_plus_nowrap) simp_all
  have t8: "unat (?u + n + 8) = ?A + unat n + 8" using total t by (subst unat_plus_nowrap) simp_all
  have t24: "unat (?u + n + 8 + 16) = ?A + unat n + 24"
    using total t8 by (subst unat_plus_nowrap) simp_all
  have "Static_blockSize n al = ?u + n + 8 + 16"
    by (simp add: Static_blockSize_def Let_def REDZONE_SIZE_def CANARY_SIZE_def)
  then have bs: "?A + unat n + 24 \<le> unat bs" using size t24 by (simp add: word_le_nat_alt)
  have ofs: "so_RedzoneLeading ofs = 0" "so_CanaryLeading ofs = 16" "so_UserData ofs = ?u"
    "so_CanaryTrailing ofs = ?u + n" "so_RedzoneTrailing ofs = ?u + n + 8"
    and m': "m' = mem_set (stampCanary (stampCanary (mem_set m b REDZONE 16) (b + 16) (?u - 16))
               (b + (?u + n)) 8) (b + (?u + n + 8)) REDZONE (bs - (?u + n + 8))"
    using place
    by (auto simp: Static_place_def Let_def REDZONE_SIZE_def CANARY_SIZE_def add.assoc)
  have lead: "unat (?u - 16) = ?A - 16"
    using u ge by (subst unat_minus_le) (simp_all add: word_le_nat_alt)
  have tail: "unat (bs - (?u + n + 8)) = unat bs - (?A + unat n + 8)"
    using t8 bs by (subst unat_minus_le) (simp_all add: word_le_nat_alt)
  have mem: "m' = (\<lambda>a. let r = unat (a - b) in
           if ?A + unat n + 8 \<le> r \<and> r < unat bs then REDZONE
           else if ?A + unat n \<le> r \<and> r < ?A + unat n + 8 then canary_byte ((r - (?A + unat n)) mod 8)
           else if 16 \<le> r \<and> r < ?A then canary_byte ((r - 16) mod 8)
           else if r < 16 then REDZONE else m a)"
  proof
    fix a
    have r1: "in_range a (b + (?u + n + 8)) (bs - (?u + n + 8))
        \<longleftrightarrow> ?A + unat n + 8 \<le> unat (a - b) \<and> unat (a - b) < unat bs"
      using in_range_offset [of "?u + n + 8" "bs - (?u + n + 8)" a b] t8 tail bs by simp
    have r2: "in_range a (b + (?u + n)) 8
        \<longleftrightarrow> ?A + unat n \<le> unat (a - b) \<and> unat (a - b) < ?A + unat n + 8"
      using in_range_offset [of "?u + n" 8 a b] t total by simp
    have r3: "in_range a (b + 16) (?u - 16) \<longleftrightarrow> 16 \<le> unat (a - b) \<and> unat (a - b) < ?A"
      using in_range_offset [of 16 "?u - 16" a b] lead ge total by simp
    have o2: "unat (a - (b + (?u + n))) = unat (a - b) - (?A + unat n)"
      if "?A + unat n \<le> unat (a - b)" using that t by (simp add: unat_minus_offset [of a b])
    have o3: "unat (a - (b + 16)) = unat (a - b) - 16" if "16 \<le> unat (a - b)"
      using that by (simp add: unat_minus_offset [of a b])
    show "m' a = (let r = unat (a - b) in
           if ?A + unat n + 8 \<le> r \<and> r < unat bs then REDZONE
           else if ?A + unat n \<le> r \<and> r < ?A + unat n + 8 then canary_byte ((r - (?A + unat n)) mod 8)
           else if 16 \<le> r \<and> r < ?A then canary_byte ((r - 16) mod 8)
           else if r < 16 then REDZONE else m a)"
      unfolding m' mem_set_apply stampCanary_apply r1 r2 r3 Let_def
      by (simp add: o2 o3 in_range_base)
  qed
  show thesis
    using that [of ?A] ofs u lead t t8 tail ge align_nat_dvd bs mem by simp
qed

interpretation static_layout: layout_policy Static_blockSize Static_place Static_verifyGuards
  so_UserData Static_segs Static_fits
proof unfold_locales
  fix n al bs b :: u64 and m m' m'' :: memory and ofs :: static_offsets
  assume fit: "Static_fits n al" and size: "Static_blockSize n al \<le> bs"
    and place: "Static_place m b bs n al = (ofs, m')"
  obtain A where ofs: "so_RedzoneLeading ofs = 0" "so_CanaryLeading ofs = 16"
      "unat (so_UserData ofs) = A" "unat (so_UserData ofs - 16) = A - 16"
      "unat (so_CanaryTrailing ofs) = A + unat n" "unat (so_RedzoneTrailing ofs) = A + unat n + 8"
      "so_RedzoneTrailing ofs - so_CanaryTrailing ofs = 8"
      "unat (bs - so_RedzoneTrailing ofs) = unat bs - (A + unat n + 8)"
    and ineq: "24 \<le> A" "unat al dvd A" "A + unat n + 24 \<le> unat bs"
    and mem: "m' = (\<lambda>a. let r = unat (a - b) in
           if A + unat n + 8 \<le> r \<and> r < unat bs then REDZONE
           else if A + unat n \<le> r \<and> r < A + unat n + 8 then canary_byte ((r - (A + unat n)) mod 8)
           else if 16 \<le> r \<and> r < A then canary_byte ((r - 16) mod 8)
           else if r < 16 then REDZONE else m a)"
    using fit size place by (rule Static_place_facts)
  have lim: "A + unat n + 24 \<le> 18446744073709551616" using ineq unat_le_64 [of bs] by linarith
  show "unat off + unat len \<le> unat bs" if "(k, off, len) \<in> set (Static_segs ofs bs)" for k off len
    using that ofs ineq by (auto simp: Static_segs_def)
  show "unat (so_UserData ofs) + unat n \<le> unat bs" using ofs ineq by simp
  show "unat al dvd unat (so_UserData ofs)" using ofs ineq by simp
  show "i < unat (so_UserData ofs) \<or> unat (so_UserData ofs) + unat n \<le> i"
    if "g \<in> set (Static_segs ofs bs)" "seg_covers g i" for g i
    using that ofs ineq by (auto simp: Static_segs_def)
  show "0 < unat (so_UserData ofs)
      \<and> (\<exists>g \<in> set (Static_segs ofs bs). seg_covers g (unat (so_UserData ofs) - 1))
      \<and> (\<exists>g \<in> set (Static_segs ofs bs). seg_covers g (unat (so_UserData ofs) + unat n))"
    using ofs ineq by (auto simp: Static_segs_def)
  show "seg_ok m' b g" if "g \<in> set (Static_segs ofs bs)" for g
    using that ofs ineq lim
    by (auto simp: Static_segs_def mem Let_def simp del: seg_ok.simps intro!: seg_okI)
  show "m' a = m a" if "unat bs \<le> unat (a - b)" for a
    using that ofs ineq by (simp add: mem Let_def)
  show "Static_verifyGuards m'' b ofs bs \<longleftrightarrow> (\<forall>g \<in> set (Static_segs ofs bs). seg_ok m'' b g)"
    if "block_ok b bs"
    using that ofs ineq verifyRedzone_seg [OF that] verifyRedzone_seg0 [OF that]
      verifyCanaries_seg [OF that]
    by (auto simp: Static_verifyGuards_def Static_segs_def Let_def block_ok_def simp del: seg_ok.simps)
qed

section \<open>EnhancedLayout meets the contract\<close>

definition Enhanced_size_nat :: "nat \<Rightarrow> nat \<Rightarrow> nat" where
  "Enhanced_size_nat n al = align_nat (align_nat 136 al + n + 8) 64 + 80"

definition Enhanced_fits :: "u64 \<Rightarrow> u64 \<Rightarrow> bool" where
  "Enhanced_fits n al \<longleftrightarrow> is_pow2 al \<and> Enhanced_size_nat (unat n) (unat al) < 2 ^ 64"

definition Enhanced_segs :: "enhanced_offsets \<Rightarrow> u64 \<Rightarrow> seg list" where
  "Enhanced_segs ofs bs =
     [(GRedzone, eo_RedzoneLeading ofs, eo_MetaDataLeading ofs - eo_RedzoneLeading ofs),
      (GCanary, eo_CanaryLeading ofs, eo_UserData ofs - eo_CanaryLeading ofs),
      (GCanary, eo_CanaryTrailing ofs, eo_MetaDataTrailing ofs - eo_CanaryTrailing ofs),
      (GRedzone, eo_RedzoneTrailing ofs, bs - eo_RedzoneTrailing ofs)]"

lemma alignUp_16_64: "alignUp 16 64 = 64"
  by (simp add: alignUp_def)

lemma Enhanced_numbers:
  assumes "Enhanced_fits n al"
  obtains A M where "unat (alignUp 136 al) = A" and "unat (alignUp 136 al + n) = A + unat n"
    and "unat (alignUp (alignUp 136 al + n + 8) 64) = M"
    and "unat (alignUp (alignUp 136 al + n + 8) 64 + 64) = M + 64"
    and "unat (Enhanced_blockSize n al) = M + 80"
    and "136 \<le> A" and "unat al dvd A" and "A + unat n + 8 \<le> M" and "M + 80 < 18446744073709551616"
proof -
  from assms have al: "is_pow2 al" by (simp add: Enhanced_fits_def)
  let ?A = "align_nat 136 (unat al)"
  let ?M = "align_nat (?A + unat n + 8) 64"
  let ?u = "alignUp 136 al"
  let ?m = "alignUp (?u + n + 8) 64"
  from assms have M: "?M + 80 < 18446744073709551616"
    by (simp add: Enhanced_fits_def Enhanced_size_nat_def)
  have ge: "?A + unat n + 8 \<le> ?M" by (rule align_nat_ge) simp
  have u: "unat ?u = ?A" using alignUp_small_unat [OF al, of 136] by simp
  have t: "unat (?u + n) = ?A + unat n" using M ge u by (subst unat_plus_nowrap) simp_all
  have t8: "unat (?u + n + 8) = ?A + unat n + 8" using M ge t by (subst unat_plus_nowrap) simp_all
  have m: "unat ?m = ?M"
    using alignUp_pow2_unat [OF is_pow2_64, of "?u + n + 8"] M ge t8 by simp
  have m64: "unat (?m + 64) = ?M + 64" using m M by (subst unat_plus_nowrap) simp_all
  have m80: "unat (?m + 64 + 16) = ?M + 80" using m64 M by (subst unat_plus_nowrap) simp_all
  have "Enhanced_blockSize n al = ?m + 64 + 16"
    by (simp add: Enhanced_blockSize_def Let_def layout_consts alignUp_16_64)
  then have b: "unat (Enhanced_blockSize n al) = ?M + 80" using m80 by simp
  have "0 < unat al" using al by (simp add: is_pow2_def unat_gt_0)
  then have "136 \<le> ?A" by (rule align_nat_ge)
  then show thesis using that [OF u t m m64 b] M ge align_nat_dvd by simp
qed

lemma Enhanced_place_facts:
  assumes fit: "Enhanced_fits n al" and size: "Enhanced_blockSize n al \<le> bs"
    and place: "Enhanced_place m b bs n al = (ofs, m')"
  obtains A M where "eo_RedzoneLeading ofs = 0" and "eo_MetaDataLeading ofs = 64"
    and "eo_CanaryLeading ofs = 128" and "unat (eo_UserData ofs) = A"
    and "unat (eo_UserData ofs - 128) = A - 128" and "unat (eo_CanaryTrailing ofs) = A + unat n"
    and "unat (eo_MetaDataTrailing ofs) = M" and "unat (eo_RedzoneTrailing ofs) = M + 64"
    and "unat (eo_MetaDataTrailing ofs - eo_CanaryTrailing ofs) = M - (A + unat n)"
    and "unat (bs - eo_RedzoneTrailing ofs) = unat bs - (M + 64)"
    and "136 \<le> A" and "unat al dvd A" and "A + unat n + 8 \<le> M" and "M + 80 \<le> unat bs"
    and "m' = (\<lambda>a. let r = unat (a - b) in
           if M + 64 \<le> r \<and> r < unat bs then REDZONE
           else if M \<le> r \<and> r < M + 48 then 0
           else if A + unat n \<le> r \<and> r < M then canary_byte ((r - (A + unat n)) mod 8)
           else if 128 \<le> r \<and> r < A then canary_byte ((r - 128) mod 8)
           else if 64 \<le> r \<and> r < 112 then 0
           else if r < 64 then REDZONE else m a)"
proof -
  let ?u = "alignUp 136 al"
  let ?t = "?u + n"
  let ?m = "alignUp (?u + n + 8) 64"
  obtain A M where u: "unat ?u = A" and t: "unat ?t = A + unat n" and mt: "unat ?m = M"
    and m64: "unat (?m + 64) = M + 64" and bl: "unat (Enhanced_blockSize n al) = M + 80"
    and ineq: "136 \<le> A" "unat al dvd A" "A + unat n + 8 \<le> M" "M + 80 < 18446744073709551616"
    using fit by (rule Enhanced_numbers)
  have bs: "M + 80 \<le> unat bs" using size bl by (simp add: word_le_nat_alt)
  have ofs: "eo_RedzoneLeading ofs = 0" "eo_MetaDataLeading ofs = 64" "eo_CanaryLeading ofs = 128"
    "eo_UserData ofs = ?u" "eo_CanaryTrailing ofs = ?t" "eo_MetaDataTrailing ofs = ?m"
    "eo_RedzoneTrailing ofs = ?m + 64"
    and m': "m' = mem_set (mem_set (stampCanary (stampCanary (mem_set (mem_set m b REDZONE 64)
        (b + 64) 0 48) (b + 128) (?u - 128)) (b + ?t) (?m - ?t)) (b + ?m) 0 48)
        (b + (?m + 64)) REDZONE (bs - (?m + 64))"
    using place by (auto simp: Enhanced_place_def Let_def layout_consts alignUp_16_64)
  have lead: "unat (?u - 128) = A - 128"
    using u ineq by (subst unat_minus_le) (simp_all add: word_le_nat_alt)
  have gap: "unat (?m - ?t) = M - (A + unat n)"
    using t mt ineq by (subst unat_minus_le) (simp_all add: word_le_nat_alt)
  have tail: "unat (bs - (?m + 64)) = unat bs - (M + 64)"
    using m64 bs by (subst unat_minus_le) (simp_all add: word_le_nat_alt)
  have mem: "m' = (\<lambda>a. let r = unat (a - b) in
           if M + 64 \<le> r \<and> r < unat bs then REDZONE
           else if M \<le> r \<and> r < M + 48 then 0
           else if A + unat n \<le> r \<and> r < M then canary_byte ((r - (A + unat n)) mod 8)
           else if 128 \<le> r \<and> r < A then canary_byte ((r - 128) mod 8)
           else if 64 \<le> r \<and> r < 112 then 0
           else if r < 64 then REDZONE else m a)"
  proof
    fix a
    let ?r = "unat (a - b)"
    have r1: "in_range a (b + (?m + 64)) (bs - (?m + 64)) \<longleftrightarrow> M + 64 \<le> ?r \<and> ?r < unat bs"
      using in_range_offset [of "?m + 64" "bs - (?m + 64)" a b] m64 tail bs by simp
    have r2: "in_range a (b + ?m) 48 \<longleftrightarrow> M \<le> ?r \<and> ?r < M + 48"
      using in_range_offset [of ?m 48 a b] mt ineq by simp
    have r3: "in_range a (b + ?t) (?m - ?t) \<longleftrightarrow> A + unat n \<le> ?r \<and> ?r < M"
      using in_range_offset [of ?t "?m - ?t" a b] t gap ineq by simp
    have r4: "in_range a (b + 128) (?u - 128) \<longleftrightarrow> 128 \<le> ?r \<and> ?r < A"
      using in_range_offset [of 128 "?u - 128" a b] lead ineq by simp
    have r5: "in_range a (b + 64) 48 \<longleftrightarrow> 64 \<le> ?r \<and> ?r < 112"
      using in_range_offset [of 64 48 a b] by simp
    have o3: "unat (a - (b + ?t)) = ?r - (A + unat n)" if "A + unat n \<le> ?r"
      using that t by (simp add: unat_minus_offset [of a b])
    have o4: "unat (a - (b + 128)) = ?r - 128" if "128 \<le> ?r"
      using that by (simp add: unat_minus_offset [of a b])
    show "m' a = (let r = ?r in
           if M + 64 \<le> r \<and> r < unat bs then REDZONE
           else if M \<le> r \<and> r < M + 48 then 0
           else if A + unat n \<le> r \<and> r < M then canary_byte ((r - (A + unat n)) mod 8)
           else if 128 \<le> r \<and> r < A then canary_byte ((r - 128) mod 8)
           else if 64 \<le> r \<and> r < 112 then 0
           else if r < 64 then REDZONE else m a)"
      unfolding m' mem_set_apply stampCanary_apply r1 r2 r3 r4 r5 Let_def
      by (simp add: o3 o4 in_range_base)
  qed
  show thesis
    using that [of A M] ofs u lead t mt m64 gap tail ineq bs mem by simp
qed

interpretation enhanced_layout: layout_policy Enhanced_blockSize Enhanced_place
  Enhanced_verifyGuards eo_UserData Enhanced_segs Enhanced_fits
proof unfold_locales
  fix n al bs b :: u64 and m m' m'' :: memory and ofs :: enhanced_offsets
  assume fit: "Enhanced_fits n al" and size: "Enhanced_blockSize n al \<le> bs"
    and place: "Enhanced_place m b bs n al = (ofs, m')"
  obtain A M where ofs: "eo_RedzoneLeading ofs = 0" "eo_MetaDataLeading ofs = 64"
      "eo_CanaryLeading ofs = 128" "unat (eo_UserData ofs) = A"
      "unat (eo_UserData ofs - 128) = A - 128" "unat (eo_CanaryTrailing ofs) = A + unat n"
      "unat (eo_MetaDataTrailing ofs) = M" "unat (eo_RedzoneTrailing ofs) = M + 64"
      "unat (eo_MetaDataTrailing ofs - eo_CanaryTrailing ofs) = M - (A + unat n)"
      "unat (bs - eo_RedzoneTrailing ofs) = unat bs - (M + 64)"
    and ineq: "136 \<le> A" "unat al dvd A" "A + unat n + 8 \<le> M" "M + 80 \<le> unat bs"
    and mem: "m' = (\<lambda>a. let r = unat (a - b) in
           if M + 64 \<le> r \<and> r < unat bs then REDZONE
           else if M \<le> r \<and> r < M + 48 then 0
           else if A + unat n \<le> r \<and> r < M then canary_byte ((r - (A + unat n)) mod 8)
           else if 128 \<le> r \<and> r < A then canary_byte ((r - 128) mod 8)
           else if 64 \<le> r \<and> r < 112 then 0
           else if r < 64 then REDZONE else m a)"
    using fit size place by (rule Enhanced_place_facts)
  have lim: "M + 80 \<le> 18446744073709551616" using ineq unat_le_64 [of bs] by linarith
  show "unat off + unat len \<le> unat bs" if "(k, off, len) \<in> set (Enhanced_segs ofs bs)"
    for k off len
    using that ofs ineq by (auto simp: Enhanced_segs_def)
  show "unat (eo_UserData ofs) + unat n \<le> unat bs" using ofs ineq by simp
  show "unat al dvd unat (eo_UserData ofs)" using ofs ineq by simp
  show "i < unat (eo_UserData ofs) \<or> unat (eo_UserData ofs) + unat n \<le> i"
    if "g \<in> set (Enhanced_segs ofs bs)" "seg_covers g i" for g i
    using that ofs ineq by (auto simp: Enhanced_segs_def)
  show "0 < unat (eo_UserData ofs)
      \<and> (\<exists>g \<in> set (Enhanced_segs ofs bs). seg_covers g (unat (eo_UserData ofs) - 1))
      \<and> (\<exists>g \<in> set (Enhanced_segs ofs bs). seg_covers g (unat (eo_UserData ofs) + unat n))"
    using ofs ineq by (auto simp: Enhanced_segs_def)
  show "seg_ok m' b g" if "g \<in> set (Enhanced_segs ofs bs)" for g
    using that ofs ineq lim
    by (auto simp: Enhanced_segs_def mem Let_def simp del: seg_ok.simps intro!: seg_okI)
  show "m' a = m a" if "unat bs \<le> unat (a - b)" for a
    using that ofs ineq by (simp add: mem Let_def)
  show "Enhanced_verifyGuards m'' b ofs bs
      \<longleftrightarrow> (\<forall>g \<in> set (Enhanced_segs ofs bs). seg_ok m'' b g)"
    if "block_ok b bs"
    using that ofs ineq verifyRedzone_seg [OF that] verifyRedzone_seg0 [OF that]
      verifyCanaries_seg [OF that]
    by (auto simp: Enhanced_verifyGuards_def Enhanced_segs_def Let_def block_ok_def
        simp del: seg_ok.simps)
qed

end
