(* ===== verification/Kerbecs_LayoutPolicy.thy ===== *)
theory Kerbecs_LayoutPolicy
  imports Kerbecs_Layouts
begin

text \<open>
  The template parameter \<open>LayoutT\<close> of \<open>Region\<close> (\<open>src/Public/Region.h\<close>): one of the three layouts
  of \<open>src/Public/MemoryLayouts.h\<close>. The operations are dispatched on it, the contract of
  \<open>layout_policy\<close> is interpreted once for every layout, and the properties of block layouts are
  stated here for all three, together with the completeness of the overflow test that
  \<open>Region::allocate\<close> applies to a block size.
\<close>

datatype layout = NormalLayout | EnhancedLayout | StaticLayout

datatype layout_offsets =
  NormalOffsets normal_offsets | EnhancedOffsets enhanced_offsets | StaticOffsets static_offsets

fun layout_blockSize :: "layout \<Rightarrow> u64 \<Rightarrow> u64 \<Rightarrow> u64" where
  "layout_blockSize NormalLayout n al = Normal_blockSize n al"
| "layout_blockSize EnhancedLayout n al = Enhanced_blockSize n al"
| "layout_blockSize StaticLayout n al = Static_blockSize n al"

fun layout_place ::
  "layout \<Rightarrow> memory \<Rightarrow> addr \<Rightarrow> u64 \<Rightarrow> u64 \<Rightarrow> u64 \<Rightarrow> layout_offsets \<times> memory" where
  "layout_place NormalLayout m b bs n al =
     (let (ofs, m') = Normal_place m b bs n al in (NormalOffsets ofs, m'))"
| "layout_place EnhancedLayout m b bs n al =
     (let (ofs, m') = Enhanced_place m b bs n al in (EnhancedOffsets ofs, m'))"
| "layout_place StaticLayout m b bs n al =
     (let (ofs, m') = Static_place m b bs n al in (StaticOffsets ofs, m'))"

fun layout_verifyGuards :: "memory \<Rightarrow> addr \<Rightarrow> layout_offsets \<Rightarrow> u64 \<Rightarrow> bool" where
  "layout_verifyGuards m b (NormalOffsets ofs) bs = Normal_verifyGuards m b ofs bs"
| "layout_verifyGuards m b (EnhancedOffsets ofs) bs = Enhanced_verifyGuards m b ofs bs"
| "layout_verifyGuards m b (StaticOffsets ofs) bs = Static_verifyGuards m b ofs bs"

fun layout_userData :: "layout_offsets \<Rightarrow> u64" where
  "layout_userData (NormalOffsets ofs) = no_UserData ofs"
| "layout_userData (EnhancedOffsets ofs) = eo_UserData ofs"
| "layout_userData (StaticOffsets ofs) = so_UserData ofs"

fun layout_segs :: "layout_offsets \<Rightarrow> u64 \<Rightarrow> seg list" where
  "layout_segs (NormalOffsets ofs) bs = Normal_segs ofs bs"
| "layout_segs (EnhancedOffsets ofs) bs = Enhanced_segs ofs bs"
| "layout_segs (StaticOffsets ofs) bs = Static_segs ofs bs"

text \<open>The size a block needs, without wrap-around.\<close>

fun layout_size_nat :: "layout \<Rightarrow> nat \<Rightarrow> nat \<Rightarrow> nat" where
  "layout_size_nat NormalLayout n al = Normal_size_nat n al"
| "layout_size_nat EnhancedLayout n al = Enhanced_size_nat n al"
| "layout_size_nat StaticLayout n al = Static_size_nat n al"

definition layout_fits :: "layout \<Rightarrow> u64 \<Rightarrow> u64 \<Rightarrow> bool" where
  "layout_fits l n al \<longleftrightarrow> is_pow2 al \<and> layout_size_nat l (unat n) (unat al) < 2 ^ 64"

lemma layout_fits_simps [layout_simps]:
  "layout_fits NormalLayout n al = Normal_fits n al"
  "layout_fits EnhancedLayout n al = Enhanced_fits n al"
  "layout_fits StaticLayout n al = Static_fits n al"
  by (simp_all add: layout_fits_def Normal_fits_def Enhanced_fits_def Static_fits_def)

text \<open>Wrapping the offsets in a constructor keeps the contract.\<close>

lemma layout_policy_wrap:
  assumes policy: "layout_policy B P V U S F"
    and P': "\<And>m b bs n al. P' m b bs n al = (let (ofs, m') = P m b bs n al in (C ofs, m'))"
    and V': "\<And>m b ofs bs. V' m b (C ofs) bs = V m b ofs bs"
    and U': "\<And>ofs. U' (C ofs) = U ofs" and S': "\<And>ofs bs. S' (C ofs) bs = S ofs bs"
  shows "layout_policy B P' V' U' S' F"
proof unfold_locales
  fix n al bs b :: u64 and m m' m'' :: memory and ofs
  assume fit: "F n al" and size: "B n al \<le> bs" and place': "P' m b bs n al = (ofs, m')"
  obtain o1 where ofs: "ofs = C o1" and place: "P m b bs n al = (o1, m')"
    using place' P' [of m b bs n al] by (auto split: prod.splits)
  note facts = fit size place
  show "unat off + unat len \<le> unat bs" if "(k, off, len) \<in> set (S' ofs bs)" for k off len
    using layout_policy.segs_in_block [OF policy facts] that by (simp add: ofs S')
  show "unat (U' ofs) + unat n \<le> unat bs"
    using layout_policy.user_in_block [OF policy facts] by (simp add: ofs U')
  show "unat al dvd unat (U' ofs)"
    using layout_policy.user_aligned [OF policy facts] by (simp add: ofs U')
  show "i < unat (U' ofs) \<or> unat (U' ofs) + unat n \<le> i"
    if "g \<in> set (S' ofs bs)" "seg_covers g i" for g i
    using layout_policy.segs_avoid_user [OF policy facts] that by (simp add: ofs S' U')
  show "0 < unat (U' ofs) \<and> (\<exists>g \<in> set (S' ofs bs). seg_covers g (unat (U' ofs) - 1))
      \<and> (\<exists>g \<in> set (S' ofs bs). seg_covers g (unat (U' ofs) + unat n))"
    using layout_policy.user_fenced [OF policy facts] by (simp add: ofs S' U')
  show "seg_ok m' b g" if "g \<in> set (S' ofs bs)" for g
    using layout_policy.place_segs [OF policy facts] that by (simp add: ofs S')
  show "m' a = m a" if "unat bs \<le> unat (a - b)" for a
    using layout_policy.place_frame [OF policy facts] that .
  show "V' m'' b ofs bs \<longleftrightarrow> (\<forall>g \<in> set (S' ofs bs). seg_ok m'' b g)" if "block_ok b bs"
    using layout_policy.verify_segs [OF policy facts that] by (simp add: ofs S' V')
qed

lemma layout_policy_any:
  "layout_policy (layout_blockSize l) (layout_place l) layout_verifyGuards layout_userData
     layout_segs (layout_fits l)"
proof (cases l)
  case NormalLayout
  have "layout_policy Normal_blockSize (layout_place NormalLayout) layout_verifyGuards
      layout_userData layout_segs Normal_fits"
    by (rule layout_policy_wrap [where C = NormalOffsets, OF normal_layout.layout_policy_axioms]) simp_all
  moreover have "layout_blockSize l = Normal_blockSize" "layout_fits l = Normal_fits"
    by (simp_all add: NormalLayout layout_simps fun_eq_iff)
  ultimately show ?thesis by (simp add: NormalLayout)
next
  case EnhancedLayout
  have "layout_policy Enhanced_blockSize (layout_place EnhancedLayout) layout_verifyGuards
      layout_userData layout_segs Enhanced_fits"
    by (rule layout_policy_wrap [where C = EnhancedOffsets, OF enhanced_layout.layout_policy_axioms]) simp_all
  moreover have "layout_blockSize l = Enhanced_blockSize" "layout_fits l = Enhanced_fits"
    by (simp_all add: EnhancedLayout layout_simps fun_eq_iff)
  ultimately show ?thesis by (simp add: EnhancedLayout)
next
  case StaticLayout
  have "layout_policy Static_blockSize (layout_place StaticLayout) layout_verifyGuards
      layout_userData layout_segs Static_fits"
    by (rule layout_policy_wrap [where C = StaticOffsets, OF static_layout.layout_policy_axioms]) simp_all
  moreover have "layout_blockSize l = Static_blockSize" "layout_fits l = Static_fits"
    by (simp_all add: StaticLayout layout_simps fun_eq_iff)
  ultimately show ?thesis by (simp add: StaticLayout)
qed

interpretation lay: layout_policy "layout_blockSize l" "layout_place l" layout_verifyGuards
  layout_userData layout_segs "layout_fits l" for l
  by (rule layout_policy_any)

section \<open>The overflow test on block sizes\<close>

lemma unat_plus_wrap:
  "18446744073709551616 \<le> unat (a :: u64) + unat b \<Longrightarrow>
   unat (a + b) = unat a + unat b - 18446744073709551616"
  by (simp add: unat_plus_if_size word_size)

lemma alignUp_wrap:
  assumes "is_pow2 al" and "18446744073709551616 \<le> unat v + unat al - 1"
  shows "unat (alignUp v al) = 0"
proof -
  obtain k where k: "k < 64" "al = 2 ^ k" using assms(1) by (rule is_pow2E)
  have al: "unat al = 2 ^ k" using k by (simp add: unat_pow2)
  have m: "unat (mask k :: u64) = 2 ^ k - 1"
    using k(1) by (simp add: mask_eq_exp_minus_1 unat_minus_le unat_pow2 word_le_nat_alt)
  have v: "v + 2 ^ k - 1 = v + mask k" by (simp add: mask_eq_exp_minus_1)
  have pos: "(0::nat) < 2 ^ k" by simp
  have "unat (v + mask k) = unat v + (2 ^ k - 1) - 18446744073709551616"
    using assms(2) m al pos by (subst unat_plus_wrap) linarith+
  then have "unat (alignUp v al) = (unat v + (2 ^ k - 1) - 18446744073709551616) div 2 ^ k * 2 ^ k"
    unfolding k(2) alignUp_def v by (simp add: mask_eq_exp_minus_1 [symmetric] and_not_mask_unat)
  moreover have "unat v + (2 ^ k - 1) - 18446744073709551616 < 2 ^ k"
    using unat_lt_64 [of v] pos by linarith
  ultimately show ?thesis by simp
qed

text \<open>\<open>alignUp\<close> of a wrapped sum: the result is below the wrapped sum plus the alignment, or zero.\<close>

lemma alignUp_bound:
  assumes "is_pow2 al"
  shows "unat (alignUp v al) < unat v + unat al"
proof (cases "18446744073709551616 \<le> unat v + unat al - 1")
  case True
  with alignUp_wrap [OF assms this] pow2_unat_le [OF assms] show ?thesis by linarith
next
  case False
  then have "unat (alignUp v al) = align_nat (unat v) (unat al)"
    by (intro alignUp_pow2_unat assms) linarith
  with align_nat_less [of "unat al" "unat v"] pow2_unat_le [OF assms] show ?thesis by simp
qed

text \<open>
  The last step of every block size: round \<open>u + n + c\<close> up to a power of two \<open>q\<close> and add \<open>d\<close>.
  When the true value does not fit in 64 bits the computed one is below \<open>n\<close>.
\<close>

lemma rounded_size_wraps_below:
  fixes u n c d q :: u64
  assumes q: "is_pow2 q" and u: "unat u \<le> 9223372036854775808"
    and small: "unat c + unat d + unat q \<le> 1024"
    and over: "18446744073709551616 \<le> align_nat (unat u + unat n + unat c) (unat q) + unat d"
  shows "alignUp (u + n + c) q + d < n"
proof -
  let ?S = "unat u + unat n + unat c"
  have n: "4096 < unat n"
    using over align_nat_less [of "unat q" ?S] pow2_unat_le [OF q] u small by linarith
  have sum: "unat (u + n + c) = (if ?S < 18446744073709551616 then ?S else ?S - 18446744073709551616)"
  proof (cases "unat u + unat n < 18446744073709551616")
    case True
    then have "unat (u + n) = unat u + unat n" by (rule unat_plus_nowrap)
    then show ?thesis using unat_plus_nowrap [of "u + n" c] unat_plus_wrap [of "u + n" c] by auto
  next
    case False
    then have un: "unat (u + n) = unat u + unat n - 18446744073709551616"
      by (simp add: unat_plus_wrap)
    have "unat (u + n) + unat c < 18446744073709551616"
      using un u small unat_lt_64 [of n] by linarith
    then have "unat (u + n + c) = unat (u + n) + unat c" by (rule unat_plus_nowrap)
    with un False show ?thesis by simp
  qed
  have "unat (alignUp (u + n + c) q + d) < unat n"
  proof (cases "?S < 18446744073709551616")
    case False
    then have "unat (u + n + c) = ?S - 18446744073709551616" using sum by simp
    then have "unat (alignUp (u + n + c) q) + unat d < unat n"
      using alignUp_bound [OF q, of "u + n + c"] False u small by linarith
    moreover from this have "unat (alignUp (u + n + c) q + d) = unat (alignUp (u + n + c) q) + unat d"
      using unat_lt_64 [of n] by (intro unat_plus_nowrap) linarith
    ultimately show ?thesis by simp
  next
    case True
    then have S: "unat (u + n + c) = ?S" using sum by simp
    show ?thesis
    proof (cases "18446744073709551616 \<le> ?S + unat q - 1")
      case True
      then have "unat (alignUp (u + n + c) q) = 0" using alignUp_wrap [OF q] S by simp
      moreover from this have "unat (alignUp (u + n + c) q + d) = unat d"
        using unat_lt_64 [of d] by (subst unat_plus_nowrap) simp_all
      ultimately show ?thesis using n small by linarith
    next
      case False
      then have al: "unat (alignUp (u + n + c) q) = align_nat ?S (unat q)"
        using alignUp_pow2_unat [OF q, of "u + n + c"] S by simp
      then have "unat (alignUp (u + n + c) q + d) = align_nat ?S (unat q) + unat d - 18446744073709551616"
        using over unat_plus_wrap [of "alignUp (u + n + c) q" d] by simp
      then show ?thesis using al unat_lt_64 [of "alignUp (u + n + c) q"] n small by linarith
    qed
  qed
  then show ?thesis by (simp add: word_less_nat_alt)
qed

lemma leading_bound:
  assumes al: "is_pow2 al" and c: "unat c \<le> 1024"
  shows "unat (alignUp c al) = align_nat (unat c) (unat al)"
    and "align_nat (unat c) (unat al) \<le> 9223372036854775808"
proof -
  note b = pow2_unat_le [OF al]
  show "unat (alignUp c al) = align_nat (unat c) (unat al)"
    using alignUp_pow2_unat [OF al, of c] b c by linarith
  show "align_nat (unat c) (unat al) \<le> 9223372036854775808"
  proof (cases "unat c \<le> unat al")
    case True
    then show ?thesis using align_nat_least [of "unat al" "unat c" "unat al"] b by simp
  next
    case False
    then show ?thesis using align_nat_less [of "unat al" "unat c"] b c by linarith
  qed
qed

lemma layout_misfit_below:
  assumes al: "is_pow2 al" and over: "18446744073709551616 \<le> layout_size_nat l (unat n) (unat al)"
  shows "layout_blockSize l n al < n"
proof (cases l)
  case NormalLayout
  have "alignUp (alignUp 16 al + n + 16) 32 + 32 < n"
    using over leading_bound [OF al, of 16]
    by (intro rounded_size_wraps_below is_pow2_32) (simp_all add: NormalLayout Normal_size_nat_def)
  then show ?thesis by (simp add: NormalLayout Normal_blockSize_def Let_def layout_consts)
next
  case EnhancedLayout
  have "alignUp (alignUp 136 al + n + 8) 64 + 80 < n"
    using over leading_bound [OF al, of 136]
    by (intro rounded_size_wraps_below is_pow2_64) (simp_all add: EnhancedLayout Enhanced_size_nat_def)
  then show ?thesis
    by (simp add: EnhancedLayout Enhanced_blockSize_def Let_def layout_consts alignUp_16_64
        add.commute [of 80])
next
  case StaticLayout
  have one: "alignUp v 1 = v" for v by (simp add: alignUp_def)
  have "alignUp (alignUp 24 al + n + 24) 1 + 0 < n"
    using over leading_bound [OF al, of 24]
    by (intro rounded_size_wraps_below)
      (simp_all add: StaticLayout Static_size_nat_def align_nat_def is_pow2_def)
  then show ?thesis by (simp add: StaticLayout Static_blockSize_def Let_def layout_consts one add.commute [of 24])
qed

lemma layout_size_unat:
  assumes "layout_fits l n al"
  shows "unat (layout_blockSize l n al) = layout_size_nat l (unat n) (unat al)"
proof (cases l)
  case NormalLayout
  with assms have al: "is_pow2 al" and lt: "Normal_size_nat (unat n) (unat al) < 18446744073709551616"
    by (simp_all add: layout_fits_def)
  let ?A = "align_nat 16 (unat al)"
  note u = leading_bound(1) [OF al, of 16]
  have ge: "?A + unat n + 16 \<le> align_nat (?A + unat n + 16) 32" by (rule align_nat_ge) simp
  have s: "unat (alignUp 16 al + n) = ?A + unat n" 
    using u lt ge by (subst unat_plus_nowrap) (simp_all add: Normal_size_nat_def)
  then have "unat (alignUp 16 al + n + 16) = ?A + unat n + 16"
    using u lt ge by (subst unat_plus_nowrap) (simp_all add: Normal_size_nat_def)
  then have "unat (alignUp (alignUp 16 al + n + 16) 32) = align_nat (?A + unat n + 16) 32"
    using alignUp_pow2_unat [OF is_pow2_32, of "alignUp 16 al + n + 16"] lt ge
    by (simp add: Normal_size_nat_def)
  then show ?thesis using lt
    by (simp add: NormalLayout Normal_blockSize_def Let_def layout_consts Normal_size_nat_def
        unat_plus_nowrap)
next
  case EnhancedLayout
  with assms have al: "is_pow2 al" and lt: "Enhanced_size_nat (unat n) (unat al) < 18446744073709551616"
    by (simp_all add: layout_fits_def)
  let ?A = "align_nat 136 (unat al)"
  note u = leading_bound(1) [OF al, of 136]
  have ge: "?A + unat n + 8 \<le> align_nat (?A + unat n + 8) 64" by (rule align_nat_ge) simp
  have s: "unat (alignUp 136 al + n) = ?A + unat n"
    using u lt ge by (subst unat_plus_nowrap) (simp_all add: Enhanced_size_nat_def)
  then have "unat (alignUp 136 al + n + 8) = ?A + unat n + 8"
    using u lt ge by (subst unat_plus_nowrap) (simp_all add: Enhanced_size_nat_def)
  then have "unat (alignUp (alignUp 136 al + n + 8) 64) = align_nat (?A + unat n + 8) 64"
    using alignUp_pow2_unat [OF is_pow2_64, of "alignUp 136 al + n + 8"] lt ge
    by (simp add: Enhanced_size_nat_def)
  then have "unat (alignUp (alignUp 136 al + n + 8) 64 + 80) = align_nat (?A + unat n + 8) 64 + 80"
    using lt by (subst unat_plus_nowrap) (simp_all add: Enhanced_size_nat_def)
  then show ?thesis
    by (simp add: EnhancedLayout Enhanced_blockSize_def Let_def layout_consts alignUp_16_64
        Enhanced_size_nat_def add.commute [of 80])
next
  case StaticLayout
  with assms have al: "is_pow2 al" and lt: "Static_size_nat (unat n) (unat al) < 18446744073709551616"
    by (simp_all add: layout_fits_def)
  note u = leading_bound(1) [OF al, of 24]
  have "unat (alignUp 24 al + n) = align_nat 24 (unat al) + unat n"
    using u lt by (subst unat_plus_nowrap) (simp_all add: Static_size_nat_def)
  then have "unat (alignUp 24 al + n + 24) = align_nat 24 (unat al) + unat n + 24"
    using lt by (subst unat_plus_nowrap) (simp_all add: Static_size_nat_def)
  then show ?thesis
    by (simp add: StaticLayout Static_blockSize_def Let_def layout_consts Static_size_nat_def
        add.commute [of 24])
qed

text \<open>
  \<open>Region::allocate\<close> takes \<open>blockSize < userSize\<close> as the sign of an overflow. The test is exact.
\<close>

lemma layout_fits_iff:
  assumes "is_pow2 al"
  shows "layout_fits l n al \<longleftrightarrow> n \<le> layout_blockSize l n al"
proof
  assume fit: "layout_fits l n al"
  have "unat n \<le> layout_size_nat l (unat n) (unat al)"
    using align_nat_ge [of 32 "align_nat 16 (unat al) + unat n + 16"]
      align_nat_ge [of 64 "align_nat 136 (unat al) + unat n + 8"]
    by (cases l) (simp_all add: Normal_size_nat_def Enhanced_size_nat_def Static_size_nat_def)
  then show "n \<le> layout_blockSize l n al"
    using layout_size_unat [OF fit] by (simp add: word_le_nat_alt)
next
  assume "n \<le> layout_blockSize l n al"
  then show "layout_fits l n al"
    using assms layout_misfit_below [OF assms, of l n] by (force simp: layout_fits_def)
qed

section \<open>Properties\<close>

text \<open>
  C28: For every layout and power-of-two alignment, the test of \<open>Region::allocate\<close> is exact: the
  computed block size is below the payload size precisely when the true size of the block (guards,
  metadata and padding counted without wrap-around) does not fit in 64 bits; and when it does fit
  the computed size is the true one.
\<close>

theorem layout_overflow_test_exact:
  assumes "is_pow2 al"
  shows "(layout_blockSize l n al < n \<longleftrightarrow> 2 ^ 64 \<le> layout_size_nat l (unat n) (unat al))
    \<and> (layout_size_nat l (unat n) (unat al) < 2 ^ 64 \<longrightarrow>
         unat (layout_blockSize l n al) = layout_size_nat l (unat n) (unat al))"
proof -
  have "layout_blockSize l n al < n \<longleftrightarrow> \<not> layout_fits l n al"
    using layout_fits_iff [OF assms, of l n] by (simp add: not_le)
  then show ?thesis
    using assms layout_size_unat [of l n al] by (simp add: layout_fits_def not_less)
qed

theorem layout_overflow_test_exact_witness:
  "layout_blockSize EnhancedLayout (- 100) 16 < - 100
    \<and> unat (layout_blockSize EnhancedLayout 100 16) = layout_size_nat EnhancedLayout 100 16"
proof -
  have al: "is_pow2 16" by (simp add: is_pow2_def)
  show ?thesis
    using layout_overflow_test_exact [OF al, of EnhancedLayout "- 100"]
      layout_overflow_test_exact [OF al, of EnhancedLayout 100]
    by (simp add: Enhanced_size_nat_def align_nat_def)
qed

text \<open>
  C18: A block placed by any layout in a buffer of at least its block size has its payload inside the
  block, at an offset aligned as asked, disjoint from every guard segment, with a guard byte directly
  before it and directly after it; placing writes nothing outside the block.
\<close>

theorem layout_payload_geometry:
  assumes "layout_fits l n al" and "layout_blockSize l n al \<le> bs"
    and "layout_place l m b bs n al = (ofs, m')"
  shows "unat (layout_userData ofs) + unat n \<le> unat bs
    \<and> unat al dvd unat (layout_userData ofs)
    \<and> (\<forall>g \<in> set (layout_segs ofs bs). \<forall>i. seg_covers g i \<longrightarrow>
         i < unat bs \<and> (i < unat (layout_userData ofs) \<or> unat (layout_userData ofs) + unat n \<le> i))
    \<and> (\<exists>g \<in> set (layout_segs ofs bs). seg_covers g (unat (layout_userData ofs) - 1))
    \<and> (\<exists>g \<in> set (layout_segs ofs bs). seg_covers g (unat (layout_userData ofs) + unat n))
    \<and> (\<forall>a. \<not> in_range a b bs \<longrightarrow> m' a = m a)"
  using lay.user_in_block [OF assms] lay.user_aligned [OF assms] lay.segs_avoid_user [OF assms]
    lay.seg_covers_in_block [OF assms] lay.user_fenced [OF assms] lay.place_frame [OF assms]
  by (simp add: in_range_base not_less)

theorem layout_payload_geometry_witness:
  "let (ofs, m') = layout_place EnhancedLayout (\<lambda>_. 7) 4096 512 40 16
   in unat (layout_userData ofs) + 40 \<le> 512 \<and> 16 dvd unat (layout_userData ofs) \<and> m' 5000 = 7"
proof -
  obtain ofs m' where p: "layout_place EnhancedLayout (\<lambda>_. 7) 4096 512 40 16 = (ofs, m')"
    by (cases "layout_place EnhancedLayout (\<lambda>_. 7) 4096 512 40 16")
  have "layout_fits EnhancedLayout 40 16"
    by (simp add: layout_fits_def is_pow2_def Enhanced_size_nat_def align_nat_def)
  moreover have "layout_blockSize EnhancedLayout 40 16 \<le> 512"
    by (simp add: Enhanced_blockSize_def alignUp_def layout_consts)
  ultimately show ?thesis
    using layout_payload_geometry [OF _ _ p] unfolding p by (simp add: in_range_def)
qed

text \<open>
  C27: Whatever is written into the payload of a placed block, and whatever happens to memory outside
  the block, its guards verify: \<open>verifyGuards\<close> raises no false alarm.
\<close>

theorem layout_guards_no_false_alarm:
  assumes "layout_fits l n al" and "layout_blockSize l n al \<le> bs" and "block_ok b bs"
    and "layout_place l m b bs n al = (ofs, m')"
    and "\<And>a. in_range a b bs \<Longrightarrow> m'' a \<noteq> m' a \<Longrightarrow> in_range a (b + layout_userData ofs) n"
  shows "layout_verifyGuards m'' b ofs bs"
proof -
  define w where "w = (\<lambda>a. if in_range a b bs then m'' a else m' a)"
  have "in_range a (b + layout_userData ofs) n" if "w a \<noteq> m' a" for a
    using that assms(5) [of a] by (auto simp: w_def split: if_splits)
  then have "layout_verifyGuards w b ofs bs"
    using lay.payload_writes_keep_guards [OF assms(1,2,4,3)] by blast
  moreover have "seg_ok w b g \<longleftrightarrow> seg_ok m'' b g" if g: "g \<in> set (layout_segs ofs bs)" for g
  proof (cases g)
    case (fields k off len)
    have "unat off + unat len \<le> 18446744073709551616"
      using lay.seg_end [OF assms(1,2,4)] g fields by blast
    note iff = seg_ok_iff [OF this]
    have "w a = m'' a" if "seg_covers g (unat (a - b))" for a
      using lay.seg_covers_in_block [OF assms(1,2,4) g that] by (simp add: w_def in_range_base)
    then show ?thesis unfolding fields iff by auto
  qed
  ultimately show ?thesis using lay.verify_segs [OF assms(1,2,4,3)] by blast
qed

theorem layout_guards_no_false_alarm_witness:
  "let (ofs, m') = layout_place StaticLayout (\<lambda>_. 7) 4096 512 40 16
   in layout_verifyGuards (mem_set m' (4096 + layout_userData ofs) 255 40) 4096 ofs 512"
proof -
  obtain ofs m' where p: "layout_place StaticLayout (\<lambda>_. 7) 4096 512 40 16 = (ofs, m')"
    by (cases "layout_place StaticLayout (\<lambda>_. 7) 4096 512 40 16")
  have "layout_fits StaticLayout 40 16"
    by (simp add: layout_fits_def is_pow2_def Static_size_nat_def align_nat_def)
  moreover have "layout_blockSize StaticLayout 40 16 \<le> 512"
    by (simp add: Static_blockSize_def alignUp_def layout_consts)
  moreover have "block_ok 4096 512" by (simp add: block_ok_def)
  ultimately have "layout_verifyGuards (mem_set m' (4096 + layout_userData ofs) 255 40) 4096 ofs 512"
    by (rule layout_guards_no_false_alarm [OF _ _ _ p]) (auto simp: mem_set_apply split: if_splits)
  then show ?thesis unfolding p by simp
qed

text \<open>
  C6: A write that changes a guard byte of a placed block is detected, whatever else was written: in
  particular a change of the byte directly before the payload (underrun by one) or directly after it
  (overrun by one).
\<close>

theorem layout_guard_damage_detected:
  assumes "layout_fits l n al" and "layout_blockSize l n al \<le> bs" and "block_ok b bs"
    and "layout_place l m b bs n al = (ofs, m')"
    and "m'' a \<noteq> m' a"
    and "a = b + layout_userData ofs - 1 \<or> a = b + layout_userData ofs + n
      \<or> (\<exists>g \<in> set (layout_segs ofs bs). seg_covers g (unat (a - b)))"
  shows "\<not> layout_verifyGuards m'' b ofs bs"
  using assms(6) lay.off_by_one_write_detected [OF assms(1,2,4,3), of a m'']
    lay.guard_write_detected [OF assms(1,2,4,3), of _ a m''] assms(5) by blast

theorem layout_guard_damage_detected_witness:
  "let (ofs, m') = layout_place NormalLayout (\<lambda>_. 7) 4096 512 40 16
   in \<not> layout_verifyGuards (m'(4096 + layout_userData ofs + 40 := m' (4096 + layout_userData ofs + 40) + 1))
        4096 ofs 512"
proof -
  obtain ofs m' where p: "layout_place NormalLayout (\<lambda>_. 7) 4096 512 40 16 = (ofs, m')"
    by (cases "layout_place NormalLayout (\<lambda>_. 7) 4096 512 40 16")
  let ?a = "4096 + layout_userData ofs + 40"
  have "layout_fits NormalLayout 40 16"
    by (simp add: layout_fits_def is_pow2_def Normal_size_nat_def align_nat_def)
  moreover have "layout_blockSize NormalLayout 40 16 \<le> 512"
    by (simp add: Normal_blockSize_def alignUp_def layout_consts)
  moreover have "block_ok 4096 512" by (simp add: block_ok_def)
  ultimately have "\<not> layout_verifyGuards (m'(?a := m' ?a + 1)) 4096 ofs 512"
    by (rule layout_guard_damage_detected [OF _ _ _ p, where a = ?a]) simp_all
  then show ?thesis unfolding p by simp
qed

end
