(* ===== verification/Kerbecs_Region.thy ===== *)
theory Kerbecs_Region
  imports Kerbecs_Shadow Kerbecs_LayoutPolicy
begin

text \<open>
  \<open>src/Public/Region.h\<close> and \<open>src/Public/MemorySupport.h\<close>: a region over an allocator of the user. The
  template arguments and what the region is built on are a record \<open>region_type\<close>: the layout, the thread
  policy, the operating system, the build options, and the two operations of the allocator, which is
  not part of this code. \<open>a_allocate\<close> may change the whole world, as the zone allocators of the
  runtime do; \<open>a_deallocate\<close> works on the environment, as it also runs from the quarantine.

  \<open>T\<close> is \<open>sizeof(T)\<close> and \<open>alignof(T)\<close>, its constructor and destructor are functions on memory.
  \<open>Undefined\<close> is undefined behaviour: a null or dangling node, an unmapped shadow page, a held lock.
\<close>

record 'e region_type =
  p_layout :: layout
  p_policy :: thread_policy
  p_os :: "'e os_api"
  p_config :: config
  a_allocate :: "'e world \<Rightarrow> u64 \<Rightarrow> u64 \<Rightarrow> ('e world \<times> addr) option"
  a_deallocate :: "'e \<Rightarrow> addr \<Rightarrow> u64 \<Rightarrow> 'e"

section \<open>MemorySupport\<close>

definition support_allocate :: "'e region_type \<Rightarrow> 'e world \<Rightarrow> u64 \<Rightarrow> u64 \<Rightarrow> ('e world \<times> addr) option" where
  "support_allocate P w v_Bytes v_Align = a_allocate P w v_Bytes v_Align"

definition support_deallocate :: "'e region_type \<Rightarrow> 'e \<Rightarrow> addr \<Rightarrow> u64 \<Rightarrow> 'e" where
  "support_deallocate P e p_Block v_Bytes = a_deallocate P e p_Block v_Bytes"

definition support_thunk :: "'e region_type \<Rightarrow> 'e \<Rightarrow> addr \<Rightarrow> addr \<Rightarrow> u64 \<Rightarrow> 'e" where
  "support_thunk P e p_Alloc p_Block v_Bytes = support_deallocate P e p_Block v_Bytes"

section \<open>Construction and destruction\<close>

definition sizeof_AccessInfo :: u64 where "sizeof_AccessInfo = 16"
definition alignof_AccessInfo :: u64 where "alignof_AccessInfo = 16"

text \<open>Setting the parts of the world that the region reaches through the runtime.\<close>

definition set_core :: "'e world \<Rightarrow> 'e kcore \<Rightarrow> 'e world" where
  "set_core w k = w\<lparr>w_rt := (w_rt w)\<lparr>rt_core := k\<rparr>\<rparr>"

definition set_env :: "'e world \<Rightarrow> 'e \<Rightarrow> 'e world" where
  "set_env w e = set_core w ((rt_core (w_rt w))\<lparr>k_env := e\<rparr>)"

definition set_reg :: "'e world \<Rightarrow> addr \<Rightarrow> registry option \<Rightarrow> 'e world" where
  "set_reg w a x = set_core w ((rt_core (w_rt w))\<lparr>k_regs := (k_regs (rt_core (w_rt w)))(a := x)\<rparr>)"

text \<open>
  The members in the order of their initialisers. The arguments \<open>this\<close>, \<open>support\<close> and \<open>registry\<close> are the
  addresses of the object and of its two members.
\<close>

definition region_ctor ::
  "'e region_type \<Rightarrow> 'e world \<Rightarrow> addr \<Rightarrow> addr \<Rightarrow> addr \<Rightarrow> addr \<Rightarrow> u64 \<Rightarrow> u64 \<Rightarrow> addr \<Rightarrow> ('e world, region) outcome" where
  "region_ctor P w self support registry p_Allocator v_Size v_AllocationRegistryCapacity p_RegionBase =
     (let r = \<lparr>rg_this = self, rg_Allocator = p_Allocator, rg_Size = v_Size, rg_RegionBase = p_RegionBase,
                rg_ShadowBlobPtr = null, rg_MetadataMapBase = null, rg_AllocatorSupport = support,
                rg_AllocationRegistry = registry, rg_Initialized = False\<rparr>;
          w = set_reg w registry (Some (registry_new v_AllocationRegistryCapacity))
      in if v_Size = 0 \<or> v_AllocationRegistryCapacity = 0 then Ret w r
         else
           (case runtime_init (p_os P) (p_config P) (w_rt w) of
              Trap rt \<Rightarrow> Trap (w\<lparr>w_rt := rt\<rparr>)
            | Undefined \<Rightarrow> Undefined
            | Ret rt ready \<Rightarrow>
                let w = w\<lparr>w_rt := rt\<rparr>
                in if \<not> ready then Ret w r
                   else
                     let shadowBytes = drop_bit SHADOW_SCALE (v_Size + (push_bit SHADOW_SCALE 1 - 1))
                     in if shadowBytes = 0 \<or> v_AllocationRegistryCapacity > (- 1) div sizeof_AccessInfo then Ret w r
                        else
                          let (rt, blob) = shadowzoneAllocate (w_rt w) shadowBytes;
                              r = r\<lparr>rg_ShadowBlobPtr := blob\<rparr>
                          in (case metadataZoneAllocate (p_os P) rt
                                     (v_AllocationRegistryCapacity * sizeof_AccessInfo) alignof_AccessInfo of
                                None \<Rightarrow> Undefined
                              | Some (rt, meta) \<Rightarrow>
                                  let w = w\<lparr>w_rt := rt\<rparr>;
                                      r = r\<lparr>rg_MetadataMapBase := meta\<rparr>
                                  in if blob = null \<or> meta = null then Ret w r
                                     else
                                       (case k_regs (rt_core (w_rt w)) registry of
                                          None \<Rightarrow> Undefined
                                        | Some reg \<Rightarrow>
                                            let (e, reg, ok) = registry_init (p_os P) (k_env (rt_core (w_rt w))) reg;
                                                w = set_reg (set_env w e) registry (Some reg)
                                            in if \<not> ok then Ret w r
                                               else
                                                 (case runtime_registerRegion (p_config P) (w_rt w) self blob meta v_Size
                                                         p_RegionBase of
                                                    None \<Rightarrow> Undefined
                                                  | Some (rt, done_) \<Rightarrow>
                                                      Ret (w\<lparr>w_rt := rt\<rparr>) (r\<lparr>rg_Initialized := done_\<rparr>))))))"

definition region_dtor :: "'e region_type \<Rightarrow> 'e world \<Rightarrow> region \<Rightarrow> 'e world option" where
  "region_dtor P w r =
     (case queue_flushEligible (rt_core (w_rt w)) (- 1) True of
        None \<Rightarrow> None
      | Some (k, flushed) \<Rightarrow>
          let w = set_core w k
          in (case k_regs (rt_core (w_rt w)) (rg_AllocationRegistry r) of
                None \<Rightarrow> None
              | Some reg \<Rightarrow>
                  let (e, reg) = registry_shutdown (p_os P) (k_env (rt_core (w_rt w))) reg
                  in Some (set_reg (set_env w e) (rg_AllocationRegistry r) None)))"

section \<open>allocate\<close>

definition region_allocate ::
  "'e region_type \<Rightarrow> region \<Rightarrow> 'e world \<Rightarrow> caller \<Rightarrow> u64 \<Rightarrow> u64 \<Rightarrow> u64 \<Rightarrow> u64 \<Rightarrow> ('e world, handle) outcome" where
  "region_allocate P r w c sizeT alignT v_Count v_Align =
     (if \<not> rg_Initialized r \<or> rg_RegionBase r = null \<or> v_Count = 0 then Ret w handle_null
      else if v_Count > (- 1) div sizeT then Ret (report w c SizeOverflow null null v_Count) handle_null
      else
        let userSize = v_Count * sizeT;
            alignment = max v_Align alignT;
            blockSize = layout_blockSize (p_layout P) userSize alignment
        in if blockSize < userSize then Ret (report w c SizeOverflow null null userSize) handle_null
           else
        (case support_allocate P w blockSize alignment of
           None \<Rightarrow> Undefined
         | Some (w, block) \<Rightarrow>
        if block = null then Ret w handle_null
        else
          let (offsets, m) = layout_place (p_layout P) (w_mem w) block blockSize userSize alignment;
              w = w\<lparr>w_mem := m\<rparr>;
              payload = block + layout_userData offsets
          in (case (if region_contains r payload userSize then setShadow (p_os P) r w payload userSize True
                    else Some (w, False)) of
                None \<Rightarrow> Undefined
              | Some (w, poisoned) \<Rightarrow>
        if \<not> poisoned
        then let w = report w c WildPointer payload block blockSize
             in Ret (set_env w (support_deallocate P (k_env (rt_core (w_rt w))) block blockSize)) handle_null
        else
          (case k_regs (rt_core (w_rt w)) (rg_AllocationRegistry r) of
             None \<Rightarrow> Undefined
           | Some reg \<Rightarrow>
          (case registry_insert reg (k_stats (rt_core (w_rt w))) block payload blockSize userSize (rg_Allocator r)
                  (currentThreadID (c_anchor c)) null v_Count of
             None \<Rightarrow> Undefined
           | Some (reg, st, inserted) \<Rightarrow>
          let w = set_reg (set_core w ((rt_core (w_rt w))\<lparr>k_stats := st\<rparr>)) (rg_AllocationRegistry r) (Some reg)
          in if \<not> inserted
             then
               (case setShadow (p_os P) r (report w c OverlapDetected payload block blockSize) payload userSize False of
                  None \<Rightarrow> Undefined
                | Some (w, cleared) \<Rightarrow>
                    Ret (set_env w (support_deallocate P (k_env (rt_core (w_rt w))) block blockSize)) handle_null)
             else
               (case registry_find reg block of
                  None \<Rightarrow> Undefined
                | Some None \<Rightarrow> Undefined
                | Some (Some slot) \<Rightarrow>
                    let info = rg_MetadataMapBase r + of_nat slot * sizeof_AccessInfo;
                        generation = n_Generation (r_nodes reg ! slot);
                        w = w\<lparr>w_infos := (w_infos w)(info := \<lparr>ai_UserSize = userSize, ai_Generation = generation\<rparr>)\<rparr>;
                        shadow = rg_ShadowBlobPtr r + drop_bit SHADOW_SCALE (payload - rg_RegionBase r)
                    in Ret w \<lparr>h_MetaPtr = info, h_PayloadPtr = payload, h_ShadowPtr = shadow,
                              h_Generation = generation\<rparr>))))))"

section \<open>construct and destroy\<close>

text \<open>
  The difference of the two \<open>AccessInfo\<close> pointers is the byte distance over 16, as a signed number, and
  \<open>slot\<close> is that number as \<open>size_t\<close>. \<open>None\<close>: an offset from a null pool, which is no pointer.
\<close>

definition nodeFor :: "region \<Rightarrow> registry \<Rightarrow> handle \<Rightarrow> nat option option" where
  "nodeFor r reg h =
     (if h_MetaPtr h = null \<or> rg_MetadataMapBase r = null then Some None
      else
        let slot = signed_drop_bit 4 (h_MetaPtr h - rg_MetadataMapBase r)
        in if slot < r_NodeCapacity reg
           then (if r_NodePool reg = null then (if slot = 0 then Some None else None) else Some (Some (unat slot)))
           else Some None)"

definition region_construct ::
  "'e region_type \<Rightarrow> region \<Rightarrow> 'e world \<Rightarrow> caller \<Rightarrow> u64 \<Rightarrow> u64 \<Rightarrow> (memory \<Rightarrow> addr \<Rightarrow> memory) \<Rightarrow> handle
   \<Rightarrow> ('e world, bool) outcome" where
  "region_construct P r w c sizeT alignT ctor v_Handle =
     (case k_regs (rt_core (w_rt w)) (rg_AllocationRegistry r) of
        None \<Rightarrow> Undefined
      | Some reg \<Rightarrow>
     (case nodeFor r reg v_Handle of
        None \<Rightarrow> Undefined
      | Some None \<Rightarrow> Ret (report w c WildPointer (h_PayloadPtr v_Handle) null sizeT) False
      | Some (Some slot) \<Rightarrow>
          if h_PayloadPtr v_Handle mod alignT \<noteq> 0
          then (if slot < length (r_nodes reg)
                then Ret (report w c AlignmentViolation (h_PayloadPtr v_Handle)
                            (n_BlockBase (r_nodes reg ! slot)) sizeT) False
                else Undefined)
          else
            (case setShadow (p_os P) r w (h_PayloadPtr v_Handle) sizeT False of
               None \<Rightarrow> Undefined
             | Some (w, ok) \<Rightarrow>
                 if \<not> ok then Ret w False
                 else Ret (w\<lparr>w_mem := ctor (w_mem w) (h_PayloadPtr v_Handle)\<rparr>) True)))"

text \<open>The violation that a refused \<open>destroy\<close> reports; \<open>node\<close> as it is after \<open>beginRetiring\<close>.\<close>

definition destroy_kind :: "thread_policy \<Rightarrow> u32 \<Rightarrow> node \<Rightarrow> violation_kind" where
  "destroy_kind policy tid node =
     (let kind = DoubleFree;
          kind = (if policy = Strict \<and> tid \<noteq> n_ThreadID node then ThreadOwnership else kind)
      in if kind = DoubleFree \<and> n_State node = SRetiring then RetiredBoundaryViolation else kind)"

definition region_destroy ::
  "'e region_type \<Rightarrow> region \<Rightarrow> 'e world \<Rightarrow> caller \<Rightarrow> u64 \<Rightarrow> (memory \<Rightarrow> addr \<Rightarrow> memory) \<Rightarrow> handle
   \<Rightarrow> ('e world, bool) outcome" where
  "region_destroy P r w c sizeT dtor v_Handle =
     (case k_regs (rt_core (w_rt w)) (rg_AllocationRegistry r) of
        None \<Rightarrow> Undefined
      | Some reg \<Rightarrow>
     (case nodeFor r reg v_Handle of
        None \<Rightarrow> Undefined
      | Some None \<Rightarrow> Ret (report w c DoubleFree (h_PayloadPtr v_Handle) null sizeT) False
      | Some (Some slot) \<Rightarrow>
     if \<not> slot < length (r_nodes reg) then Undefined
     else
       let base = n_BlockBase (r_nodes reg ! slot);
           tid = currentThreadID (c_anchor c)
       in (case beginRetiring reg base tid (p_policy P) of
             None \<Rightarrow> Undefined
           | Some (reg, None) \<Rightarrow>
               Ret (report (set_reg w (rg_AllocationRegistry r) (Some reg)) c
                      (destroy_kind (p_policy P) tid (r_nodes reg ! slot)) (h_PayloadPtr v_Handle)
                      (n_BlockBase (r_nodes reg ! slot)) sizeT) False
           | Some (reg, Some i) \<Rightarrow>
               let retiring = r_nodes reg ! i;
                   finalObject = (n_LiveCount retiring = 1);
                   reg = set_node reg i (retiring\<lparr>n_LiveCount := n_LiveCount retiring - 1\<rparr>);
                   w = set_reg w (rg_AllocationRegistry r) (Some reg);
                   w = (if finalObject
                        then w\<lparr>w_infos := (w_infos w)(h_MetaPtr v_Handle :=
                               (w_infos w (h_MetaPtr v_Handle))\<lparr>ai_Generation := 0\<rparr>)\<rparr>
                        else w);
                   m = dtor (w_mem w) (h_PayloadPtr v_Handle);
                   w = w\<lparr>w_mem := mem_set m (h_PayloadPtr v_Handle) TOMBSTONE sizeT\<rparr>
               in (case setShadow (p_os P) r w (h_PayloadPtr v_Handle) sizeT True of
                     None \<Rightarrow> Undefined
                   | Some (w, poisoned) \<Rightarrow>
                       (case endRetiring (rt_core (w_rt w)) (rg_AllocationRegistry r)
                               (n_BlockBase (r_nodes reg ! slot)) (k_epoch (rt_core (w_rt w)))
                               (rg_AllocatorSupport r) (Some (support_thunk P)) of
                          Ret k u \<Rightarrow> Ret (set_core w k) True
                        | Trap k \<Rightarrow> Trap (set_core w k)
                        | Undefined \<Rightarrow> Undefined)))))"

section \<open>The aliases\<close>

definition NormalRegion :: "'e region_type \<Rightarrow> 'e region_type" where
  "NormalRegion P = P\<lparr>p_layout := NormalLayout, p_policy := Flexible\<rparr>"
definition NormalRegionStrict :: "'e region_type \<Rightarrow> 'e region_type" where
  "NormalRegionStrict P = P\<lparr>p_layout := NormalLayout, p_policy := Strict\<rparr>"
definition EnhancedRegion :: "'e region_type \<Rightarrow> 'e region_type" where
  "EnhancedRegion P = P\<lparr>p_layout := EnhancedLayout, p_policy := Flexible\<rparr>"
definition EnhancedRegionStrict :: "'e region_type \<Rightarrow> 'e region_type" where
  "EnhancedRegionStrict P = P\<lparr>p_layout := EnhancedLayout, p_policy := Strict\<rparr>"
definition StaticRegion :: "'e region_type \<Rightarrow> 'e region_type" where
  "StaticRegion P = P\<lparr>p_layout := StaticLayout, p_policy := Flexible\<rparr>"
definition StaticRegionStrict :: "'e region_type \<Rightarrow> 'e region_type" where
  "StaticRegionStrict P = P\<lparr>p_layout := StaticLayout, p_policy := Strict\<rparr>"

end
