(* ===== verification/Kerbecs_RegistrySafe.thy ===== *)
theory Kerbecs_RegistrySafe
  imports Kerbecs_RegistrySteps Kerbecs_Region
begin

text \<open>
  What holds of the allocation registry in every state that threads can bring it to
  (\<open>src/Private/AllocationRegistry.cpp\<close>, \<open>Region::destroy\<close> in \<open>src/Public/Region.h\<close>): the invariant of
  \<open>Kerbecs_RegistrySteps\<close> along runs, the properties that follow, and two runs.
\<close>

lemma threads_step_inv:
  assumes "reg_step_among y y'" and "reg_sys_inv y"
  shows "reg_sys_inv y'"
  using assms(1)
proof cases
  case (step s pcs t s' p')
  from assms(2) have inv: "reg_sys_inv (s, pcs)" by (simp add: step)
  then have "shared_ok s" "pc_ok s (pcs t)" "\<forall>c\<in>claims (pcs t). needs s c" by (auto simp: reg_sys_inv_def)
  with step(3) have "step_good s (pcs t) s' p'" by (rule reg_local_good)
  with inv show ?thesis unfolding step by (rule step_good_inv)
qed

lemma threads_start_inv:
  assumes "reg_begin reg"
  shows "reg_sys_inv (sys_start reg)"
proof -
  have u: "used (fst (sys_start reg)) = 0" using assms by (simp add: sys_start_def used_def reg_used_def reg_begin_def)
  have "shared_ok (fst (sys_start reg))"
    using assms by (auto simp: shared_ok_def u) (auto simp: sys_start_def reg_begin_def bk_def bucket_zero_def nd_def)
  moreover have "\<not> needs (fst (sys_start reg)) c" for c
    using assms by (cases c) (auto simp: u, simp add: sys_start_def reg_begin_def bk_def bucket_zero_def)
  ultimately show ?thesis by (simp add: reg_sys_inv_def sys_start_def)
qed

lemma threads_run_inv:
  assumes "reg_step_among\<^sup>*\<^sup>* (sys_start reg) y" and "reg_begin reg"
  shows "reg_sys_inv y"
  using assms(1)
proof (induction rule: rtranclp_induct)
  case base
  show ?case by (rule threads_start_inv [OF assms(2)])
next
  case (step y z)
  then show ?case using threads_step_inv by blast
qed

section \<open>Properties\<close>

text \<open>Thread \<open>t\<close> is between taking and releasing the destructor lock of node \<open>i\<close>.\<close>

definition inside :: "reg_sys \<Rightarrow> nat \<Rightarrow> nat \<Rightarrow> bool" where
  "inside y t i \<longleftrightarrow> CDtor i \<in> claims (snd y t)"

definition reg_quiet :: "reg_sys \<Rightarrow> bool" where
  "reg_quiet y \<longleftrightarrow> (\<forall>t. snd y t = PIdle)"

text \<open>
  C13: Any number of threads inserting, destroying and retiring, started on a fresh registry. No two
  threads are ever between \<open>beginRetiring\<close> and \<open>endRetiring\<close> on the same node. Of the nodes with one base at
  most one is not dead, and their generations differ. The live count of a linked node is the number
  of objects it was inserted with less the number of destructions that got through, so it never
  wraps. A node reaches the quarantine at most once, and only when all of its objects have been
  destroyed. When all threads have left, no lock is held, no node is retiring, and the nodes handed
  to the quarantine are exactly those in the states \<open>Quarantine\<close> and \<open>Dead\<close>.
\<close>

theorem registry_interleavings_safe:
  assumes "reg_begin reg" and "reg_step_among\<^sup>*\<^sup>* (sys_start reg) y"
  shows "(inside y t i \<longrightarrow> inside y u i \<longrightarrow> t = u)
    \<and> (published (fst y) i \<longrightarrow> published (fst y) j \<longrightarrow> i \<noteq> j
        \<longrightarrow> n_BlockBase (nd (fst y) i) = n_BlockBase (nd (fst y) j)
        \<longrightarrow> (n_State (nd (fst y) i) = SDead \<or> n_State (nd (fst y) j) = SDead)
          \<and> n_Generation (nd (fst y) i) \<noteq> n_Generation (nd (fst y) j))
    \<and> (published (fst y) i \<longrightarrow>
        unat (n_LiveCount (nd (fst y) i)) + sh_destroyed (fst y) i = unat (sh_objects (fst y) i))
    \<and> distinct (sh_queued (fst y))
    \<and> (i \<in> set (sh_queued (fst y)) \<longrightarrow> sh_destroyed (fst y) i = unat (sh_objects (fst y) i)
        \<and> (n_State (nd (fst y) i) = SQuarantine \<or> n_State (nd (fst y) i) = SDead))
    \<and> (reg_quiet y \<longrightarrow> (\<forall>b. \<not> b_Lock (bk (fst y) b))
        \<and> (i < reg_used (sh_reg (fst y)) \<longrightarrow> published (fst y) i \<and> \<not> n_DtorLock (nd (fst y) i)
            \<and> n_State (nd (fst y) i) \<noteq> SRetiring
            \<and> (i \<in> set (sh_queued (fst y)) \<longleftrightarrow>
                n_State (nd (fst y) i) = SQuarantine \<or> n_State (nd (fst y) i) = SDead)))"
proof -
  obtain s pcs where y: "y = (s, pcs)" by (cases y)
  have inv: "reg_sys_inv (s, pcs)" using threads_run_inv [OF assms(2,1)] y by simp
  then have ok: "shared_ok s" and need: "needs s c \<longleftrightarrow> (\<exists>t. c \<in> claims (pcs t))"
    and own: "c \<in> claims (pcs t) \<Longrightarrow> c \<in> claims (pcs u) \<Longrightarrow> t = u" for c t u
    unfolding reg_sys_inv_def by simp_all
  have 1: "inside y t i \<longrightarrow> inside y u i \<longrightarrow> t = u" unfolding inside_def y using own by simp
  have 2: "published s i \<longrightarrow> published s j \<longrightarrow> i \<noteq> j \<longrightarrow> n_BlockBase (nd s i) = n_BlockBase (nd s j)
      \<longrightarrow> (n_State (nd s i) = SDead \<or> n_State (nd s j) = SDead) \<and> n_Generation (nd s i) \<noteq> n_Generation (nd s j)"
    using publishedE(1) [OF ok, of i] publishedE(1) [OF ok, of j] shared_okD(6) [OF ok, of i _ j]
    by (auto simp: apart_def)
  have 3: "published s i \<longrightarrow> unat (n_LiveCount (nd s i)) + sh_destroyed s i = unat (sh_objects s i)"
    using held_node(5) [OF ok] by blast
  have 4: "i \<in> set (sh_queued s) \<longrightarrow> sh_destroyed s i = unat (sh_objects s i)
        \<and> (n_State (nd s i) = SQuarantine \<or> n_State (nd s i) = SDead)"
    using shared_okD(10) [OF ok, of i] held_node(4,5) [OF ok, of i] by (auto simp: finished_def)
  have free: "\<not> needs s c" if "reg_quiet y" for c using that need [of c] by (simp add: reg_quiet_def y)
  have 5: "(\<forall>b. \<not> b_Lock (bk s b)) \<and> (i < used s \<longrightarrow> published s i \<and> \<not> n_DtorLock (nd s i)
      \<and> n_State (nd s i) \<noteq> SRetiring
      \<and> (i \<in> set (sh_queued s) \<longleftrightarrow> n_State (nd s i) = SQuarantine \<or> n_State (nd s i) = SDead))" if "reg_quiet y"
    using free [OF that, of "CBucket b" for b] free [OF that, of "CFresh i"] free [OF that, of "CDtor i"]
      free [OF that, of "CRet i"] free [OF that, of "CPend i"] 4 by (auto simp: finished_def)
  show ?thesis using 1 2 3 4 5 shared_okD(9) [OF ok] by (simp add: y used_def)
qed

text \<open>
  A run of two threads: thread 1 allocates a block of one object and begins to destroy it; thread 2, which
  has found the same node, is turned away by the lock; thread 1 hands the block to the quarantine.
\<close>

definition two :: "reg_pc \<Rightarrow> reg_pc \<Rightarrow> nat \<Rightarrow> reg_pc" where
  "two p q = (\<lambda>_. PIdle)(1 := p, 2 := q)"

lemma two_1: "reg_local s p s' p' \<Longrightarrow> reg_step_among (s, two p q) (s', two p' q)"
  using reg_step_among.step [of s "two p q" 1 s' p'] by (simp add: two_def fun_upd_twist)

lemma two_2: "reg_local s q s' q' \<Longrightarrow> reg_step_among (s, two p q) (s', two p q')"
  using reg_step_among.step [of s "two p q" 2 s' q'] by (simp add: two_def)

definition demo_args :: "u64 \<Rightarrow> ins_args" where
  "demo_args c = \<lparr>ia_BlockBase = 4096, ia_UserPtr = 4160, ia_BlockSize = 192, ia_UserSize = 64,
     ia_AllocatorID = 7, ia_ThreadID = 1, ia_Name = null, ia_ObjectCount = c\<rparr>"

definition demo_node :: "alloc_state \<Rightarrow> u64 \<Rightarrow> bool \<Rightarrow> node" where
  "demo_node st n l = \<lparr>n_BlockBase = 4096, n_UserPtr = 4160, n_BlockSize = 192, n_UserSize = 64,
     n_AllocatorID = 7, n_Name = null, n_ThreadID = 1, n_State = st, n_LiveCount = n,
     n_DtorLock = l, n_Next = None, n_Generation = 1\<rparr>"

definition demo_shared :: "node \<Rightarrow> nat option \<Rightarrow> bool \<Rightarrow> u64 \<Rightarrow> u64 \<Rightarrow> nat list \<Rightarrow> u64 \<Rightarrow> nat \<Rightarrow> nat list \<Rightarrow> reg_shared" where
  "demo_shared n h l cur cnt ch ob de qs =
     \<lparr>sh_reg = \<lparr>r_Buckets = (\<lambda>_. bucket_zero)(regIndex 4096 := \<lparr>b_Head = h, b_Lock = l\<rparr>), r_NodeCapacity = 2,
        r_NodeCursor = cur, r_Count = cnt, r_NodePool = 65536, r_nodes = [n, node_zero]\<rparr>,
      sh_chain = (\<lambda>_. [])(regIndex 4096 := ch), sh_objects = (\<lambda>_. 0)(0 := ob),
      sh_destroyed = (\<lambda>_. 0)(0 := de), sh_queued = qs\<rparr>"

lemmas demo_defs = demo_shared_def demo_node_def demo_args_def bk_def nd_def put_node_def put_bucket_def
  put_count_def set_node_def set_bucket_def node_zero_def filled_node_def allocateNode_def
  spin_tryLock_def spin_unlock_def

abbreviation demo_registry :: registry where
  "demo_registry \<equiv> sh_reg (demo_shared node_zero None False 0 0 [] 0 0 [])"

lemma demo_insert_run:
  assumes c: "c \<noteq> 0"
  shows "reg_step_among\<^sup>*\<^sup>* (demo_shared node_zero None False 0 0 [] 0 0 [], two PIdle PIdle)
     (demo_shared (demo_node SLive c False) (Some 0) False 1 1 [0] c 0 [], two PIdle PIdle)"
proof -
  let ?s0 = "demo_shared node_zero None False 0 0 [] 0 0 []" and ?s1 = "demo_shared node_zero None True 0 0 [] 0 0 []"
  let ?s2 = "demo_shared node_zero None True 1 0 [] 0 0 []"
  let ?n = "demo_node SLive c False"
  let ?s3 = "demo_shared ?n None True 1 0 [] c 0 []" and ?s4 = "demo_shared ?n (Some 0) True 1 0 [0] c 0 []"
  let ?s5 = "demo_shared ?n (Some 0) False 1 0 [0] c 0 []" and ?s6 = "demo_shared ?n (Some 0) False 1 1 [0] c 0 []"
  let ?a = "demo_args c"
  have 1: "reg_local ?s0 PIdle ?s1 (PHead ?a)"
    using reg_local.lock [of ?a "regIndex 4096" ?s0] c by (simp add: demo_defs)
  have 2: "reg_local ?s1 (PHead ?a) ?s1 (PScan ?a None 1)"
    using reg_local.head [of ?s1 ?a] by (simp add: demo_defs)
  have 3: "reg_local ?s1 (PScan ?a None 1) ?s2 (PFill ?a 1 0)"
    using reg_local.pool_node [of ?s1 "sh_reg ?s2" 0 ?a 1] by (simp add: demo_defs Let_def)
  have 4: "reg_local ?s2 (PFill ?a 1 0) ?s3 (PLink ?a 0)"
    using reg_local.fill [of ?s2 ?a 1 0] by (simp add: demo_defs)
  have 5: "reg_local ?s3 (PLink ?a 0) ?s3 (PCas ?a 0 None)"
    using reg_local.link [of None ?s3 ?a 0] by (simp add: demo_defs)
  have 6: "reg_local ?s3 (PCas ?a 0 None) ?s4 (PUnlockOk (regIndex 4096))"
    using reg_local.cas [of "regIndex 4096" ?a ?s3 None 0] by (simp add: demo_defs)
  have 7: "reg_local ?s4 (PUnlockOk (regIndex 4096)) ?s5 PCountUp"
    using reg_local.unlock_inserted [of ?s4 "regIndex 4096"] by (simp add: demo_defs)
  have 8: "reg_local ?s5 PCountUp ?s6 PIdle" using reg_local.count_up [of ?s5] by (simp add: demo_defs)
  note step = converse_rtranclp_into_rtranclp [where r = reg_step_among, OF two_1]
  show ?thesis
    by (rule step [OF 1], rule step [OF 2], rule step [OF 3], rule step [OF 4], rule step [OF 5],
        rule step [OF 6], rule step [OF 7], rule step [OF 8], rule rtranclp.rtrancl_refl)
qed

lemma demo_start:
  "sys_start demo_registry = (demo_shared node_zero None False 0 0 [] 0 0 [], two PIdle PIdle)"
  by (simp add: sys_start_def demo_shared_def two_def fun_eq_iff)

lemma demo_begin: "reg_begin demo_registry"
proof -
  have "replicate 2 node_zero = [node_zero, node_zero]" by (simp add: numeral_2_eq_2)
  then show ?thesis by (simp add: reg_begin_def demo_shared_def bucket_zero_def fun_eq_iff)
qed

lemma demo_destroy_run:
  "reg_step_among\<^sup>*\<^sup>* (demo_shared (demo_node SLive 1 False) (Some 0) False 1 1 [0] 1 0 [], two PIdle PIdle)
     (demo_shared (demo_node SQuarantine 0 False) (Some 0) False 1 0 [0] 1 1 [0], two PIdle PIdle)"
proof -
  let ?w = "\<lambda>st n l. demo_shared (demo_node st n l) (Some 0) False 1 1 [0] 1"
  let ?s0 = "?w SLive 1 False 0 []" and ?s1 = "?w SLive 1 True 0 []" and ?s2 = "?w SRetiring 1 True 0 []"
  let ?s3 = "?w SRetiring 0 True 1 []" and ?s4 = "?w SQuarantine 0 True 1 []" and ?s5 = "?w SQuarantine 0 False 1 []"
  let ?s6 = "demo_shared (demo_node SQuarantine 0 False) (Some 0) False 1 0 [0] 1 1 []"
  let ?s7 = "demo_shared (demo_node SQuarantine 0 False) (Some 0) False 1 0 [0] 1 1 [0]"
  let ?k = "ForDestroy 1 Flexible"
  have walk: "reg_local ?s0 PIdle ?s0 (PWalk ?k 4096 (Some 0))" "reg_local ?s0 (PWalk ?k 4096 (Some 0)) ?s0 (PFound ?k 4096 0)"
    using reg_local.destroy [of 4096 ?s0 1 Flexible] reg_local.walk_hit [of ?s0 0 4096 ?k] by (simp_all add: demo_defs)
  have lock: "reg_local ?s0 (PFound ?k 4096 0) ?s1 (PLocked 4096 0)"
    using reg_local.try_lock [of Flexible 1 ?s0 0 True 4096] by (simp add: demo_defs)
  have busy: "reg_local ?s1 (PFound ?k 4096 0) ?s1 PIdle"
    using reg_local.try_busy [of Flexible 1 ?s1 0 True 4096] by (simp add: demo_defs)
  have ret: "reg_local ?s1 (PLocked 4096 0) ?s2 (PRetiring 4096 0)"
    using reg_local.retiring [of ?s1 0 4096] by (simp add: demo_defs)
  have dec: "reg_local ?s2 (PRetiring 4096 0) ?s3 (PRun 4096 0)"
    using reg_local.decrement [of ?s2 4096 0] by (simp add: demo_defs)
  have find: "reg_local ?s3 (PRun 4096 0) ?s3 (PWalk (ForEnd 0) 4096 (Some 0))"
    "reg_local ?s3 (PWalk (ForEnd 0) 4096 (Some 0)) ?s3 (PFound (ForEnd 0) 4096 0)"
    "reg_local ?s3 (PFound (ForEnd 0) 4096 0) ?s3 (PLoaded 0 False)"
    using reg_local.end_find [of ?s3 4096 0] reg_local.walk_hit [of ?s3 0 4096 "ForEnd 0"]
      reg_local.end_load [of ?s3 0 4096 0] by (simp_all add: demo_defs)
  have fin: "reg_local ?s3 (PLoaded 0 False) ?s4 (PUnlockQ 0)" "reg_local ?s4 (PUnlockQ 0) ?s5 (PCountDown 0)"
    "reg_local ?s5 (PCountDown 0) ?s6 (PEnqueue 0)" "reg_local ?s6 (PEnqueue 0) ?s7 PIdle"
    using reg_local.end_final [of ?s3 0] reg_local.end_unlock [of ?s4 0] reg_local.count_down [of ?s5 0]
      reg_local.enqueue [of ?s6 0] by (simp_all add: demo_defs)
  note one = converse_rtranclp_into_rtranclp [where r = reg_step_among, OF two_1]
    and other = converse_rtranclp_into_rtranclp [where r = reg_step_among, OF two_2]
  show ?thesis
    by (rule one [OF walk(1)], rule other [OF walk(1)], rule one [OF walk(2)], rule other [OF walk(2)],
        rule one [OF lock], rule other [OF busy], rule one [OF ret], rule one [OF dec], rule one [OF find(1)],
        rule one [OF find(2)], rule one [OF find(3)], rule one [OF fin(1)], rule one [OF fin(2)],
        rule one [OF fin(3)], rule one [OF fin(4)], rule rtranclp.rtrancl_refl)
qed

theorem registry_interleavings_safe_witness:
  "\<exists>y. reg_step_among\<^sup>*\<^sup>* (sys_start demo_registry) y \<and> reg_quiet y \<and> sh_queued (fst y) = [0]
     \<and> sh_destroyed (fst y) 0 = unat (sh_objects (fst y) 0) \<and> n_State (nd (fst y) 0) \<noteq> SRetiring"
proof -
  let ?y = "(demo_shared (demo_node SQuarantine 0 False) (Some 0) False 1 0 [0] 1 1 [0], two PIdle PIdle)"
  have idle: "two PIdle PIdle = (\<lambda>_. PIdle)" by (simp add: two_def fun_eq_iff)
  have run: "reg_step_among\<^sup>*\<^sup>* (sys_start demo_registry) ?y"
    using rtranclp_trans [OF demo_insert_run [of 1] demo_destroy_run] by (simp add: demo_start)
  moreover have "reg_quiet ?y" by (simp add: reg_quiet_def idle)
  moreover have "sh_queued (fst ?y) = [0]" "reg_used (sh_reg (fst ?y)) = 1"
    by (simp_all add: demo_shared_def reg_used_def)
  ultimately show ?thesis
    using registry_interleavings_safe [OF demo_begin run, of t 0 u j for t u j] by (intro exI [of _ ?y]) simp
qed

lemma locked_node_refuses:
  assumes lock: "n_DtorLock (nd s i)" and pol: "pol = Strict \<longrightarrow> tid = n_ThreadID (nd s i)"
    and i: "i < length (r_nodes (sh_reg s))" and run: "reg_local s (PFound (ForDestroy tid pol) p i) s' q"
  shows "s' = s \<and> q = PIdle"
  using run
proof cases
  case (try_busy f)
  then have "f = n_DtorLock (nd s i)" using lock by (simp add: spin_tryLock_def)
  then have "(nd s i)\<lparr>n_DtorLock := f\<rparr> = nd s i" by simp
  then have "s' = put_node s i (nd s i)" using try_busy by simp
  then show ?thesis using try_busy i by (simp add: put_node_def set_node_def nd_def)
next
  case (try_lock f)
  then show ?thesis using lock by (simp add: spin_tryLock_def)
qed (use pol in simp_all)

text \<open>
  C33: \<open>endRetiring\<close> on a block with objects left makes the node live again before it releases the lock. In
  every reachable state in which a thread has come to that store, and another thread has found the same
  node to destroy a second object of the block and owns it as far as the policy asks: the store makes
  the node live, with objects left, and until the lock is released the other thread can do nothing but turn
  back with the shared state unchanged. \<open>Region::destroy\<close>, which then finds a live node, calls that a
  \<open>DoubleFree\<close>, although the object has not been destroyed.
\<close>

theorem destroy_refused_while_live:
  assumes "reg_begin reg" and "reg_step_among\<^sup>*\<^sup>* (sys_start reg) y"
    and t: "snd y t = PLoaded i True" and u: "snd y u = PFound (ForDestroy tid pol) p i"
    and pol: "pol = Strict \<longrightarrow> tid = n_ThreadID (nd (fst y) i)"
  shows "(\<exists>s. reg_local (fst y) (snd y t) s (PUnlockD i))
    \<and> (\<forall>s q. reg_local (fst y) (snd y t) s q \<longrightarrow> q = PUnlockD i
        \<and> n_State (nd s i) = SLive \<and> n_LiveCount (nd s i) \<noteq> 0
        \<and> (\<exists>s'. reg_local s (snd y u) s' PIdle) \<and> (\<forall>s' q'. reg_local s (snd y u) s' q' \<longrightarrow> s' = s \<and> q' = PIdle)
        \<and> destroy_kind pol tid (nd s i) = DoubleFree)"
proof -
  obtain s0 pcs where y: "y = (s0, pcs)" by (cases y)
  have inv: "reg_sys_inv (s0, pcs)" using threads_run_inv [OF assms(2,1)] y by simp
  then have ok: "shared_ok s0" and pc: "pc_ok s0 (pcs t)" and need: "\<And>c. needs s0 c \<longleftrightarrow> (\<exists>t. c \<in> claims (pcs t))"
    unfolding reg_sys_inv_def by simp_all
  have pt: "pcs t = PLoaded i True" and pu: "pcs u = PFound (ForDestroy tid pol) p i" using t u by (simp_all add: y)
  have cl: "CDtor i \<in> claims (pcs t)" "CRet i \<in> claims (pcs t)" by (simp_all add: pt)
  then have "needs s0 (CDtor i)" "needs s0 (CRet i)" using need by blast+
  then have st: "i < used s0" "n_DtorLock (nd s0 i)" "n_State (nd s0 i) = SRetiring" by simp_all
  have il: "i < length (r_nodes (sh_reg s0))" using st(1) used_le [OF ok] by simp
  have live: "n_LiveCount (nd s0 i) \<noteq> 0" using pc by (simp add: pt)
  let ?n = "(nd s0 i)\<lparr>n_State := SLive\<rparr>"
  let ?s = "put_node s0 i ?n"
  have nd: "nd ?s i = ?n" and il': "i < length (r_nodes (sh_reg ?s))"
    using il by (simp_all add: put_node_def set_node_def nd_def)
  have pol': "pol = Strict \<longrightarrow> tid = n_ThreadID (nd ?s i)" using pol by (simp add: nd y)
  have lock: "n_DtorLock (nd ?s i)" using st(2) by (simp add: nd)
  have turned: "s' = ?s \<and> q' = PIdle" if "reg_local ?s (pcs u) s' q'" for s' q'
    using locked_node_refuses [OF lock pol' il', of p s' q'] that by (simp only: pu)
  have "\<exists>s'. reg_local ?s (pcs u) s' PIdle"
    using reg_local.try_busy [of pol tid ?s i True p] pol' lock by (auto simp: pu spin_tryLock_def)
  moreover have "reg_local s0 (pcs t) s q \<longleftrightarrow> s = ?s \<and> q = PUnlockD i" for s q
    by (auto simp: pt st(3) elim: reg_local.cases intro: reg_local.intros)
  moreover have "destroy_kind pol tid (nd ?s i) = DoubleFree"
    using pol' by (auto simp: destroy_kind_def nd Let_def)
  ultimately show ?thesis using turned live by (simp add: y nd)
qed

text \<open>Thread 1 destroys one of the two objects of a block; thread 2 has found the node to destroy the other.\<close>

theorem destroy_refused_while_live_witness:
  "\<exists>y s. reg_step_among\<^sup>*\<^sup>* (sys_start demo_registry) y
     \<and> snd y 1 = PLoaded 0 True \<and> snd y 2 = PFound (ForDestroy 1 Flexible) 4096 0
     \<and> reg_local (fst y) (snd y 1) s (PUnlockD 0) \<and> n_State (nd s 0) = SLive
     \<and> (\<forall>s' q. reg_local s (snd y 2) s' q \<longrightarrow> s' = s \<and> q = PIdle)
     \<and> destroy_kind Flexible 1 (nd s 0) = DoubleFree"
proof -
  let ?w = "\<lambda>st n l de. demo_shared (demo_node st n l) (Some 0) False 1 1 [0] 2 de []"
  let ?s0 = "?w SLive 2 False 0" and ?s1 = "?w SLive 2 True 0" and ?s2 = "?w SRetiring 2 True 0"
  let ?s3 = "?w SRetiring 1 True 1"
  let ?k = "ForDestroy 1 Flexible"
  have walk: "reg_local ?s0 PIdle ?s0 (PWalk ?k 4096 (Some 0))" "reg_local ?s0 (PWalk ?k 4096 (Some 0)) ?s0 (PFound ?k 4096 0)"
    using reg_local.destroy [of 4096 ?s0 1 Flexible] reg_local.walk_hit [of ?s0 0 4096 ?k] by (simp_all add: demo_defs)
  have mid: "reg_local ?s0 (PFound ?k 4096 0) ?s1 (PLocked 4096 0)" "reg_local ?s1 (PLocked 4096 0) ?s2 (PRetiring 4096 0)"
    "reg_local ?s2 (PRetiring 4096 0) ?s3 (PRun 4096 0)" "reg_local ?s3 (PRun 4096 0) ?s3 (PWalk (ForEnd 0) 4096 (Some 0))"
    "reg_local ?s3 (PWalk (ForEnd 0) 4096 (Some 0)) ?s3 (PFound (ForEnd 0) 4096 0)"
    "reg_local ?s3 (PFound (ForEnd 0) 4096 0) ?s3 (PLoaded 0 True)"
    using reg_local.try_lock [of Flexible 1 ?s0 0 True 4096] reg_local.retiring [of ?s1 0 4096]
      reg_local.decrement [of ?s2 4096 0] reg_local.end_find [of ?s3 4096 0] reg_local.walk_hit [of ?s3 0 4096 "ForEnd 0"]
      reg_local.end_load [of ?s3 0 4096 0] by (simp_all add: demo_defs)
  note one = converse_rtranclp_into_rtranclp [where r = reg_step_among, OF two_1]
    and other = converse_rtranclp_into_rtranclp [where r = reg_step_among, OF two_2]
  let ?y = "(?s3, two (PLoaded 0 True) (PFound ?k 4096 0))"
  have "reg_step_among\<^sup>*\<^sup>* (?s0, two PIdle PIdle) ?y"
    by (rule other [OF walk(1)], rule other [OF walk(2)], rule one [OF walk(1)], rule one [OF walk(2)],
        rule one [OF mid(1)], rule one [OF mid(2)], rule one [OF mid(3)], rule one [OF mid(4)],
        rule one [OF mid(5)], rule one [OF mid(6)], rule rtranclp.rtrancl_refl)
  then have run: "reg_step_among\<^sup>*\<^sup>* (sys_start demo_registry) ?y"
    unfolding demo_start by (rule rtranclp_trans [OF demo_insert_run [of 2], rotated]) simp
  have at: "snd ?y 1 = PLoaded 0 True" "snd ?y 2 = PFound ?k 4096 0" by (simp_all add: two_def)
  from destroy_refused_while_live [OF demo_begin run at] run at show ?thesis by blast
qed

end
