(* ===== verification/Kerbecs_Ledger.thy ===== *)
theory Kerbecs_Ledger
  imports Kerbecs_Runtime
begin

text \<open>
  The accounts of the core: the records of all registries, seen as one map \<open>k_node\<close> from a registry and an
  index to a record, against the counters of \<open>KerbecsStats.h\<close> and the list of blocks that wait in the
  quarantine. \<open>ledger\<close> says that they agree: the waiting entries are exactly the quarantined records,
  each once and with its size, and the counters hold the number and the bytes of the records that are
  not dead and the length of the list. The lemmas follow the ledger through the ways in which a record
  can change; \<open>core_inv\<close> is the invariant of the core between two operations.
\<close>

type_synonym node_map = "addr \<Rightarrow> nat \<Rightarrow> node option"

definition k_node :: "'e kcore \<Rightarrow> node_map" where
  "k_node k a i = (case k_regs k a of
     None \<Rightarrow> None
   | Some reg \<Rightarrow> if i < reg_used reg then Some (r_nodes reg ! i) else None)"

definition node_put :: "node_map \<Rightarrow> addr \<Rightarrow> nat \<Rightarrow> node \<Rightarrow> node_map" where
  "node_put f a i n = f(a := (f a)(i := Some n))"

definition quarantined :: "node_map \<Rightarrow> (addr \<times> addr \<times> u64) set" where
  "quarantined f = {(a, n_BlockBase n, n_BlockSize n) | a i n. f a i = Some n \<and> n_State n = SQuarantine}"

definition undead :: "node_map \<Rightarrow> (addr \<times> nat) set" where
  "undead f = {(a, i). \<exists>n. f a i = Some n \<and> n_State n \<noteq> SDead}"

definition bytes_at :: "node_map \<Rightarrow> addr \<times> nat \<Rightarrow> u64" where
  "bytes_at f x = n_BlockSize (the (f (fst x) (snd x)))"

definition entry_key :: "'e qentry \<Rightarrow> addr \<times> addr" where
  "entry_key e = (e_OwningRegistry e, e_BlockBase e)"

definition entry_record :: "'e qentry \<Rightarrow> addr \<times> addr \<times> u64" where
  "entry_record e = (e_OwningRegistry e, e_BlockBase e, e_BlockSize e)"

text \<open>Between two operations no record is being destroyed, and a live one has objects.\<close>

definition settled :: "node_map \<Rightarrow> bool" where
  "settled f \<longleftrightarrow> (\<forall>a i n. f a i = Some n \<longrightarrow>
     n_State n \<noteq> SRetiring \<and> (n_State n = SLive \<longrightarrow> n_LiveCount n \<noteq> 0))"

definition ledger :: "node_map \<Rightarrow> kstats \<Rightarrow> 'e qentry list \<Rightarrow> bool" where
  "ledger f st l \<longleftrightarrow> finite (undead f) \<and> settled f
     \<and> distinct (map entry_key l) \<and> entry_record ` set l = quarantined f
     \<and> st_ActiveAllocations st = of_nat (card (undead f))
     \<and> st_ActiveBytes st = sum (bytes_at f) (undead f)
     \<and> st_QuarantinedBlocks st = of_nat (length l)"

text \<open>One record that is not dead for an address, in each registry.\<close>

definition node_unique :: "node_map \<Rightarrow> bool" where
  "node_unique f \<longleftrightarrow> (\<forall>a i j m n. f a i = Some m \<longrightarrow> f a j = Some n \<longrightarrow> n_State m \<noteq> SDead
     \<longrightarrow> n_State n \<noteq> SDead \<longrightarrow> n_BlockBase m = n_BlockBase n \<longrightarrow> i = j)"

section \<open>Changing one record\<close>

lemma node_put_same [simp]: "node_put f a i n a i = Some n"
  by (simp add: node_put_def)

lemma node_put_Some:
  "node_put f a i n b j = Some m \<longleftrightarrow> (if b = a \<and> j = i then m = n else f b j = Some m)"
  by (auto simp: node_put_def)

lemma undead_put:
  "undead (node_put f a i n) = (if n_State n = SDead then undead f - {(a, i)} else insert (a, i) (undead f))"
  by (auto simp: undead_def node_put_Some split: if_splits)

lemma settled_put:
  "settled f \<Longrightarrow> n_State n \<noteq> SRetiring \<Longrightarrow> (n_State n = SLive \<Longrightarrow> n_LiveCount n \<noteq> 0) \<Longrightarrow> settled (node_put f a i n)"
  by (auto simp: settled_def node_put_Some)

lemma bytes_put_other: "sum (bytes_at (node_put f a i n)) (A - {(a, i)}) = sum (bytes_at f) (A - {(a, i)})"
  by (intro sum.cong) (auto simp: bytes_at_def node_put_def)

lemma bytes_put_insert:
  assumes "finite A"
  shows "sum (bytes_at (node_put f a i n)) (insert (a, i) A) = n_BlockSize n + sum (bytes_at f) (A - {(a, i)})"
  using assms by (simp add: sum.insert_remove bytes_put_other) (simp add: bytes_at_def)

text \<open>The same block in another state leaves the bytes as they are.\<close>

lemma undead_put_same:
  assumes "finite (undead f)" and "f a i = Some m" and "n_State m \<noteq> SDead" and "n_State n \<noteq> SDead"
    and "n_BlockSize n = n_BlockSize m"
  shows "undead (node_put f a i n) = undead f"
    and "sum (bytes_at (node_put f a i n)) (undead f) = sum (bytes_at f) (undead f)"
proof -
  have i: "(a, i) \<in> undead f" using assms by (auto simp: undead_def)
  then show "undead (node_put f a i n) = undead f" using assms(4) by (auto simp: undead_put)
  have "bytes_at (node_put f a i n) x = bytes_at f x" for x
    using assms(2,5) by (cases x) (auto simp: bytes_at_def node_put_def)
  then show "sum (bytes_at (node_put f a i n)) (undead f) = sum (bytes_at f) (undead f)" by simp
qed

lemma quarantinedI:
  "f a i = Some n \<Longrightarrow> n_State n = SQuarantine \<Longrightarrow> n_BlockBase n = p \<Longrightarrow> n_BlockSize n = k \<Longrightarrow> (a, p, k) \<in> quarantined f"
  by (auto simp: quarantined_def)

lemma quarantined_put_out:
  assumes "n_State n \<noteq> SQuarantine" and "\<And>m. f a i = Some m \<Longrightarrow> n_State m \<noteq> SQuarantine"
  shows "quarantined (node_put f a i n) = quarantined f"
proof -
  have "node_put f a i n b j = Some m \<and> n_State m = SQuarantine \<longleftrightarrow> f b j = Some m \<and> n_State m = SQuarantine" for b j m
    using assms by (auto simp: node_put_Some)
  then show ?thesis by (simp add: quarantined_def)
qed

lemma quarantined_put_in:
  assumes "n_State n = SQuarantine" and "\<And>m. f a i = Some m \<Longrightarrow> n_State m \<noteq> SQuarantine"
    and "n_BlockBase n = p" and "n_BlockSize n = k"
  shows "quarantined (node_put f a i n) = insert (a, p, k) (quarantined f)"
proof -
  have "node_put f a i n b j = Some m \<and> n_State m = SQuarantine
      \<longleftrightarrow> b = a \<and> j = i \<and> m = n \<or> f b j = Some m \<and> n_State m = SQuarantine" for b j m
    using assms by (auto simp: node_put_Some)
  then have "quarantined (node_put f a i n) = {(b, n_BlockBase m, n_BlockSize m) | b j m.
      b = a \<and> j = i \<and> m = n \<or> f b j = Some m \<and> n_State m = SQuarantine}"
    by (simp add: quarantined_def)
  also have "\<dots> = insert (a, p, k) (quarantined f)" using assms(3,4) by (auto simp: quarantined_def)
  finally show ?thesis .
qed

lemma node_uniqueD:
  assumes "node_unique f" and "f a i = Some m" and "f a j = Some n" and "n_State m \<noteq> SDead" and "n_State n \<noteq> SDead"
    and "n_BlockBase m = n_BlockBase n"
  shows "i = j"
  using assms unfolding node_unique_def by blast

lemma ledgerD:
  assumes "ledger f st l"
  shows "finite (undead f)" and "settled f" and "distinct (map entry_key l)"
    and "entry_record ` set l = quarantined f"
  using assms by (simp_all add: ledger_def)

section \<open>The four movements\<close>

text \<open>A new block.\<close>

lemma ledger_insert:
  assumes led: "ledger f st l" and new: "f a i = None" and n: "n_State n = SLive" "n_LiveCount n \<noteq> 0"
  shows "ledger (node_put f a i n) (statsOnInit (n_BlockSize n) st) l"
proof -
  note fin = ledgerD(1) [OF led]
  have out: "(a, i) \<notin> undead f" using new by (simp add: undead_def)
  have u: "undead (node_put f a i n) = insert (a, i) (undead f)" using n(1) by (simp add: undead_put)
  have "sum (bytes_at (node_put f a i n)) (insert (a, i) (undead f)) = n_BlockSize n + sum (bytes_at f) (undead f)"
    using bytes_put_insert [OF fin, of f a i n] out by simp
  moreover have "quarantined (node_put f a i n) = quarantined f"
    by (rule quarantined_put_out) (use n(1) new in auto)
  ultimately show ?thesis
    using led out fin settled_put [OF ledgerD(2) [OF led], of n a i] n
    by (simp add: ledger_def u statsOnInit_def Let_def)
qed

text \<open>One object of a block less, with objects left.\<close>

lemma ledger_object:
  assumes led: "ledger f st l" and m: "f a i = Some m" "n_State m = SLive"
    and n: "n_State n = SLive" "n_LiveCount n \<noteq> 0" "n_BlockSize n = n_BlockSize m"
  shows "ledger (node_put f a i n) st l"
proof -
  note fin = ledgerD(1) [OF led]
  have "quarantined (node_put f a i n) = quarantined f"
    by (rule quarantined_put_out) (use n(1) m in auto)
  then show ?thesis
    using led undead_put_same [OF fin m(1), of n] m n settled_put [OF ledgerD(2) [OF led], of n a i]
    by (simp add: ledger_def)
qed

text \<open>The last object of a block: the block goes to the end of the waiting list.\<close>

lemma ledger_finish:
  assumes led: "ledger f st l" and uniq: "node_unique f" and m: "f a i = Some m" "n_State m = SLive"
    and n: "n_State n = SQuarantine" "n_BlockBase n = n_BlockBase m" "n_BlockSize n = n_BlockSize m"
    and e: "entry_record e = (a, n_BlockBase m, n_BlockSize m)"
  shows "ledger (node_put f a i n) (statsOnQuarantineEnqueue st) (l @ [e])"
proof -
  note fin = ledgerD(1) [OF led]
  have key: "entry_key e = (a, n_BlockBase m)" using e by (simp add: entry_key_def entry_record_def)
  have fresh: "(a, n_BlockBase m, z) \<notin> quarantined f" for z
  proof
    assume "(a, n_BlockBase m, z) \<in> quarantined f"
    then obtain j m' where "f a j = Some m'" "n_State m' = SQuarantine" "n_BlockBase m' = n_BlockBase m"
      by (auto simp: quarantined_def)
    then have "j = i" using m node_uniqueD [OF uniq, of a j m' i m] by simp
    with \<open>f a j = Some m'\<close> \<open>n_State m' = SQuarantine\<close> m show False by simp
  qed
  have "entry_key e \<notin> entry_key ` set l"
  proof
    assume "entry_key e \<in> entry_key ` set l"
    then obtain e' where "e' \<in> set l" "entry_key e' = (a, n_BlockBase m)" using key by auto
    moreover from this have "entry_record e' \<in> quarantined f" using ledgerD(4) [OF led] by blast
    ultimately have "(a, n_BlockBase m, e_BlockSize e') \<in> quarantined f"
      by (simp add: entry_key_def entry_record_def)
    with fresh show False by blast
  qed
  then have d: "distinct (map entry_key (l @ [e]))" using ledgerD(3) [OF led] by simp
  have "quarantined (node_put f a i n) = insert (a, n_BlockBase m, n_BlockSize m) (quarantined f)"
    by (rule quarantined_put_in) (use m n in auto)
  then have q: "entry_record ` set (l @ [e]) = quarantined (node_put f a i n)"
    using e ledgerD(4) [OF led] by simp
  show ?thesis
    using led d q undead_put_same [OF fin m(1), of n] m n settled_put [OF ledgerD(2) [OF led], of n a i]
    by (simp add: ledger_def statsOnQuarantineEnqueue_def)
qed

text \<open>The first waiting block is given back, and its record dies.\<close>

lemma ledger_retire:
  assumes led: "ledger f st (e # l)" and uniq: "node_unique f"
    and m: "f (e_OwningRegistry e) i = Some m" "n_State m = SQuarantine" "n_BlockBase m = e_BlockBase e"
    and n: "n_State n = SDead"
  shows "ledger (node_put f (e_OwningRegistry e) i n)
      (statsOnQuarantineDequeue (statsOnDestroy (e_BlockSize e) st)) l"
proof -
  let ?a = "e_OwningRegistry e"
  note fin = ledgerD(1) [OF led]
  have "entry_record e \<in> quarantined f" using ledgerD(4) [OF led] by auto
  then obtain j m' where j: "f ?a j = Some m'" "n_State m' = SQuarantine" "n_BlockBase m' = e_BlockBase e"
    "n_BlockSize m' = e_BlockSize e" by (auto simp: quarantined_def entry_record_def)
  have same: "j = i'" if "f ?a i' = Some m''" "n_State m'' \<noteq> SDead" "n_BlockBase m'' = e_BlockBase e" for i' m''
    using j(1-3) that node_uniqueD [OF uniq, of ?a j m' i' m''] by simp
  have "j = i" using same [OF m(1)] m by simp
  then have size: "n_BlockSize m = e_BlockSize e" using j m(1) by simp
  have inn: "(?a, i) \<in> undead f" using m by (auto simp: undead_def)
  have u: "undead (node_put f ?a i n) = undead f - {(?a, i)}" using n by (simp add: undead_put)
  have pos: "card (undead f) = Suc (card (undead f - {(?a, i)}))" using fin inn by (rule card.remove)
  have bytes: "sum (bytes_at (node_put f ?a i n)) (undead f - {(?a, i)}) = sum (bytes_at f) (undead f) - e_BlockSize e"
    using fin inn size m(1) by (simp add: bytes_put_other sum_diff1) (simp add: bytes_at_def)
  have keep: "entry_record ` set l = quarantined (node_put f ?a i n)"
  proof
    show "entry_record ` set l \<subseteq> quarantined (node_put f ?a i n)"
    proof (rule image_subsetI)
      fix e' assume e': "e' \<in> set l"
      then have "entry_record e' \<in> quarantined f" using ledgerD(4) [OF led] by auto
      then obtain i' m' where x: "f (e_OwningRegistry e') i' = Some m'" "n_State m' = SQuarantine"
        "n_BlockBase m' = e_BlockBase e'" "n_BlockSize m' = e_BlockSize e'"
        by (auto simp: quarantined_def entry_record_def)
      have "entry_key e' \<in> entry_key ` set l" using e' by (rule imageI)
      then have "entry_key e' \<noteq> entry_key e" using ledgerD(3) [OF led] by auto
      then have "\<not> (e_OwningRegistry e' = ?a \<and> i' = i)" using x m by (auto simp: entry_key_def)
      with x(1) have "node_put f ?a i n (e_OwningRegistry e') i' = Some m'" by (auto simp: node_put_Some)
      then show "entry_record e' \<in> quarantined (node_put f ?a i n)"
        unfolding entry_record_def using x(2-4) by (rule quarantinedI)
    qed
    show "quarantined (node_put f ?a i n) \<subseteq> entry_record ` set l"
    proof
      fix x assume "x \<in> quarantined (node_put f ?a i n)"
      then obtain b i' m' where x: "x = (b, n_BlockBase m', n_BlockSize m')" "f b i' = Some m'"
        "n_State m' = SQuarantine" "b = ?a \<longrightarrow> i' \<noteq> i"
        using n by (auto simp: quarantined_def node_put_Some split: if_splits)
      then have "x \<in> entry_record ` set (e # l)" using ledgerD(4) [OF led] by (auto simp: quarantined_def)
      moreover have "x \<noteq> entry_record e"
        using x same [of i' m'] \<open>j = i\<close> by (auto simp: entry_record_def)
      ultimately show "x \<in> entry_record ` set l" by auto
    qed
  qed
  show ?thesis
    using led keep bytes pos settled_put [OF ledgerD(2) [OF led], of n ?a i] n
    by (simp add: ledger_def u statsOnDestroy_def statsOnQuarantineDequeue_def)
qed

section \<open>The core\<close>

text \<open>The records of the core, when one registry changes.\<close>

lemma k_node_unique: "regs_ok k \<Longrightarrow> node_unique (k_node k)"
  unfolding node_unique_def regs_ok_def k_node_def
  by (auto split: option.splits if_splits) (metis reg_holds_def reg_holds_unique)

lemma k_node_cong: "k_regs k' = k_regs k \<Longrightarrow> k_node k' = k_node k"
  by (simp add: k_node_def fun_eq_iff)

lemma k_node_set:
  assumes "k_regs k a = Some reg" and "reg_inv reg" and "i < reg_used reg"
    and "r_nodes reg' = (r_nodes reg)[i := n]" and "reg_used reg' = reg_used reg"
    and "k_regs k' = (k_regs k)(a := Some reg')"
  shows "k_node k' = node_put (k_node k) a i n"
proof -
  have "i < length (r_nodes reg)" using assms(2,3) reg_used_le [of reg] by simp
  then have "k_node k' b j = node_put (k_node k) a i n b j" for b j
    using assms by (simp add: k_node_def node_put_def nth_list_update)
  then show ?thesis by (simp add: fun_eq_iff)
qed

lemma k_node_add:
  assumes "k_regs k a = Some reg" and "reg_inv reg" and "r_NodeCursor reg < r_NodeCapacity reg"
    and "k_regs k' = (k_regs k)(a := Some (with_node reg n))"
  shows "k_node k' = node_put (k_node k) a (reg_used reg) n" and "k_node k a (reg_used reg) = None"
proof -
  have "k_node k' b j = node_put (k_node k) a (reg_used reg) n b j" for b j
    using assms with_node_used(2) [OF assms(3)] with_node_nth [OF assms(2,3)]
    by (auto simp: k_node_def node_put_def less_Suc_eq)
  then show "k_node k' = node_put (k_node k) a (reg_used reg) n" by (simp add: fun_eq_iff)
  show "k_node k a (reg_used reg) = None" using assms(1) by (simp add: k_node_def)
qed

lemma k_node_idle:
  assumes "k_regs k a = Some reg" and "r_nodes reg' = r_nodes reg" and "reg_used reg' = reg_used reg"
    and "k_regs k' = (k_regs k)(a := Some reg')"
  shows "k_node k' = k_node k"
  using assms by (auto simp: k_node_def fun_eq_iff)

lemma regs_ok_put: "regs_ok k \<Longrightarrow> reg_inv reg \<Longrightarrow> k_regs k' = (k_regs k)(a := Some reg) \<Longrightarrow> regs_ok k'"
  by (auto simp: regs_ok_def)

text \<open>No registry is at the null address, and each has its node pool.\<close>

definition placed :: "'e kcore \<Rightarrow> bool" where
  "placed k \<longleftrightarrow> k_regs k null = None \<and> (\<forall>a reg. k_regs k a = Some reg \<longrightarrow> r_NodePool reg \<noteq> null)"

lemma placed_put:
  "placed k \<Longrightarrow> k_regs k a = Some reg \<Longrightarrow> r_NodePool reg' = r_NodePool reg \<Longrightarrow>
    k_regs k' = (k_regs k)(a := Some reg') \<Longrightarrow> placed k'"
  by (auto simp: placed_def)

lemma placed_address: "placed k \<Longrightarrow> k_regs k a = Some reg \<Longrightarrow> a \<noteq> null"
  by (auto simp: placed_def)

lemma set_node_pool [simp]: "r_NodePool (set_node reg i n) = r_NodePool reg"
  by (simp add: set_node_def)

definition core_led :: "'e kcore \<Rightarrow> 'e qentry list \<Rightarrow> bool" where
  "core_led k l \<longleftrightarrow> q_Stats (k_queue k) \<and> regs_ok k \<and> placed k \<and> ledger (k_node k) (k_stats k) l"

lemma core_ledD:
  assumes "core_led k l"
  shows "q_Stats (k_queue k)" and "regs_ok k" and "placed k" and "ledger (k_node k) (k_stats k) l"
  using assms by (auto simp: core_led_def)

lemma retire_entry_led:
  assumes led: "core_led k (e # l)"
  obtains k' where "retire_entry k e = Some k'" and "core_led k' l"
proof -
  let ?a = "e_OwningRegistry e"
  note d = core_ledD [OF led]
  have "entry_record e \<in> quarantined (k_node k)" using ledgerD(4) [OF d(4)] by auto
  then obtain i m where m: "k_node k ?a i = Some m" "n_State m = SQuarantine" "n_BlockBase m = e_BlockBase e"
    by (auto simp: quarantined_def entry_record_def)
  then obtain reg where reg: "k_regs k ?a = Some reg" and i: "i < reg_used reg" "r_nodes reg ! i = m"
    by (auto simp: k_node_def split: option.splits if_splits)
  have inv: "reg_inv reg" using d(2) reg by (simp add: regs_ok_def)
  have own: "?a \<noteq> null" by (rule placed_address [OF d(3) reg])
  have h: "reg_holds reg (e_BlockBase e) i" using m i by (simp add: reg_holds_def)
  let ?reg = "set_node reg i (m\<lparr>n_State := SDead\<rparr>)"
  obtain res where res: "registry_retire reg (e_BlockBase e) = res" by blast
  have "res = Some (?reg, True)"
    by (rule registry_retire_cases [OF inv res]) (use h m i reg_holds_unique [OF inv h] in auto)
  then have r: "registry_retire reg (e_BlockBase e) = Some (?reg, True)" using res by simp
  obtain k' where k': "retire_entry k e = Some k'" "k_regs k' = (k_regs k)(?a := Some ?reg)"
    "k_queue k' = k_queue k"
    "k_stats k' = statsOnQuarantineDequeue (statsOnDestroy (e_BlockSize e) (k_stats k))"
  proof (cases "retire_entry k e")
    case None
    then show ?thesis using reg r own by (auto simp: retire_entry_def Let_def)
  next
    case (Some k')
    then have "k_regs k' = (k_regs k)(?a := Some ?reg)"
      using reg r own by (auto simp: retire_entry_def Let_def split: option.splits)
    then show ?thesis using that Some retire_entry_frame(1) [OF Some] retire_entry_stats [OF Some] d(1) by simp
  qed
  have node: "k_node k' = node_put (k_node k) ?a i (m\<lparr>n_State := SDead\<rparr>)"
    by (rule k_node_set [OF reg inv i(1) _ _ k'(2)]) (simp_all add: set_node_def reg_used_def)
  have led': "ledger (k_node k') (k_stats k') l"
    unfolding node k'(4) by (rule ledger_retire [OF d(4) k_node_unique [OF d(2)] m]) simp
  have "regs_ok k'" by (rule regs_ok_put [OF d(2) registry_retire_inv [OF inv r] k'(2)])
  moreover have "placed k'" by (rule placed_put [OF d(3) reg _ k'(2)]) simp
  ultimately have "core_led k' l" using led' d(1) k'(3) by (simp add: core_led_def)
  with k'(1) show thesis by (rule that)
qed

lemma retire_all_led:
  "core_led k (es @ l) \<Longrightarrow> \<exists>k'. retire_all k es = Some k' \<and> core_led k' l"
proof (induction es arbitrary: k)
  case (Cons e es)
  then obtain k1 where "retire_entry k e = Some k1" "core_led k1 (es @ l)"
    using retire_entry_led [of k e "es @ l"] by auto
  then show ?case using Cons.IH [of k1] by simp
qed simp

text \<open>The invariant of the core between two operations.\<close>

definition core_inv :: "'e kcore \<Rightarrow> bool" where
  "core_inv k \<longleftrightarrow> q_inv (k_queue k) \<and> \<not> q_FlushLock (k_queue k) \<and> core_led k (q_list (k_queue k))
     \<and> (\<forall>e \<in> set (q_list (k_queue k)). e_Epoch e \<le> k_epoch k)"

lemma core_invD:
  assumes "core_inv k"
  shows "q_inv (k_queue k)" and "\<not> q_FlushLock (k_queue k)" and "core_led k (q_list (k_queue k))"
    and "\<And>e. e \<in> set (q_list (k_queue k)) \<Longrightarrow> e_Epoch e \<le> k_epoch k" and "regs_ok k"
  using assms core_ledD(2) by (auto simp: core_inv_def)

lemma core_inv_ok:
  assumes "core_inv k"
  shows "core_ok k"
proof -
  note d = core_invD [OF assms]
  have "e_OwningRegistry e \<in> dom (k_regs k)" if "e \<in> set (q_list (k_queue k))" for e
  proof -
    have "entry_record e \<in> quarantined (k_node k)" using that ledgerD(4) [OF core_ledD(4) [OF d(3)]] by auto
    then show ?thesis by (auto simp: quarantined_def entry_record_def k_node_def split: option.splits)
  qed
  then show ?thesis using d by (auto simp: core_ok_def)
qed

text \<open>What the invariant depends on: the environment and the other counters are free.\<close>

definition same_accounts :: "'e kcore \<Rightarrow> 'e kcore \<Rightarrow> bool" where
  "same_accounts k k' \<longleftrightarrow> k_queue k' = k_queue k \<and> k_epoch k' = k_epoch k \<and> k_regs k' = k_regs k
     \<and> st_ActiveAllocations (k_stats k') = st_ActiveAllocations (k_stats k)
     \<and> st_ActiveBytes (k_stats k') = st_ActiveBytes (k_stats k)
     \<and> st_QuarantinedBlocks (k_stats k') = st_QuarantinedBlocks (k_stats k)"

lemma same_accounts_refl [simp]: "same_accounts k k"
  by (simp add: same_accounts_def)

lemma same_accounts_trans: "same_accounts k k' \<Longrightarrow> same_accounts k' k'' \<Longrightarrow> same_accounts k k''"
  by (simp add: same_accounts_def)

lemma core_inv_cong: "core_inv k \<Longrightarrow> same_accounts k k' \<Longrightarrow> core_inv k'"
  using k_node_cong [of k' k] by (simp add: same_accounts_def core_inv_def core_led_def ledger_def regs_ok_def placed_def)

section \<open>The operations on the core\<close>

lemma flush_inv:
  assumes "core_inv k"
  obtains k' where "queue_flushEligible k mx force = Some (k', of_nat (length (due k mx force)))" and "core_inv k'"
    and "q_list (k_queue k') = drop (length (due k mx force)) (q_list (k_queue k))" and "k_epoch k' = k_epoch k"
proof -
  let ?es = "due k mx force" and ?l = "q_list (k_queue k)"
  note d = core_invD [OF assms]
  have "core_led k (?es @ drop (length ?es) ?l)" using d(3) by (simp only: due_append)
  then obtain k0 where k0: "retire_all k ?es = Some k0" "core_led k0 (drop (length ?es) ?l)"
    using retire_all_led by blast
  obtain k' where k': "queue_flushEligible k mx force = Some (k', of_nat (length ?es))" "core_ok k'"
    "q_list (k_queue k') = drop (length ?es) ?l" "k_epoch k' = k_epoch k"
    by (rule flush_core [OF core_inv_ok [OF assms], of mx force])
  have eq: "k' = k0\<lparr>k_queue := (ring_drop ^^ length ?es) (k_queue k)\<rparr>"
    using k'(1) flushEligible_eq [OF d(1,2), of mx force] k0(1) by simp
  have "core_led k' (drop (length ?es) ?l)"
    using k0(2) core_ledD(1) [OF d(3)] k_node_cong [of k' k0] unfolding eq
    by (simp add: core_led_def regs_ok_def placed_def)
  moreover have "e_Epoch e \<le> k_epoch k'" if "e \<in> set (q_list (k_queue k'))" for e
    using that d(4) k'(3,4) by (auto dest: in_set_dropD)
  ultimately have "core_inv k'" using k'(2,3) by (simp add: core_inv_def core_ok_def)
  with k' show thesis by (intro that)
qed

lemma epoch_inv:
  assumes inv: "core_inv k" and room: "k_epoch k \<noteq> - 1"
  shows "core_inv (k\<lparr>k_epoch := k_epoch k + 1\<rparr>)"
proof -
  have "k_epoch k \<le> k_epoch k + 1" using unat_succ_not_max [OF room] by (simp add: word_le_nat_alt)
  then show ?thesis
    using inv k_node_cong [of "k\<lparr>k_epoch := k_epoch k + 1\<rparr>" k]
    by (auto simp: core_inv_def core_led_def regs_ok_def placed_def intro: order.trans)
qed

lemma tick_inv:
  assumes inv: "core_inv k" and room: "k_epoch k \<noteq> - 1" and run: "drain_tick k = Some k'"
  shows "core_inv k'"
  by (rule flush_inv [OF epoch_inv [OF inv room], of "- 1" False]) (use run in \<open>simp add: drain_tick_def\<close>)

lemma insert_inv:
  assumes inv: "core_inv k" and reg: "k_regs k a = Some reg" and cur: "r_NodeCursor reg \<noteq> - 1" and cnt: "cnt \<noteq> 0"
    and ins: "registry_insert reg (k_stats k) p u bs us aid tid nm cnt = Some (reg', st, ok)"
  shows "core_inv (k\<lparr>k_regs := (k_regs k)(a := Some reg'), k_stats := st\<rparr>)"
proof -
  note d = core_invD [OF inv] and led = core_ledD [OF core_invD(3) [OF inv]]
  have rinv: "reg_inv reg" using d(5) reg by (simp add: regs_ok_def)
  have rinv': "reg_inv reg'" using registry_insert_inv [OF rinv cur ins] by simp
  let ?k = "k\<lparr>k_regs := (k_regs k)(a := Some reg'), k_stats := st\<rparr>"
  have upd: "k_regs ?k = (k_regs k)(a := Some reg')" by simp
  have "ledger (k_node ?k) st (q_list (k_queue k))"
  proof (rule registry_insert_cases [OF rinv ins])
    fix g
    let ?n = "fresh_node reg g p u bs us aid tid nm cnt"
    assume lt: "r_NodeCursor reg < r_NodeCapacity reg"
      and r: "Some (reg', st, ok) = Some (with_node reg ?n, statsOnInit bs (k_stats k), True)"
    have upd': "k_regs ?k = (k_regs k)(a := Some (with_node reg ?n))" using r by simp
    have "ledger (k_node ?k) (statsOnInit (n_BlockSize ?n) (k_stats k)) (q_list (k_queue k))"
      unfolding k_node_add(1) [OF reg rinv lt upd']
      by (rule ledger_insert [OF led(4) k_node_add(2) [OF reg rinv lt upd']]) (simp_all add: fresh_node_def cnt)
    then show ?thesis using r by (simp add: fresh_node_def)
  next
    assume full: "r_NodeCapacity reg \<le> r_NodeCursor reg"
      and r: "Some (reg', st, ok) = Some (reg\<lparr>r_NodeCursor := r_NodeCursor reg + 1\<rparr>, k_stats k, False)"
    have "reg_used reg' = reg_used reg" using r reg_inv_cursor(2) [OF rinv] full cur by simp
    then have "k_node ?k = k_node k" using r by (intro k_node_idle [OF reg _ _ upd]) simp_all
    then show ?thesis using led(4) r by simp
  qed (use led(4) k_node_idle [OF reg _ _ upd] in auto)
  moreover have "placed ?k"
  proof (rule placed_put [OF led(3) reg _ upd])
    show "r_NodePool reg' = r_NodePool reg"
      by (rule registry_insert_cases [OF rinv ins]) (simp_all add: with_node_def set_bucket_def)
  qed
  ultimately show ?thesis
    using d led(1) regs_ok_put [OF d(5) rinv' upd] by (simp add: core_inv_def core_led_def)
qed

text \<open>
  One object less: \<open>k1\<close> is the core between \<open>beginRetiring\<close> and \<open>endRetiring\<close>, with the record of the block
  retiring and its count taken down.
\<close>

lemma destroy_inv:
  assumes inv: "core_inv k" and reg: "k_regs k a = Some reg" and h: "reg_holds reg p i"
    and live: "n_State (r_nodes reg ! i) = SLive"
    and n2: "n2 = (r_nodes reg ! i)\<lparr>n_DtorLock := True, n_State := SRetiring, n_LiveCount := c\<rparr>"
    and reg2: "reg_inv (set_node reg i n2)"
    and k1: "k_regs k1 = (k_regs k)(a := Some (set_node reg i n2))" "k_queue k1 = k_queue k"
      "k_epoch k1 = k_epoch k" "k_stats k1 = k_stats k"
    and tail: "q_Tail (k_queue k) \<noteq> - 1"
    and run: "endRetiring k1 a p (k_epoch k1) al th = Ret k' ()"
  shows "core_inv k'"
proof -
  note d = core_invD [OF inv] and led = core_ledD [OF core_invD(3) [OF inv]]
  have rinv: "reg_inv reg" using d(5) reg by (simp add: regs_ok_def)
  have i: "i < reg_used reg" "n_BlockBase (r_nodes reg ! i) = p" using h by (simp_all add: reg_holds_def)
  have own: "a \<noteq> null" by (rule placed_address [OF led(3) reg])
  have p0: "p \<noteq> null" using rinv i by (auto simp: reg_inv_def node_ok_def)
  have il: "i < length (r_nodes reg)" using i(1) reg_used_le [OF rinv] by simp
  let ?reg2 = "set_node reg i n2"
  have n2i: "r_nodes ?reg2 ! i = n2" using il by (simp add: set_node_def)
  have h2: "reg_holds ?reg2 p i" and st2: "n_State (r_nodes ?reg2 ! i) = SRetiring"
    unfolding reg_holds_def n2i using i by (simp_all add: n2)
  have at: "k_regs k1 a = Some ?reg2" and q1: "q_inv (k_queue k1)" using k1 d(1) by simp_all
  have node: "k_node k a i = Some (r_nodes reg ! i)" using reg i by (simp add: k_node_def)
  note eq = endRetiring_eq [OF at reg2 q1 own h2 st2, of "k_epoch k1" al th, unfolded run n2i]
  show ?thesis
  proof (cases "c = 0")
    case False
    let ?n = "n2\<lparr>n_State := SLive, n_DtorLock := False\<rparr>" let ?r = "set_node ?reg2 i ?n"
    have k': "k' = k1\<lparr>k_regs := (k_regs k1)(a := Some ?r)\<rparr>" using eq False by (simp add: n2)
    have upd: "k_regs k' = (k_regs k)(a := Some ?r)" by (simp add: k' k1)
    have r: "reg_inv ?r" using reg_inv_relived [OF reg2 h2 st2] by (simp add: n2i)
    have f: "k_node k' = node_put (k_node k) a i ?n"
      by (rule k_node_set [OF reg rinv i(1) _ _ upd]) (simp_all add: set_node_def reg_used_def)
    have "ledger (k_node k') (k_stats k) (q_list (k_queue k))"
      unfolding f by (rule ledger_object [OF led(4) node live]) (simp_all add: n2 False)
    moreover have "placed k'" by (rule placed_put [OF led(3) reg _ upd]) simp
    ultimately show ?thesis
      using d led(1) regs_ok_put [OF d(5) r upd] by (simp add: core_inv_def core_led_def) (simp add: k' k1)
  next
    case True
    let ?n = "n2\<lparr>n_State := SQuarantine, n_DtorLock := False\<rparr>"
    let ?r = "(set_node ?reg2 i ?n)\<lparr>r_Count := r_Count ?reg2 - 1\<rparr>"
    let ?e = "\<lparr>e_BlockSize = n_BlockSize n2, e_Epoch = k_epoch k1, e_Allocator = al, e_DeallocThunk = th,
        e_OwningRegistry = a, e_BlockBase = p\<rparr>"
    have room: "length (q_list (k_queue k1)) < unat (q_Capacity (k_queue k1))"
      and k': "k' = k1\<lparr>k_regs := (k_regs k1)(a := Some ?r), k_queue := ring_put (k_queue k1) ?e,
        k_stats := statsVia (q_Stats (k_queue k1)) statsOnQuarantineEnqueue (k_stats k1)\<rparr>"
      using eq True by (simp_all add: n2 Let_def split: if_splits)
    have "unat (q_Tail (k_queue k)) < 18446744073709551615"
      using unat_succ_not_max [OF tail] unat_lt_64 [of "q_Tail (k_queue k) + 1"] by simp
    then have acc: "ring_accepts (k_queue k) ?e" using room p0 by (simp add: ring_accepts_def k1)
    note put = ring.put_inv [OF d(1) acc] ring.put_contents [OF d(1) acc]
    have upd: "k_regs k' = (k_regs k)(a := Some ?r)" by (simp add: k' k1)
    have r: "reg_inv ?r" using reg_inv_quarantined(1) [OF reg2 h2 st2] by (simp add: n2i)
    have f: "k_node k' = node_put (k_node k) a i ?n"
      by (rule k_node_set [OF reg rinv i(1) _ _ upd]) (simp_all add: set_node_def reg_used_def)
    have "ledger (k_node k') (statsOnQuarantineEnqueue (k_stats k)) (q_list (k_queue k) @ [?e])"
      unfolding f by (rule ledger_finish [OF led(4) k_node_unique [OF d(5)] node live])
        (simp_all add: n2 i entry_record_def)
    moreover have "regs_ok k'" by (rule regs_ok_put [OF d(5) r upd])
    moreover have "q_Stats (ring_put (k_queue k) ?e) \<longleftrightarrow> q_Stats (k_queue k)"
      "q_FlushLock (ring_put (k_queue k) ?e) \<longleftrightarrow> q_FlushLock (k_queue k)" by (simp_all add: ring_put_def)
    moreover have "placed k'" by (rule placed_put [OF led(3) reg _ upd]) simp
    ultimately show ?thesis
      using d led(1) put by (simp add: core_inv_def core_led_def) (auto simp: k' k1 statsVia_def)
  qed
qed

text \<open>Giving blocks back leaves the live records alone, and brings none to life.\<close>

lemma nth_update_live:
  assumes "n_State n \<noteq> SLive" and "n_State (ns ! j) \<noteq> SLive"
  shows "n_State (ns[j := n] ! i) = SLive \<longleftrightarrow> n_State (ns ! i) = SLive"
    and "n_State (ns ! i) = SLive \<Longrightarrow> ns[j := n] ! i = ns ! i"
  using assms by (cases "i = j"; cases "j < length ns"; auto simp: list_update_beyond)+

definition live_at :: "node_map \<Rightarrow> addr \<Rightarrow> nat \<Rightarrow> node \<Rightarrow> bool" where
  "live_at f a i n \<longleftrightarrow> f a i = Some n \<and> n_State n = SLive"

lemma live_put:
  assumes "k_regs k a = Some reg" and "n_State n \<noteq> SLive" and "n_State (r_nodes reg ! j) \<noteq> SLive"
    and "k_regs k' = (k_regs k)(a := Some (set_node reg j n))"
  shows "live_at (k_node k') = live_at (k_node k)"
proof -
  have "live_at (k_node k') b i m \<longleftrightarrow> live_at (k_node k) b i m" for b i m
  proof (cases "b = a \<and> i < reg_used reg")
    case True
    note same = nth_update_live [OF assms(2,3), of i]
    have "live_at (k_node k') b i m \<longleftrightarrow> (r_nodes reg)[j := n] ! i = m \<and> n_State ((r_nodes reg)[j := n] ! i) = SLive"
      using True assms(4) by (auto simp: live_at_def k_node_def set_node_def)
    also have "\<dots> \<longleftrightarrow> r_nodes reg ! i = m \<and> n_State (r_nodes reg ! i) = SLive" using same by metis
    finally show ?thesis using True assms(1) by (auto simp: live_at_def k_node_def)
  next
    case False
    then show ?thesis using assms(1,4) by (auto simp: live_at_def k_node_def)
  qed
  then show ?thesis by (simp add: fun_eq_iff)
qed

lemma retire_entry_change:
  assumes "retire_entry k e = Some k'" and "k_regs k' \<noteq> k_regs k"
  obtains reg reg' where "k_regs k (e_OwningRegistry e) = Some reg" and "k_regs k' = (k_regs k)(e_OwningRegistry e := Some reg')"
    and "reg' = reg \<or> (\<exists>j. reg' = set_node reg j ((r_nodes reg ! j)\<lparr>n_State := SDead\<rparr>)
      \<and> n_State (r_nodes reg ! j) = SQuarantine)"
proof (cases "e_OwningRegistry e = null")
  case True
  then have "k_regs k' = k_regs k"
    using assms by (cases "e_DeallocThunk e"; cases "e_Allocator e = null") (auto simp: retire_entry_def)
  with assms(2) show thesis by simp
next
  case False
  obtain reg where reg: "k_regs k (e_OwningRegistry e) = Some reg"
    using assms(1) False by (cases "k_regs k (e_OwningRegistry e)") (simp_all add: retire_entry_def)
  obtain reg' ok where r: "registry_retire reg (e_BlockBase e) = Some (reg', ok)"
    using assms(1) False reg by (cases "registry_retire reg (e_BlockBase e)") (auto simp: retire_entry_def)
  have k': "k_regs k' = (k_regs k)(e_OwningRegistry e := Some reg')"
    using assms(1) False reg r
    by (cases "e_DeallocThunk e"; cases "e_Allocator e = null") (auto simp: retire_entry_def)
  have "reg' = reg \<or> (\<exists>j. reg' = set_node reg j ((r_nodes reg ! j)\<lparr>n_State := SDead\<rparr>)
      \<and> n_State (r_nodes reg ! j) = SQuarantine)"
    using r by (auto simp: registry_retire_def Let_def split: option.splits if_splits)
  with reg k' show thesis by (rule that)
qed

lemma retire_entry_live:
  assumes "retire_entry k e = Some k'"
  shows "live_at (k_node k') = live_at (k_node k)"
proof (cases "k_regs k' = k_regs k")
  case True
  from k_node_cong [OF this] show ?thesis by simp
next
  case changed: False
  obtain reg reg' where reg: "k_regs k (e_OwningRegistry e) = Some reg" "k_regs k' = (k_regs k)(e_OwningRegistry e := Some reg')"
    "reg' = reg \<or> (\<exists>j. reg' = set_node reg j ((r_nodes reg ! j)\<lparr>n_State := SDead\<rparr>) \<and> n_State (r_nodes reg ! j) = SQuarantine)"
    by (rule retire_entry_change [OF assms changed])
  have "reg' \<noteq> reg" using reg(1,2) changed by auto
  then obtain j where j: "reg' = set_node reg j ((r_nodes reg ! j)\<lparr>n_State := SDead\<rparr>)" "n_State (r_nodes reg ! j) = SQuarantine"
    using reg(3) by blast
  show ?thesis by (rule live_put [OF reg(1) _ _ reg(2) [unfolded j(1)]]) (simp_all add: j)
qed

lemma retire_all_live: "retire_all k es = Some k' \<Longrightarrow> live_at (k_node k') = live_at (k_node k)"
  by (induction es arbitrary: k) (auto simp: Option.bind_eq_Some_conv dest: retire_entry_live)

lemma flush_live:
  assumes "core_inv k" and "queue_flushEligible k mx force = Some (k', n)"
  shows "live_at (k_node k') = live_at (k_node k)"
proof -
  note d = core_invD [OF assms(1)]
  obtain k0 where k0: "retire_all k (due k mx force) = Some k0" "k_regs k' = k_regs k0"
    using assms(2) flushEligible_eq [OF d(1,2), of mx force] by auto
  show ?thesis using retire_all_live [OF k0(1)] k_node_cong [OF k0(2)] by simp
qed

lemma tick_epoch:
  assumes inv: "core_inv k" and room: "k_epoch k \<noteq> - 1" and run: "drain_tick k = Some k'"
  shows "k_epoch k' = k_epoch k + 1"
  by (rule flush_inv [OF epoch_inv [OF inv room], of "- 1" False]) (use run in \<open>simp add: drain_tick_def\<close>)

text \<open>With nothing in the quarantine, what is not live is dead.\<close>

lemma rest_state:
  assumes regs: "regs_ok k" and settled: "settled (k_node k)" and n: "k_node k a i = Some n"
    and noq: "quarantined (k_node k) = {}"
  shows "n_State n = SLive \<or> n_State n = SDead"
proof -
  obtain reg where "k_regs k a = Some reg" "i < reg_used reg" "r_nodes reg ! i = n"
    using n by (auto simp: k_node_def split: option.splits if_splits)
  then have "n_State n \<noteq> SEmpty" using regs by (auto simp: regs_ok_def reg_inv_def node_ok_def)
  moreover have "n_State n \<noteq> SQuarantine" using noq quarantinedI [of "k_node k" a i n, OF n] by auto
  moreover have "n_State n \<noteq> SRetiring" using settled n by (simp add: settled_def)
  ultimately show ?thesis by (cases "n_State n") simp_all
qed

lemma tick_live:
  assumes inv: "core_inv k" and room: "k_epoch k \<noteq> - 1" and run: "drain_tick k = Some k'"
  shows "live_at (k_node k') = live_at (k_node k)"
proof -
  obtain n where n: "queue_flushEligible (k\<lparr>k_epoch := k_epoch k + 1\<rparr>) (- 1) False = Some (k', n)"
    using run by (auto simp: drain_tick_def split: option.splits)
  show ?thesis
    using flush_live [OF epoch_inv [OF inv room] n] k_node_cong [of "k\<lparr>k_epoch := k_epoch k + 1\<rparr>" k] by simp
qed

text \<open>A region that ends: its registry goes when none of its records is live.\<close>

lemma drop_registry_inv:
  assumes inv: "core_inv k" and empty: "q_list (k_queue k) = []" and reg: "k_regs k a = Some reg"
    and idle: "\<And>i n. \<not> live_at (k_node k) a i n"
  shows "core_inv (k\<lparr>k_env := e, k_regs := (k_regs k)(a := None)\<rparr>)"
proof -
  note d = core_invD [OF inv] and led = core_ledD [OF core_invD(3) [OF inv]]
  let ?k = "k\<lparr>k_env := e, k_regs := (k_regs k)(a := None)\<rparr>"
  have f: "k_node ?k b i = (if b = a then None else k_node k b i)" for b i by (simp add: k_node_def)
  have noq: "quarantined (k_node k) = {}" using ledgerD(4) [OF led(4)] empty by simp
  have settled: "settled (k_node k)" by (rule ledgerD(2) [OF led(4)])
  have dead: "n_State n = SDead" if "k_node k a i = Some n" for i n
    using rest_state [OF d(5) settled that noq] idle [of i n] that by (auto simp: live_at_def)
  have u: "undead (k_node ?k) = undead (k_node k)" using dead by (auto simp: undead_def f split: if_splits)
  have "bytes_at (k_node ?k) x = bytes_at (k_node k) x" if "x \<in> undead (k_node k)" for x
    using that dead by (cases x) (auto simp: bytes_at_def f undead_def)
  then have b: "sum (bytes_at (k_node ?k)) (undead (k_node k)) = sum (bytes_at (k_node k)) (undead (k_node k))" by simp
  have q: "quarantined (k_node ?k) = {}"
    using noq unfolding quarantined_def by (auto simp: f split: if_splits)
  have s: "settled (k_node ?k)" using settled by (auto simp: settled_def f split: if_splits)
  have "ledger (k_node ?k) (k_stats k) (q_list (k_queue k))"
    using led(4) q noq u b s by (simp add: ledger_def)
  then show ?thesis using d led(1,3) by (auto simp: core_inv_def core_led_def regs_ok_def placed_def)
qed

text \<open>A region that begins.\<close>

lemma new_registry_inv:
  assumes inv: "core_inv k" and new: "k_regs k a = None" and own: "a \<noteq> null" 
    and reg: "reg_inv reg" "reg_used reg = 0" "r_NodePool reg \<noteq> null"
    and k': "k_regs k' = (k_regs k)(a := Some reg)" "k_queue k' = k_queue k" "k_epoch k' = k_epoch k"
      "k_stats k' = k_stats k"
  shows "core_inv k'"
proof -
  note d = core_invD [OF inv] and led = core_ledD [OF core_invD(3) [OF inv]]
  have "k_node k' = k_node k" using new reg(2) k'(1) by (auto simp: k_node_def fun_eq_iff)
  then show ?thesis
    using d led own reg(3) regs_ok_put [OF d(5) reg(1) k'(1)] k'
    by (auto simp: core_inv_def core_led_def placed_def)
qed

end
