(* ===== verification/Kerbecs_RegionSpec.thy ===== *)
theory Kerbecs_RegionSpec
  imports Kerbecs_Region
begin

text \<open>
  What the operations of a region promise. \<open>destroy\<close> is followed through the registry, the shadow bitmap
  and the quarantine: \<open>region_destroy_final\<close> gives the whole state after the last object of a block has
  been destroyed, for the block whose record the handle's slot leads to, which need not be the record
  in that slot.
\<close>

lemma set_core_simps [env_simps]:
  "rt_core (w_rt (set_core w k)) = k" "w_mem (set_core w k) = w_mem w" "w_infos (set_core w k) = w_infos w"
  "w_viol (set_core w k) = w_viol w" "rt_table (w_rt (set_core w k)) = rt_table (w_rt w)"
  by (simp_all add: set_core_def)

lemma set_env_simps [env_simps]:
  "rt_core (w_rt (set_env w e)) = (rt_core (w_rt w))\<lparr>k_env := e\<rparr>" "w_mem (set_env w e) = w_mem w"
  "w_infos (set_env w e) = w_infos w" "w_viol (set_env w e) = w_viol w"
  by (simp_all add: set_env_def env_simps)

lemma set_reg_simps [env_simps]:
  "rt_core (w_rt (set_reg w a x)) = (rt_core (w_rt w))\<lparr>k_regs := (k_regs (rt_core (w_rt w)))(a := x)\<rparr>"
  "w_mem (set_reg w a x) = w_mem w" "w_infos (set_reg w a x) = w_infos w" "w_viol (set_reg w a x) = w_viol w"
  by (simp_all add: set_reg_def env_simps)

lemma nodeFor_SomeD:
  assumes "nodeFor r reg h = Some (Some slot)" and "reg_inv reg"
  shows "h_MetaPtr h \<noteq> null" and "slot < length (r_nodes reg)"
  using assms by (auto simp: nodeFor_def reg_inv_def Let_def word_less_nat_alt split: if_splits)

lemma set_node_twice: "set_node (set_node reg i n) i n' = set_node reg i n'"
  by (simp add: set_node_def)

lemma set_node_nth: "i < length (r_nodes reg) \<Longrightarrow> r_nodes (set_node reg i n) ! i = n"
  by (simp add: set_node_def)

text \<open>The record while its object is being destroyed.\<close>

definition retiring_node :: "node \<Rightarrow> node" where
  "retiring_node n = n\<lparr>n_DtorLock := True, n_State := SRetiring, n_LiveCount := n_LiveCount n - 1\<rparr>"

lemma retiring_step:
  assumes inv: "reg_inv reg" and h: "reg_holds reg p i" and live: "n_State (r_nodes reg ! i) = SLive"
    and pol: "pol = Strict \<longrightarrow> tid = n_ThreadID (r_nodes reg ! i)"
  shows "beginRetiring reg p tid pol
      = Some (set_node reg i ((r_nodes reg ! i)\<lparr>n_DtorLock := True, n_State := SRetiring\<rparr>), Some i)"
    and "reg_inv (set_node reg i (retiring_node (r_nodes reg ! i)))"
    and "reg_holds (set_node reg i (retiring_node (r_nodes reg ! i))) p i"
proof -
  obtain res where r: "beginRetiring reg p tid pol = res" by blast
  show b: "beginRetiring reg p tid pol
      = Some (set_node reg i ((r_nodes reg ! i)\<lparr>n_DtorLock := True, n_State := SRetiring\<rparr>), Some i)"
    unfolding r by (rule beginRetiring_cases [OF inv r]) (use h live pol reg_holds_unique [OF inv h] in auto)
  have il: "i < length (r_nodes reg)" using h reg_used_le [OF inv] by (simp add: reg_holds_def)
  let ?r = "set_node reg i ((r_nodes reg ! i)\<lparr>n_DtorLock := True, n_State := SRetiring\<rparr>)"
  have inv1: "reg_inv ?r" using beginRetiring_inv [OF inv b] .
  have h1: "reg_holds ?r p i" using h il by (simp add: reg_holds_def set_node_nth)
  have "reg_inv (set_node ?r i ((r_nodes ?r ! i)\<lparr>n_LiveCount := n_LiveCount (r_nodes reg ! i) - 1\<rparr>))"
    using il by (intro reg_inv_object [OF inv1 h1]) (simp add: set_node_nth)
  then show "reg_inv (set_node reg i (retiring_node (r_nodes reg ! i)))"
    using il by (simp add: set_node_nth set_node_twice retiring_node_def)
  show "reg_holds (set_node reg i (retiring_node (r_nodes reg ! i))) p i"
    using h il by (simp add: reg_holds_def set_node_nth retiring_node_def)
qed

text \<open>The world between \<open>beginRetiring\<close> and \<open>endRetiring\<close>, up to the memory that \<open>m\<close> stands for.\<close>

definition retiring_world ::
  "region \<Rightarrow> 'e world \<Rightarrow> registry \<Rightarrow> bool \<Rightarrow> handle \<Rightarrow> memory \<Rightarrow> 'e world" where
  "retiring_world r w reg finalObject h m =
     (let w = set_reg w (rg_AllocationRegistry r) (Some reg)
      in (if finalObject
          then w\<lparr>w_infos := (w_infos w)(h_MetaPtr h := (w_infos w (h_MetaPtr h))\<lparr>ai_Generation := 0\<rparr>)\<rparr>
          else w)\<lparr>w_mem := m\<rparr>)"

lemma retiring_world_simps [env_simps]:
  "rt_core (w_rt (retiring_world r w reg f h m))
    = (rt_core (w_rt w))\<lparr>k_regs := (k_regs (rt_core (w_rt w)))(rg_AllocationRegistry r := Some reg)\<rparr>"
  "w_mem (retiring_world r w reg f h m) = m" "w_viol (retiring_world r w reg f h m) = w_viol w"
  "w_infos (retiring_world r w reg f h m) =
    (if f then (w_infos w)(h_MetaPtr h := (w_infos w (h_MetaPtr h))\<lparr>ai_Generation := 0\<rparr>) else w_infos w)"
  "(retiring_world r w reg f h m)\<lparr>w_mem := m'\<rparr> = retiring_world r w reg f h m'"
  by (simp_all add: retiring_world_def Let_def env_simps)

text \<open>A \<open>destroy\<close> that is let through, from the poisoning of the object on.\<close>

lemma region_destroy_taken:
  assumes reg: "k_regs (rt_core (w_rt w)) (rg_AllocationRegistry r) = Some reg" and inv: "reg_inv reg"
    and slot: "nodeFor r reg h = Some (Some slot)"
    and hold: "reg_holds reg (n_BlockBase (r_nodes reg ! slot)) i" and live: "n_State (r_nodes reg ! i) = SLive"
    and pol: "p_policy P = Strict \<longrightarrow> currentThreadID (c_anchor c) = n_ThreadID (r_nodes reg ! i)"
  shows "region_destroy P r w c sizeT dtor h =
    (case setShadow (p_os P) r (retiring_world r w (set_node reg i (retiring_node (r_nodes reg ! i)))
         (n_LiveCount (r_nodes reg ! i) = 1) h
         (mem_set (dtor (w_mem w) (h_PayloadPtr h)) (h_PayloadPtr h) TOMBSTONE sizeT)) (h_PayloadPtr h) sizeT True of
       None \<Rightarrow> Undefined
     | Some (w1, poisoned) \<Rightarrow>
         (case endRetiring (rt_core (w_rt w1)) (rg_AllocationRegistry r) (n_BlockBase (r_nodes reg ! slot))
             (k_epoch (rt_core (w_rt w1))) (rg_AllocatorSupport r) (Some (support_thunk P)) of
            Ret k u \<Rightarrow> Ret (set_core w1 k) True | Trap k \<Rightarrow> Trap (set_core w1 k) | Undefined \<Rightarrow> Undefined))"
proof -
  let ?n = "r_nodes reg ! i" and ?p = "n_BlockBase (r_nodes reg ! slot)"
  let ?reg2 = "set_node reg i (retiring_node ?n)"
  have il: "i < length (r_nodes reg)" using hold reg_used_le [OF inv] by (simp add: reg_holds_def)
  have sl: "slot < length (r_nodes reg)" using nodeFor_SomeD(2) [OF slot inv] .
  note b = retiring_step(1) [OF inv hold live pol]
  let ?m = "mem_set (dtor (w_mem w) (h_PayloadPtr h)) (h_PayloadPtr h) TOMBSTONE sizeT"
  have base: "n_BlockBase (r_nodes ?reg2 ! slot) = ?p"
    by (cases "i = slot") (simp_all add: set_node_def retiring_node_def nth_list_update sl)
  let ?regA = "set_node reg i (?n\<lparr>n_DtorLock := True, n_State := SRetiring\<rparr>)"
  have live': "n_LiveCount (r_nodes ?regA ! i) = n_LiveCount ?n" using il by (simp add: set_node_nth)
  have reg2: "set_node ?regA i ((r_nodes ?regA ! i)\<lparr>n_LiveCount := n_LiveCount ?n - 1\<rparr>) = ?reg2"
    using il by (simp add: set_node_nth set_node_twice retiring_node_def)
  let ?W = "set_reg w (rg_AllocationRegistry r) (Some ?reg2)"
  let ?W' = "if n_LiveCount ?n = 1
      then ?W\<lparr>w_infos := (w_infos ?W)(h_MetaPtr h := (w_infos ?W (h_MetaPtr h))\<lparr>ai_Generation := 0\<rparr>)\<rparr> else ?W"
  have world: "?W'\<lparr>w_mem := mem_set (dtor (w_mem ?W') (h_PayloadPtr h)) (h_PayloadPtr h) TOMBSTONE sizeT\<rparr>
      = retiring_world r w ?reg2 (n_LiveCount ?n = 1) h ?m"
    by (simp add: retiring_world_def Let_def set_reg_simps)
  show ?thesis
    unfolding region_destroy_def
    by (simp only: reg slot option.case prod.case b Let_def sl not_True_eq_False if_False live' reg2 world base)
qed

lemma region_destroy_run:
  assumes reg: "k_regs (rt_core (w_rt w)) (rg_AllocationRegistry r) = Some reg" and inv: "reg_inv reg"
    and slot: "nodeFor r reg h = Some (Some slot)"
    and hold: "reg_holds reg (n_BlockBase (r_nodes reg ! slot)) i" and live: "n_State (r_nodes reg ! i) = SLive"
    and pol: "p_policy P = Strict \<longrightarrow> currentThreadID (c_anchor c) = n_ThreadID (r_nodes reg ! i)"
    and res: "shadow_resident (p_os P) (k_env (rt_core (w_rt w))) r"
  obtains m w1 where
    "w1 = retiring_world r w (set_node reg i (retiring_node (r_nodes reg ! i)))
       (n_LiveCount (r_nodes reg ! i) = 1) h m"
    "region_destroy P r w c sizeT dtor h =
      (case endRetiring (rt_core (w_rt w1)) (rg_AllocationRegistry r) (n_BlockBase (r_nodes reg ! slot))
          (k_epoch (rt_core (w_rt w1))) (rg_AllocatorSupport r) (Some (support_thunk P)) of
         Ret k u \<Rightarrow> Ret (set_core w1 k) True | Trap k \<Rightarrow> Trap (set_core w1 k) | Undefined \<Rightarrow> Undefined)"
    "\<And>a. (\<And>u. a \<noteq> rg_ShadowBlobPtr r + drop_bit SHADOW_SCALE u)
      \<Longrightarrow> m a = mem_set (dtor (w_mem w) (h_PayloadPtr h)) (h_PayloadPtr h) TOMBSTONE sizeT a"
proof -
  let ?m = "mem_set (dtor (w_mem w) (h_PayloadPtr h)) (h_PayloadPtr h) TOMBSTONE sizeT"
  let ?w1 = "retiring_world r w (set_node reg i (retiring_node (r_nodes reg ! i))) (n_LiveCount (r_nodes reg ! i) = 1) h"
  have env: "k_env (rt_core (w_rt (?w1 ?m))) = k_env (rt_core (w_rt w))" by (simp add: env_simps)
  obtain m ok where s: "setShadow (p_os P) r (?w1 ?m) (h_PayloadPtr h) sizeT True = Some ((?w1 ?m)\<lparr>w_mem := m\<rparr>, ok)"
    and frame: "\<And>a. (\<And>u. a \<noteq> rg_ShadowBlobPtr r + drop_bit SHADOW_SCALE u) \<Longrightarrow> m a = w_mem (?w1 ?m) a"
    using setShadow_defined [of True "p_os P" "?w1 ?m" r] res env by metis
  note run = region_destroy_taken [OF reg inv slot hold live pol, of sizeT dtor,
      unfolded s option.case prod.case retiring_world_simps(5)]
  show thesis using that [OF refl run] frame by (simp add: env_simps)
qed

lemma nodeFor_cong:
  "r_NodeCapacity reg' = r_NodeCapacity reg \<Longrightarrow> r_NodePool reg' = r_NodePool reg \<Longrightarrow> nodeFor r reg' h = nodeFor r reg h"
  by (simp add: nodeFor_def Let_def)

text \<open>A region and its registry inside a world whose quarantine has room.\<close>

definition region_ready :: "'e os_api \<Rightarrow> region \<Rightarrow> 'e world \<Rightarrow> registry \<Rightarrow> bool" where
  "region_ready os r w reg \<longleftrightarrow>
     k_regs (rt_core (w_rt w)) (rg_AllocationRegistry r) = Some reg \<and> reg_inv reg
     \<and> rg_AllocationRegistry r \<noteq> null \<and> shadow_resident os (k_env (rt_core (w_rt w))) r
     \<and> q_inv (k_queue (rt_core (w_rt w)))
     \<and> length (q_list (k_queue (rt_core (w_rt w)))) < unat (q_Capacity (k_queue (rt_core (w_rt w))))
     \<and> unat (q_Tail (k_queue (rt_core (w_rt w)))) < 18446744073709551615"

lemma region_destroy_final:
  assumes ok: "region_ready (p_os P) r w reg"
    and slot: "nodeFor r reg h = Some (Some slot)"
    and hold: "reg_holds reg (n_BlockBase (r_nodes reg ! slot)) i" and live: "n_State (r_nodes reg ! i) = SLive"
    and one: "n_LiveCount (r_nodes reg ! i) = 1"
    and pol: "p_policy P = Strict \<longrightarrow> currentThreadID (c_anchor c) = n_ThreadID (r_nodes reg ! i)"
  obtains w1 reg3 where "region_destroy P r w c sizeT dtor h = Ret w1 True"
    and "k_regs (rt_core (w_rt w1)) (rg_AllocationRegistry r) = Some reg3"
    and "reg_inv reg3" and "reg_holds reg3 (n_BlockBase (r_nodes reg ! slot)) i"
    and "r_nodes reg3 = (r_nodes reg)[i := (r_nodes reg ! i)\<lparr>n_DtorLock := False, n_State := SQuarantine, n_LiveCount := 0\<rparr>]"
    and "nodeFor r reg3 h = nodeFor r reg h"
    and "w_viol w1 = w_viol w"
    and "w_infos w1 = (w_infos w)(h_MetaPtr h := (w_infos w (h_MetaPtr h))\<lparr>ai_Generation := 0\<rparr>)"
    and "\<And>a. (\<And>u. a \<noteq> rg_ShadowBlobPtr r + drop_bit SHADOW_SCALE u)
      \<Longrightarrow> w_mem w1 a = mem_set (dtor (w_mem w) (h_PayloadPtr h)) (h_PayloadPtr h) TOMBSTONE sizeT a"
    and "k_env (rt_core (w_rt w1)) = k_env (rt_core (w_rt w))"
    and "q_inv (k_queue (rt_core (w_rt w1)))"
    and "q_list (k_queue (rt_core (w_rt w1))) = q_list (k_queue (rt_core (w_rt w))) @
      [\<lparr>e_BlockSize = n_BlockSize (r_nodes reg ! i), e_Epoch = k_epoch (rt_core (w_rt w)),
        e_Allocator = rg_AllocatorSupport r, e_DeallocThunk = Some (support_thunk P),
        e_OwningRegistry = rg_AllocationRegistry r, e_BlockBase = n_BlockBase (r_nodes reg ! slot)\<rparr>]"
proof -
  let ?n = "r_nodes reg ! i" and ?p = "n_BlockBase (r_nodes reg ! slot)" and ?a = "rg_AllocationRegistry r"
  let ?reg2 = "set_node reg i (retiring_node ?n)"
  have reg: "k_regs (rt_core (w_rt w)) ?a = Some reg" and inv: "reg_inv reg" and own: "?a \<noteq> null"
    and res: "shadow_resident (p_os P) (k_env (rt_core (w_rt w))) r" and qinv: "q_inv (k_queue (rt_core (w_rt w)))"
    and room: "length (q_list (k_queue (rt_core (w_rt w)))) < unat (q_Capacity (k_queue (rt_core (w_rt w))))"
    and wrap: "unat (q_Tail (k_queue (rt_core (w_rt w)))) < 18446744073709551615"
    using ok by (simp_all add: region_ready_def)
  have il: "i < length (r_nodes reg)" using hold reg_used_le [OF inv] by (simp add: reg_holds_def)
  have node2: "r_nodes ?reg2 ! i = retiring_node ?n" using il by (rule set_node_nth)
  note ret = retiring_step(2,3) [OF inv hold live pol]
  have st2: "n_State (r_nodes ?reg2 ! i) = SRetiring" "n_LiveCount (r_nodes ?reg2 ! i) = 0"
    unfolding node2 using one by (simp_all add: retiring_node_def)
  let ?q2 = "(r_nodes ?reg2 ! i)\<lparr>n_State := SQuarantine, n_DtorLock := False\<rparr>"
  let ?reg3 = "(set_node ?reg2 i ?q2)\<lparr>r_Count := r_Count ?reg2 - 1\<rparr>"
  have q2: "?q2 = ?n\<lparr>n_DtorLock := False, n_State := SQuarantine, n_LiveCount := 0\<rparr>"
    unfolding node2 using one by (simp add: retiring_node_def)
  have nodes3: "r_nodes ?reg3 = (r_nodes reg)[i := ?n\<lparr>n_DtorLock := False, n_State := SQuarantine, n_LiveCount := 0\<rparr>]"
    unfolding q2 by (simp add: set_node_def)
  have used3: "reg_used ?reg3 = reg_used reg" by (simp add: reg_used_def set_node_def)
  have hold3: "reg_holds ?reg3 ?p i" using hold il unfolding reg_holds_def used3 nodes3 by simp
  obtain m w1 where w1: "w1 = retiring_world r w ?reg2 (n_LiveCount ?n = 1) h m"
    and run: "region_destroy P r w c sizeT dtor h =
      (case endRetiring (rt_core (w_rt w1)) ?a ?p (k_epoch (rt_core (w_rt w1))) (rg_AllocatorSupport r)
          (Some (support_thunk P)) of
         Ret k u \<Rightarrow> Ret (set_core w1 k) True | Trap k \<Rightarrow> Trap (set_core w1 k) | Undefined \<Rightarrow> Undefined)"
    and mem: "\<And>a. (\<And>u. a \<noteq> rg_ShadowBlobPtr r + drop_bit SHADOW_SCALE u)
      \<Longrightarrow> m a = mem_set (dtor (w_mem w) (h_PayloadPtr h)) (h_PayloadPtr h) TOMBSTONE sizeT a"
    by (rule region_destroy_run [OF reg inv slot hold live pol res, where sizeT = sizeT and dtor = dtor]) blast
  have k1: "k_regs (rt_core (w_rt w1)) ?a = Some ?reg2" "q_inv (k_queue (rt_core (w_rt w1)))"
    using qinv unfolding w1 by (simp_all add: env_simps)
  have p0: "?p \<noteq> null" using inv hold by (auto simp: reg_inv_def reg_holds_def node_ok_def)
  let ?e = "\<lparr>e_BlockSize = n_BlockSize ?n, e_Epoch = k_epoch (rt_core (w_rt w)),
        e_Allocator = rg_AllocatorSupport r, e_DeallocThunk = Some (support_thunk P),
        e_OwningRegistry = ?a, e_BlockBase = ?p\<rparr>"
  have acc: "ring_accepts (k_queue (rt_core (w_rt w))) ?e" using room wrap p0 by (simp add: ring_accepts_def)
  have size2: "n_BlockSize (r_nodes ?reg2 ! i) = n_BlockSize ?n" unfolding node2 by (simp add: retiring_node_def)
  obtain k where k: "endRetiring (rt_core (w_rt w1)) ?a ?p (k_epoch (rt_core (w_rt w1))) (rg_AllocatorSupport r)
      (Some (support_thunk P)) = Ret k ()"
    and kk: "k_regs k ?a = Some ?reg3" "k_env k = k_env (rt_core (w_rt w))"
      "k_queue k = ring_put (k_queue (rt_core (w_rt w))) ?e"
    unfolding endRetiring_eq [OF k1(1) ret(1) k1(2) own ret(2) st2(1)]
    using st2(2) room unfolding w1 by (simp add: env_simps Let_def size2)
  show thesis
  proof (rule that [of "set_core w1 k" ?reg3])
    show "region_destroy P r w c sizeT dtor h = Ret (set_core w1 k) True" unfolding run k by simp
    show "k_regs (rt_core (w_rt (set_core w1 k))) ?a = Some ?reg3" by (simp add: env_simps kk)
    show "reg_inv ?reg3" by (rule reg_inv_quarantined(1) [OF ret st2(1)])
    show "reg_holds ?reg3 ?p i" by (rule hold3)
    show "r_nodes ?reg3 = (r_nodes reg)[i := ?n\<lparr>n_DtorLock := False, n_State := SQuarantine, n_LiveCount := 0\<rparr>]"
      by (rule nodes3)
    show "nodeFor r ?reg3 h = nodeFor r reg h" by (rule nodeFor_cong) (simp_all add: set_node_def)
    show "w_viol (set_core w1 k) = w_viol w" unfolding w1 by (simp add: env_simps)
    show "w_infos (set_core w1 k) = (w_infos w)(h_MetaPtr h := (w_infos w (h_MetaPtr h))\<lparr>ai_Generation := 0\<rparr>)"
      unfolding w1 by (simp add: env_simps one)
    show "w_mem (set_core w1 k) a = mem_set (dtor (w_mem w) (h_PayloadPtr h)) (h_PayloadPtr h) TOMBSTONE sizeT a"
      if "\<And>u. a \<noteq> rg_ShadowBlobPtr r + drop_bit SHADOW_SCALE u" for a
      using mem [OF that] unfolding w1 by (simp add: env_simps)
    show "k_env (rt_core (w_rt (set_core w1 k))) = k_env (rt_core (w_rt w))" by (simp add: env_simps kk)
    show "q_inv (k_queue (rt_core (w_rt (set_core w1 k))))"
      using ring.put_inv [OF qinv acc] by (simp add: env_simps kk)
    show "q_list (k_queue (rt_core (w_rt (set_core w1 k)))) = q_list (k_queue (rt_core (w_rt w))) @ [?e]"
      using ring.put_contents [OF qinv acc] by (simp add: env_simps kk)
  qed
qed

lemma set_reg_same: "k_regs (rt_core (w_rt w)) a = x \<Longrightarrow> set_reg w a x = w"
  by (cases w, cases "w_rt w", cases "rt_core (w_rt w)") (auto simp: set_reg_def set_core_def fun_upd_idem)

text \<open>A \<open>destroy\<close> that \<open>beginRetiring\<close> turns down only reports.\<close>

lemma region_destroy_refused:
  assumes reg: "k_regs (rt_core (w_rt w)) (rg_AllocationRegistry r) = Some reg" and inv: "reg_inv reg"
    and slot: "nodeFor r reg h = Some (Some slot)"
    and no: "\<And>i. reg_holds reg (n_BlockBase (r_nodes reg ! slot)) i \<Longrightarrow> n_State (r_nodes reg ! i) \<noteq> SLive
      \<or> p_policy P = Strict \<and> currentThreadID (c_anchor c) \<noteq> n_ThreadID (r_nodes reg ! i)"
  shows "region_destroy P r w c sizeT dtor h =
    Ret (report w c (destroy_kind (p_policy P) (currentThreadID (c_anchor c)) (r_nodes reg ! slot)) (h_PayloadPtr h)
          (n_BlockBase (r_nodes reg ! slot)) sizeT) False"
proof -
  let ?p = "n_BlockBase (r_nodes reg ! slot)" and ?tid = "currentThreadID (c_anchor c)"
  obtain res where b: "beginRetiring reg ?p ?tid (p_policy P) = res" by blast
  have "res = Some (reg, None)"
    by (rule beginRetiring_cases [OF inv b]) (use no in auto)
  then show ?thesis
    using b nodeFor_SomeD(2) [OF slot inv] reg
    by (simp add: region_destroy_def slot Let_def set_reg_same)
qed

lemma signed_drop_bit_small:
  assumes "unat x < 9223372036854775808"
  shows "signed_drop_bit k x = (drop_bit k x :: u64)"
proof -
  have "\<not> bit x 63"
  proof
    assume "bit x 63"
    then have "bit (unat x) 63" by (simp add: bit_unsigned_iff)
    then have "odd (unat x div 2 ^ 63)" by (simp only: bit_iff_odd not_False_eq_True)
    moreover have "even (unat x div 2 ^ 63)" using assms by simp
    ultimately show False by (rule notE)
  qed
  then show ?thesis
    by (intro bit_word_eqI) (auto simp: bit_signed_drop_bit_iff bit_drop_bit_eq dest: bit_imp_le_length)
qed

text \<open>The handle that \<open>allocate\<close> makes for a slot leads back to it.\<close>

lemma nodeFor_slot:
  assumes "h_MetaPtr h = rg_MetadataMapBase r + of_nat slot * sizeof_AccessInfo" and "h_MetaPtr h \<noteq> null"
    and "rg_MetadataMapBase r \<noteq> null" and "r_NodePool reg \<noteq> null" and "slot < unat (r_NodeCapacity reg)"
    and "unat (r_NodeCapacity reg) * 16 < 9223372036854775808"
  shows "nodeFor r reg h = Some (Some slot)"
proof -
  have lt: "slot * 16 < 9223372036854775808" using assms(5,6) by linarith
  have w: "unat (of_nat slot * sizeof_AccessInfo) = slot * 16"
    using lt by (simp add: sizeof_AccessInfo_def unat_word_ariths unat_of_nat_64)
  have "signed_drop_bit 4 (h_MetaPtr h - rg_MetadataMapBase r) = drop_bit 4 (of_nat slot * sizeof_AccessInfo)"
    unfolding assms(1) using lt w by (simp add: signed_drop_bit_small)
  moreover have "unat (drop_bit 4 (of_nat slot * sizeof_AccessInfo)) = slot"
  proof -
    have "unat (drop_bit 4 (of_nat slot * sizeof_AccessInfo)) = drop_bit 4 (take_bit 64 (slot * 16))"
      unfolding w [symmetric] by (simp only: unsigned_drop_bit_eq) simp
    then show ?thesis using lt by (simp add: take_bit_nat_eq_self drop_bit_eq_div)
  qed
  ultimately show ?thesis
    using assms(2-5) by (simp add: nodeFor_def Let_def word_less_nat_alt)
qed

end
