(* ===== verification/Kerbecs_RegionUse.thy ===== *)
theory Kerbecs_RegionUse
  imports Kerbecs_RegionSpec
begin

text \<open>
  The life of an object seen from its handle: constructing it, destroying it once, and what a handle that
  is used too late can still do. The examples run on \<open>region_demo\<close>, 8192 bytes from address 4096 with
  the registry at address 384 and the \<open>AccessInfo\<close> slots from 786432.
\<close>

section \<open>Examples\<close>

definition region_demo :: region where
  "region_demo = region_example\<lparr>rg_RegionBase := 4096\<rparr>"

definition type_demo :: "unit region_type" where
  "type_demo = \<lparr>p_layout = NormalLayout, p_policy = Flexible, p_os = os_resident, p_config = small_config,
     a_allocate = (\<lambda>w n al. Some (w, 8192)), a_deallocate = (\<lambda>e p n. e)\<rparr>"

definition queue_demo :: "unit queue" where
  "queue_demo = \<lparr>q_Slots = 65536, q_slots = [qentry_zero, qentry_zero], q_Capacity = 2, q_Head = 0,
     q_Tail = 0, q_FlushLock = False, q_Stats = True\<rparr>"

definition world_demo :: "registry \<Rightarrow> unit world" where
  "world_demo reg = world_example\<lparr>w_rt := (runtime_new ())\<lparr>rt_core := \<lparr>k_stats = stats_zero, k_epoch = 3,
     k_queue = queue_demo, k_regs = [384 \<mapsto> reg], k_env = ()\<rparr>\<rparr>\<rparr>"

text \<open>The handle for a slot, to the block at 4096 with its payload at 4160.\<close>

definition handle_demo :: "nat \<Rightarrow> u64 \<Rightarrow> handle" where
  "handle_demo slot gen = \<lparr>h_MetaPtr = 786432 + of_nat slot * sizeof_AccessInfo, h_PayloadPtr = 4160,
     h_ShadowPtr = 524296, h_Generation = gen\<rparr>"

lemma queue_demo_inv: "q_inv queue_demo" "q_list queue_demo = []"
  by (simp_all add: q_inv_def queue_demo_def q_window_def q_list_def is_pow2_def less_2_cases_iff nth_Cons')

lemma world_demo_simps:
  "rt_core (w_rt (world_demo reg)) = \<lparr>k_stats = stats_zero, k_epoch = 3, k_queue = queue_demo,
     k_regs = [384 \<mapsto> reg], k_env = ()\<rparr>"
  "w_infos (world_demo reg) a = \<lparr>ai_UserSize = 40, ai_Generation = 3\<rparr>"
  by (simp_all add: world_demo_def world_example_def)

lemma region_demo_simps:
  "rg_AllocationRegistry region_demo = 384" "rg_MetadataMapBase region_demo = 786432"
  "rg_ShadowBlobPtr region_demo = 524288" "rg_RegionBase region_demo = 4096" "rg_Size region_demo = 8192"
  by (simp_all add: region_demo_def region_example_def)

lemma demo_resident: "shadow_resident os_resident () region_demo"
  using example_resident by (simp add: shadow_resident_def region_demo_def)

lemma demo_ready: "reg_inv reg \<Longrightarrow> region_ready (p_os type_demo) region_demo (world_demo reg) reg"
  using demo_resident by (simp add: region_ready_def world_demo_simps region_demo_simps queue_demo_inv type_demo_def)
    (simp add: queue_demo_def)

lemma blob_far: "8192 \<le> unat (524288 + drop_bit SHADOW_SCALE u :: u64)"
proof -
  have "unat u div 8 < 2305843009213693952" by (rule less_mult_imp_div_less) simp
  then have "unat (524288 + drop_bit SHADOW_SCALE u) = 524288 + unat u div 8"
    by (subst unat_plus_nowrap) (simp_all add: unat_drop_scale)
  then show ?thesis by simp
qed

lemma demo_apart:
  assumes "in_range a 4160 64"
  shows "a \<noteq> rg_ShadowBlobPtr region_demo + drop_bit SHADOW_SCALE u"
proof -
  have "unat a < 8192" using assms unat_lt_64 [of a]
    by (auto simp: in_range_def word_less_nat_alt unat_sub_if' split: if_splits)
  moreover have "8192 \<le> unat (524288 + drop_bit SHADOW_SCALE u :: u64)" by (rule blob_far)
  ultimately show ?thesis by (auto simp: region_demo_simps)
qed

lemma nodeFor_demo:
  assumes "slot < 2" and "r_NodePool reg \<noteq> null" and "r_NodeCapacity reg = 2"
  shows "nodeFor region_demo reg (handle_demo slot gen) = Some (Some slot)"
proof (rule nodeFor_slot)
  show "h_MetaPtr (handle_demo slot gen) \<noteq> null"
    using assms(1) by (auto simp: handle_demo_def less_2_cases_iff sizeof_AccessInfo_def)
qed (use assms in \<open>simp_all add: handle_demo_def region_demo_simps\<close>)

lemma registry_demo1_pool: "r_NodePool registry_demo1 \<noteq> null" "r_NodeCapacity registry_demo1 = 2"
  by (simp_all add: registry_demo1_def with_node_def registry_demo_def registry_new_def)

text \<open>The block at 4096 has died and been allocated again: its first record is in slot 0, the new one in slot 1.\<close>

definition registry_reborn :: registry where
  "registry_reborn = with_node registry_dead (fresh_node registry_dead 2 4096 4160 256 64 1 7 0 1)"

lemma registry_reborn_facts:
  "reg_inv registry_reborn" "reg_holds registry_reborn 4096 1"
  "n_State (r_nodes registry_reborn ! 0) = SDead" "n_BlockBase (r_nodes registry_reborn ! 0) = 4096"
  "n_State (r_nodes registry_reborn ! 1) = SLive" "n_LiveCount (r_nodes registry_reborn ! 1) = 1"
  "r_NodePool registry_reborn \<noteq> null" "r_NodeCapacity registry_reborn = 2"
proof -
  note d = registry_dead_facts
  have lt: "r_NodeCursor registry_dead < r_NodeCapacity registry_dead" by (simp add: d)
  have none: "\<not> reg_holds registry_dead 4096 i" for i by (cases "i = 0") (simp_all add: reg_holds_def d)
  have node: "n_BlockBase (r_nodes registry_dead ! 0) = 4096" "n_Generation (r_nodes registry_dead ! 0) = 1"
    using reg_used_le [OF registry_demo1_inv]
    by (simp_all add: registry_dead_def set_node_def registry_demo1_node registry_demo1_used Suc_le_eq)
  let ?n = "fresh_node registry_dead 2 4096 4160 256 64 1 7 0 1"
  show inv: "reg_inv registry_reborn"
    unfolding registry_reborn_def by (rule reg_inv_with_node [OF d(1) _ lt none]) (simp_all add: d node)
  have n0: "r_nodes registry_reborn ! 0 = r_nodes registry_dead ! 0" and n1: "r_nodes registry_reborn ! 1 = ?n"
    using with_node_nth [OF d(1) lt, where n = ?n] by (simp_all add: registry_reborn_def d)
  show "n_State (r_nodes registry_reborn ! 0) = SDead" "n_BlockBase (r_nodes registry_reborn ! 0) = 4096"
    by (simp_all only: n0 node d)
  show "n_State (r_nodes registry_reborn ! 1) = SLive" "n_LiveCount (r_nodes registry_reborn ! 1) = 1"
    by (simp_all only: n1) (simp_all add: fresh_node_def)
  show "reg_holds registry_reborn 4096 1"
    using reg_holds_with_node [OF d(1) lt, of ?n 4096 1] by (simp add: registry_reborn_def d fresh_node_def)
  show "r_NodePool registry_reborn \<noteq> null" "r_NodeCapacity registry_reborn = 2"
    using registry_demo1_pool by (simp_all add: registry_reborn_def with_node_def d) (simp add: registry_dead_def set_node_def)
qed

section \<open>Properties\<close>

text \<open>
  C1: Destroying the last object of a live block through its handle succeeds without a violation: the
  bytes of the object become tombstones, and the block joins the quarantine with its recorded size
  and the current epoch. From then on every dereference of the handle, by any thread, traps as
  \<open>UseAfterFree\<close>, and every further \<open>destroy\<close> of it changes nothing and is reported: as \<open>DoubleFree\<close>, or as
  \<open>ThreadOwnership\<close> when the policy is strict and the caller a foreign thread.
\<close>

theorem destroyed_handle_is_caught:
  assumes ok: "region_ready (p_os P) r w reg" and slot: "nodeFor r reg h = Some (Some slot)"
    and hold: "reg_holds reg (n_BlockBase (r_nodes reg ! slot)) slot"
    and live: "n_State (r_nodes reg ! slot) = SLive" "n_LiveCount (r_nodes reg ! slot) = 1"
    and pol: "p_policy P = Strict \<longrightarrow> currentThreadID (c_anchor c) = n_ThreadID (r_nodes reg ! slot)"
    and h: "h_Generation h \<noteq> 0" "h_PayloadPtr h \<noteq> null"
    and apart: "\<And>a u. in_range a (h_PayloadPtr h) sizeT \<Longrightarrow> a \<noteq> rg_ShadowBlobPtr r + drop_bit SHADOW_SCALE u"
  shows "\<exists>w1. region_destroy P r w c sizeT dtor h = Ret w1 True \<and> w_viol w1 = w_viol w
    \<and> (\<forall>a. in_range a (h_PayloadPtr h) sizeT \<longrightarrow> w_mem w1 a = TOMBSTONE)
    \<and> q_list (k_queue (rt_core (w_rt w1))) = q_list (k_queue (rt_core (w_rt w))) @
        [\<lparr>e_BlockSize = n_BlockSize (r_nodes reg ! slot), e_Epoch = k_epoch (rt_core (w_rt w)),
          e_Allocator = rg_AllocatorSupport r, e_DeallocThunk = Some (support_thunk P),
          e_OwningRegistry = rg_AllocationRegistry r, e_BlockBase = n_BlockBase (r_nodes reg ! slot)\<rparr>]
    \<and> (\<forall>c'. handle_ptr w1 c' h = Trap (report w1 c' UseAfterFree (h_PayloadPtr h) (h_PayloadPtr h) 0))
    \<and> (\<forall>c' n d. region_destroy P r w1 c' n d h =
        Ret (report w1 c'
          (if p_policy P = Strict \<and> currentThreadID (c_anchor c') \<noteq> n_ThreadID (r_nodes reg ! slot)
           then ThreadOwnership else DoubleFree) (h_PayloadPtr h) (n_BlockBase (r_nodes reg ! slot)) n) False)"
proof -
  have inv: "reg_inv reg" using ok by (simp add: region_ready_def)
  let ?n = "(r_nodes reg ! slot)\<lparr>n_DtorLock := False, n_State := SQuarantine, n_LiveCount := 0\<rparr>"
  obtain w1 reg3 where w1: "region_destroy P r w c sizeT dtor h = Ret w1 True" "w_viol w1 = w_viol w"
      "w_infos w1 = (w_infos w)(h_MetaPtr h := (w_infos w (h_MetaPtr h))\<lparr>ai_Generation := 0\<rparr>)"
      "q_list (k_queue (rt_core (w_rt w1))) = q_list (k_queue (rt_core (w_rt w))) @
        [\<lparr>e_BlockSize = n_BlockSize (r_nodes reg ! slot), e_Epoch = k_epoch (rt_core (w_rt w)),
          e_Allocator = rg_AllocatorSupport r, e_DeallocThunk = Some (support_thunk P),
          e_OwningRegistry = rg_AllocationRegistry r, e_BlockBase = n_BlockBase (r_nodes reg ! slot)\<rparr>]"
    and r3: "k_regs (rt_core (w_rt w1)) (rg_AllocationRegistry r) = Some reg3" "reg_inv reg3"
      "reg_holds reg3 (n_BlockBase (r_nodes reg ! slot)) slot" "r_nodes reg3 = (r_nodes reg)[slot := ?n]"
      "nodeFor r reg3 h = nodeFor r reg h"
    and mem: "\<And>a. (\<And>u. a \<noteq> rg_ShadowBlobPtr r + drop_bit SHADOW_SCALE u)
      \<Longrightarrow> w_mem w1 a = mem_set (dtor (w_mem w) (h_PayloadPtr h)) (h_PayloadPtr h) TOMBSTONE sizeT a"
    by (rule region_destroy_final [OF ok slot hold live pol, where sizeT = sizeT and dtor = dtor]) blast
  note nd = nodeFor_SomeD [OF slot inv]
  have node3: "r_nodes reg3 ! slot = ?n" using nd(2) by (simp add: r3(4))
  have slot3: "nodeFor r reg3 h = Some (Some slot)" using r3(5) slot by simp
  have tomb: "w_mem w1 a = TOMBSTONE" if "in_range a (h_PayloadPtr h) sizeT" for a
    using mem [OF apart [OF that]] that by (simp add: mem_set_def)
  have uaf: "handle_ptr w1 c' h = Trap (report w1 c' UseAfterFree (h_PayloadPtr h) (h_PayloadPtr h) 0)" for c'
    using h nd(1) by (simp add: handle_ptr_def handle_check_def w1(3))
  have again: "region_destroy P r w1 c' n d h =
        Ret (report w1 c'
          (if p_policy P = Strict \<and> currentThreadID (c_anchor c') \<noteq> n_ThreadID (r_nodes reg ! slot)
           then ThreadOwnership else DoubleFree) (h_PayloadPtr h) (n_BlockBase (r_nodes reg ! slot)) n) False"
    for c' n d
  proof -
    have base: "n_BlockBase (r_nodes reg3 ! slot) = n_BlockBase (r_nodes reg ! slot)" by (simp add: node3)
    have no: "n_State (r_nodes reg3 ! i) \<noteq> SLive" if "reg_holds reg3 (n_BlockBase (r_nodes reg3 ! slot)) i" for i
    proof -
      have "slot = i" using reg_holds_unique [OF r3(2) r3(3)] that unfolding base by blast
      then show ?thesis using node3 by auto
    qed
    show ?thesis
      using region_destroy_refused [OF r3(1,2) slot3, of P c' n d] no
      by (simp add: base) (simp add: node3 destroy_kind_def Let_def)
  qed
  show ?thesis using w1 tomb uaf again by blast
qed

theorem destroyed_handle_is_caught_witness:
  "\<exists>w1. region_destroy type_demo region_demo (world_demo registry_demo1) caller_example 64 (\<lambda>m p. m) (handle_demo 0 3)
      = Ret w1 True
    \<and> handle_ptr w1 caller_example (handle_demo 0 3) = Trap (report w1 caller_example UseAfterFree 4160 4160 0)
    \<and> region_destroy type_demo region_demo w1 caller_example 64 (\<lambda>m p. m) (handle_demo 0 3)
      = Ret (report w1 caller_example DoubleFree 4160 4096 64) False"
proof -
  have ok: "region_ready (p_os type_demo) region_demo (world_demo registry_demo1) registry_demo1"
    by (rule demo_ready [OF registry_demo1_inv])
  have slot: "nodeFor region_demo registry_demo1 (handle_demo 0 3) = Some (Some 0)"
    by (rule nodeFor_demo) (simp_all add: registry_demo1_pool)
  show ?thesis
    using destroyed_handle_is_caught [OF ok slot, of caller_example 64 "\<lambda>m p. m"] registry_demo1_holds demo_apart
    by (auto simp: registry_demo1_node type_demo_def handle_demo_def)
qed

text \<open>
  C22: A second \<open>destroy\<close> is not caught when the address has been allocated again: \<open>destroy\<close> goes from the
  handle to its old record and from there by address to the live one, without a look at the
  generation. It succeeds, reports nothing, and puts the new owner's block into the quarantine, while the
  new owner's handle still passes its check: from now on it is a use after free that is not detected.
\<close>

theorem stale_destroy_hits_new_block:
  assumes ok: "region_ready (p_os P) r w reg" and slot: "nodeFor r reg h = Some (Some slot)"
    and dead: "n_State (r_nodes reg ! slot) = SDead"
    and new: "reg_holds reg (n_BlockBase (r_nodes reg ! slot)) i" "n_State (r_nodes reg ! i) = SLive"
      "n_LiveCount (r_nodes reg ! i) = 1"
    and pol: "p_policy P = Strict \<longrightarrow> currentThreadID (c_anchor c) = n_ThreadID (r_nodes reg ! i)"
    and h2: "h_MetaPtr h2 \<noteq> h_MetaPtr h" "ai_Generation (w_infos w (h_MetaPtr h2)) = h_Generation h2"
  shows "\<exists>w1 reg1. region_destroy P r w c sizeT dtor h = Ret w1 True \<and> w_viol w1 = w_viol w
    \<and> k_regs (rt_core (w_rt w1)) (rg_AllocationRegistry r) = Some reg1
    \<and> n_State (r_nodes reg1 ! i) = SQuarantine
    \<and> map e_BlockBase (q_list (k_queue (rt_core (w_rt w1))))
      = map e_BlockBase (q_list (k_queue (rt_core (w_rt w)))) @ [n_BlockBase (r_nodes reg ! i)]
    \<and> handle_ptr w1 c2 h2 = Ret w1 (h_PayloadPtr h2)"
proof -
  have inv: "reg_inv reg" using ok by (simp add: region_ready_def)
  have il: "i < length (r_nodes reg)" using new(1) reg_used_le [OF inv] by (simp add: reg_holds_def)
  have base: "n_BlockBase (r_nodes reg ! i) = n_BlockBase (r_nodes reg ! slot)"
    using new(1) by (simp add: reg_holds_def)
  let ?n = "(r_nodes reg ! i)\<lparr>n_DtorLock := False, n_State := SQuarantine, n_LiveCount := 0\<rparr>"
  obtain w1 reg3 where w1: "region_destroy P r w c sizeT dtor h = Ret w1 True" "w_viol w1 = w_viol w"
      "k_regs (rt_core (w_rt w1)) (rg_AllocationRegistry r) = Some reg3"
      "r_nodes reg3 = (r_nodes reg)[i := ?n]"
      "w_infos w1 = (w_infos w)(h_MetaPtr h := (w_infos w (h_MetaPtr h))\<lparr>ai_Generation := 0\<rparr>)"
      "q_list (k_queue (rt_core (w_rt w1))) = q_list (k_queue (rt_core (w_rt w))) @
        [\<lparr>e_BlockSize = n_BlockSize (r_nodes reg ! i), e_Epoch = k_epoch (rt_core (w_rt w)),
          e_Allocator = rg_AllocatorSupport r, e_DeallocThunk = Some (support_thunk P),
          e_OwningRegistry = rg_AllocationRegistry r, e_BlockBase = n_BlockBase (r_nodes reg ! slot)\<rparr>]"
    by (rule region_destroy_final [OF ok slot new pol, where sizeT = sizeT and dtor = dtor]) blast
  have "handle_ptr w1 c2 h2 = Ret w1 (h_PayloadPtr h2)"
    using h2 by (simp add: handle_ptr_def handle_check_def w1(5))
  then show ?thesis using w1(1-3) il
    by (intro exI [of _ w1] exI [of _ reg3]) (simp add: w1(4,6) base)
qed

theorem stale_destroy_hits_new_block_witness:
  "\<exists>w1. region_destroy type_demo region_demo (world_demo registry_reborn) caller_example 64 (\<lambda>m p. m) (handle_demo 0 1)
      = Ret w1 True
    \<and> map e_BlockBase (q_list (k_queue (rt_core (w_rt w1)))) = [4096]
    \<and> handle_ptr w1 caller_example (handle_demo 1 3) = Ret w1 4160"
proof -
  note f = registry_reborn_facts
  have ok: "region_ready (p_os type_demo) region_demo (world_demo registry_reborn) registry_reborn"
    by (rule demo_ready [OF f(1)])
  have slot: "nodeFor region_demo registry_reborn (handle_demo 0 1) = Some (Some 0)"
    by (rule nodeFor_demo) (simp_all add: f)
  have other: "h_MetaPtr (handle_demo 1 3) \<noteq> h_MetaPtr (handle_demo 0 1)"
    by (simp add: handle_demo_def sizeof_AccessInfo_def)
  have valid: "ai_Generation (w_infos (world_demo registry_reborn) (h_MetaPtr (handle_demo 1 3)))
      = h_Generation (handle_demo 1 3)" by (simp add: world_demo_simps handle_demo_def)
  have base: "n_BlockBase (r_nodes registry_reborn ! 1) = 4096" using f(2) by (simp add: reg_holds_def)
  have hold: "reg_holds registry_reborn (n_BlockBase (r_nodes registry_reborn ! 0)) 1" using f(2,4) by simp
  have "p_policy type_demo = Flexible" by (simp add: type_demo_def)
  then show ?thesis
    using stale_destroy_hits_new_block [OF ok slot f(3) hold f(5,6) _ other valid,
        of caller_example 64 "\<lambda>m p. m" caller_example]
    by (auto simp: base [simplified] world_demo_simps queue_demo_inv handle_demo_def)
qed

text \<open>
  C25: \<open>construct\<close> on a handle of the region: a misaligned payload is refused and reported with the
  block's base, a payload that is not inside the region is refused silently, and in every other case the
  constructor runs, after the shadow bits of the object have been cleared wherever the shadow is
  resident. Neither the state of the block nor the generation of the handle plays any part, so a
  destroyed block waiting in the quarantine can be constructed in again without a report.
\<close>

theorem construct_exact:
  assumes reg: "k_regs (rt_core (w_rt w)) (rg_AllocationRegistry r) = Some reg" "reg_inv reg"
    and slot: "nodeFor r reg h = Some (Some slot)" and blob: "rg_ShadowBlobPtr r \<noteq> null"
  shows "if h_PayloadPtr h mod alignT \<noteq> 0
    then region_construct P r w c sizeT alignT ctor h
      = Ret (report w c AlignmentViolation (h_PayloadPtr h) (n_BlockBase (r_nodes reg ! slot)) sizeT) False
    else if \<not> region_contains r (h_PayloadPtr h) sizeT
    then region_construct P r w c sizeT alignT ctor h = Ret w False
    else (\<exists>m. region_construct P r w c sizeT alignT ctor h = Ret (w\<lparr>w_mem := ctor m (h_PayloadPtr h)\<rparr>) True
      \<and> (\<forall>k. shadow_bit m (rg_ShadowBlobPtr r) k \<longleftrightarrow> shadow_bit (w_mem w) (rg_ShadowBlobPtr r) k
            \<and> \<not> (touched (h_PayloadPtr h - rg_RegionBase r) sizeT k
                 \<and> queryPage (p_os P) (k_env (rt_core (w_rt w)))
                     (rg_ShadowBlobPtr r + drop_bit SHADOW_SCALE k) = PageCommitted)))"
proof -
  note nd = nodeFor_SomeD(2) [OF slot reg(2)]
  consider (misaligned) "h_PayloadPtr h mod alignT \<noteq> 0"
    | (outside) "h_PayloadPtr h mod alignT = 0" "\<not> region_contains r (h_PayloadPtr h) sizeT"
    | (good) "h_PayloadPtr h mod alignT = 0" "region_contains r (h_PayloadPtr h) sizeT"
    by (cases "h_PayloadPtr h mod alignT = 0"; cases "region_contains r (h_PayloadPtr h) sizeT") auto
  then show ?thesis
  proof cases
    case good
    obtain m where m: "setShadow (p_os P) r w (h_PayloadPtr h) sizeT False = Some (w\<lparr>w_mem := m\<rparr>, True)"
      using setShadow_total [OF good(2) blob, of False] by auto
    have "region_construct P r w c sizeT alignT ctor h = Ret (w\<lparr>w_mem := ctor m (h_PayloadPtr h)\<rparr>) True"
      using good reg slot m by (simp add: region_construct_def)
    then have "\<exists>m. region_construct P r w c sizeT alignT ctor h = Ret (w\<lparr>w_mem := ctor m (h_PayloadPtr h)\<rparr>) True
      \<and> (\<forall>k. shadow_bit m (rg_ShadowBlobPtr r) k \<longleftrightarrow> shadow_bit (w_mem w) (rg_ShadowBlobPtr r) k
            \<and> \<not> (touched (h_PayloadPtr h - rg_RegionBase r) sizeT k
                 \<and> queryPage (p_os P) (k_env (rt_core (w_rt w)))
                     (rg_ShadowBlobPtr r + drop_bit SHADOW_SCALE k) = PageCommitted))"
      using setShadow_bits [OF m, THEN conjunct2, THEN conjunct1] by (intro exI [of _ m]) auto
    then show ?thesis using good by simp
  qed (use reg slot nd in \<open>simp_all add: region_construct_def setShadow_refuses\<close>)
qed

theorem construct_exact_witness:
  "\<exists>m. region_construct type_demo region_demo (world_demo registry_reborn) caller_example 64 16 (\<lambda>m p. m(p := 7)) (handle_demo 0 1)
      = Ret ((world_demo registry_reborn)\<lparr>w_mem := m(4160 := 7)\<rparr>) True \<and> \<not> shadow_bit m 524288 64"
proof -
  note f = registry_reborn_facts
  have slot: "nodeFor region_demo registry_reborn (handle_demo 0 1) = Some (Some 0)"
    by (rule nodeFor_demo) (simp_all add: f)
  have k: "k_regs (rt_core (w_rt (world_demo registry_reborn))) (rg_AllocationRegistry region_demo) = Some registry_reborn"
    by (simp add: world_demo_simps region_demo_simps)
  have blob: "rg_ShadowBlobPtr region_demo \<noteq> null" by (simp add: region_demo_simps)
  have c: "region_contains region_demo 4160 64" by (simp add: region_contains_def region_demo_simps)
  have page: "queryPage os_resident () (524288 + drop_bit SHADOW_SCALE 64) = PageCommitted"
    by (simp add: queryPage_def os_resident_def SHADOW_SCALE_def Let_def)
  have "touched 64 64 64" by (simp add: touched_def)
  then show ?thesis
    using construct_exact [OF k f(1) slot blob, of 16 type_demo caller_example 64 "\<lambda>m p. m(p := 7)"] c page
    by (auto simp: handle_demo_def type_demo_def region_demo_simps world_demo_simps)
qed

end
