(* ===== verification/Kerbecs_RegionAlloc.thy ===== *)
theory Kerbecs_RegionAlloc
  imports Kerbecs_RegionUse
begin

text \<open>
  \<open>Region::allocate\<close>. What it needs of the allocator it is given is the locale \<open>region_allocator\<close>: handing
  out memory leaves the registries, the \<open>AccessInfo\<close> slots and the violation stacks alone. The locale
  is interpreted on the example type here and on the two zone allocators of the static regions in
  \<open>Kerbecs_Static\<close>.
\<close>

section \<open>The paths of allocate\<close>

lemma region_allocate_success:
  assumes run: "region_allocate P r w c sizeT alignT n va = Ret w' h" and ne: "h \<noteq> handle_null"
  obtains w1 block ofs m w2 reg reg' st slot where
    "\<not> n > (- 1) div sizeT"
    "a_allocate P w (layout_blockSize (p_layout P) (n * sizeT) (max va alignT)) (max va alignT) = Some (w1, block)"
    "layout_place (p_layout P) (w_mem w1) block (layout_blockSize (p_layout P) (n * sizeT) (max va alignT))
       (n * sizeT) (max va alignT) = (ofs, m)"
    "setShadow (p_os P) r (w1\<lparr>w_mem := m\<rparr>) (block + layout_userData ofs) (n * sizeT) True = Some (w2, True)"
    "k_regs (rt_core (w_rt w2)) (rg_AllocationRegistry r) = Some reg"
    "registry_insert reg (k_stats (rt_core (w_rt w2))) block (block + layout_userData ofs)
       (layout_blockSize (p_layout P) (n * sizeT) (max va alignT)) (n * sizeT) (rg_Allocator r)
       (currentThreadID (c_anchor c)) null n = Some (reg', st, True)"
    "registry_find reg' block = Some (Some slot)"
    "w' = (set_reg (set_core w2 ((rt_core (w_rt w2))\<lparr>k_stats := st\<rparr>)) (rg_AllocationRegistry r) (Some reg'))
       \<lparr>w_infos := (w_infos w2)(rg_MetadataMapBase r + of_nat slot * sizeof_AccessInfo :=
          \<lparr>ai_UserSize = n * sizeT, ai_Generation = n_Generation (r_nodes reg' ! slot)\<rparr>)\<rparr>"
    "h = \<lparr>h_MetaPtr = rg_MetadataMapBase r + of_nat slot * sizeof_AccessInfo,
        h_PayloadPtr = block + layout_userData ofs,
        h_ShadowPtr = rg_ShadowBlobPtr r + drop_bit SHADOW_SCALE (block + layout_userData ofs - rg_RegionBase r),
        h_Generation = n_Generation (r_nodes reg' ! slot)\<rparr>"
  using run ne
  by (auto simp: region_allocate_def Let_def support_allocate_def env_simps split: if_splits option.splits prod.splits)

lemma count_fits:
  assumes "\<not> n > (- 1) div (sizeT :: u64)"
  shows "unat (n * sizeT) = unat n * unat sizeT"
proof -
  have "unat n \<le> 18446744073709551615 div unat sizeT"
    using assms by (simp add: not_less word_le_nat_alt unat_div unat_minus_one_64)
  then have "unat n * unat sizeT \<le> 18446744073709551615 div unat sizeT * unat sizeT"
    by (rule mult_le_mono1)
  also have "\<dots> \<le> 18446744073709551615" by simp
  finally show ?thesis by (simp add: unat_word_ariths)
qed

lemma count_overflows:
  assumes "sizeT \<noteq> (0 :: u64)"
  shows "n > (- 1) div sizeT \<longleftrightarrow> 2 ^ 64 \<le> unat n * unat sizeT"
proof
  assume "n > (- 1) div sizeT"
  then have "18446744073709551615 div unat sizeT < unat n"
    by (simp add: word_less_nat_alt unat_div unat_minus_one_64)
  then have "18446744073709551615 div unat sizeT * unat sizeT + unat sizeT \<le> unat n * unat sizeT"
    by (metis Suc_leI add.commute mult_Suc mult_le_mono1)
  moreover have "18446744073709551615 < 18446744073709551615 div unat sizeT * unat sizeT + unat sizeT"
    using assms by (metis div_mult_mod_eq mod_less_divisor nat_add_left_cancel_less unat_gt_0)
  ultimately show "2 ^ 64 \<le> unat n * unat sizeT" by simp
next
  assume over: "2 ^ 64 \<le> unat n * unat sizeT"
  show "n > (- 1) div sizeT"
  proof (rule ccontr)
    assume "\<not> n > (- 1) div sizeT"
    from count_fits [OF this] have "unat n * unat sizeT < 18446744073709551616" using unat_lt_64 [of "n * sizeT"] by simp
    then show False using over by simp
  qed
qed

section \<open>The allocator a region relies on\<close>

locale region_allocator =
  fixes P :: "'e region_type"
  assumes allocate_keeps: "a_allocate P w n al = Some (w', p) \<Longrightarrow>
      k_regs (rt_core (w_rt w')) = k_regs (rt_core (w_rt w)) \<and> w_infos w' = w_infos w \<and> w_viol w' = w_viol w"
begin

text \<open>The registry that \<open>insert\<close> works on is the one from before the call.\<close>

lemma registry_reached:
  assumes "a_allocate P w n al = Some (w1, block)"
    and "setShadow (p_os P) r (w1\<lparr>w_mem := m\<rparr>) p k v = Some (w2, ok)"
  shows "k_regs (rt_core (w_rt w2)) = k_regs (rt_core (w_rt w))" and "w_infos w2 = w_infos w"
    and "w_viol w2 = w_viol w"
  using setShadow_frame(1,2,4) [OF assms(2)] allocate_keeps [OF assms(1)] by simp_all

lemma allocate_sound:
  assumes run: "region_allocate P r w c sizeT alignT n va = Ret w' h" and ne: "h \<noteq> handle_null"
    and reg: "k_regs (rt_core (w_rt w)) (rg_AllocationRegistry r) = Some reg" and inv: "reg_inv reg"
  shows "\<exists>reg' slot. k_regs (rt_core (w_rt w')) (rg_AllocationRegistry r) = Some reg' \<and> reg_inv reg'
    \<and> (\<forall>i. \<not> reg_holds reg (n_BlockBase (r_nodes reg' ! slot)) i)
    \<and> reg_holds reg' (n_BlockBase (r_nodes reg' ! slot)) slot
    \<and> n_State (r_nodes reg' ! slot) = SLive \<and> n_LiveCount (r_nodes reg' ! slot) = n
    \<and> n_UserPtr (r_nodes reg' ! slot) = h_PayloadPtr h \<and> n_UserSize (r_nodes reg' ! slot) = n * sizeT
    \<and> n_ThreadID (r_nodes reg' ! slot) = currentThreadID (c_anchor c)
    \<and> unat (n * sizeT) = unat n * unat sizeT \<and> region_contains r (h_PayloadPtr h) (n * sizeT)
    \<and> h_MetaPtr h = rg_MetadataMapBase r + of_nat slot * sizeof_AccessInfo
    \<and> h_Generation h = n_Generation (r_nodes reg' ! slot)
    \<and> w_infos w' (h_MetaPtr h) = \<lparr>ai_UserSize = n * sizeT, ai_Generation = h_Generation h\<rparr>
    \<and> (\<forall>k. touched (h_PayloadPtr h - rg_RegionBase r) (n * sizeT) k
          \<longrightarrow> shadow_bit (w_mem w') (rg_ShadowBlobPtr r) k)
    \<and> w_viol w' = w_viol w"
proof -
  obtain w1 block ofs m w2 reg2 reg' st slot where count: "\<not> n > (- 1) div sizeT"
    and alloc: "a_allocate P w (layout_blockSize (p_layout P) (n * sizeT) (max va alignT)) (max va alignT) = Some (w1, block)"
    and sh: "setShadow (p_os P) r (w1\<lparr>w_mem := m\<rparr>) (block + layout_userData ofs) (n * sizeT) True = Some (w2, True)"
    and reg2: "k_regs (rt_core (w_rt w2)) (rg_AllocationRegistry r) = Some reg2"
    and ins: "registry_insert reg2 (k_stats (rt_core (w_rt w2))) block (block + layout_userData ofs)
       (layout_blockSize (p_layout P) (n * sizeT) (max va alignT)) (n * sizeT) (rg_Allocator r)
       (currentThreadID (c_anchor c)) null n = Some (reg', st, True)"
    and find: "registry_find reg' block = Some (Some slot)"
    and w': "w' = (set_reg (set_core w2 ((rt_core (w_rt w2))\<lparr>k_stats := st\<rparr>)) (rg_AllocationRegistry r) (Some reg'))
       \<lparr>w_infos := (w_infos w2)(rg_MetadataMapBase r + of_nat slot * sizeof_AccessInfo :=
          \<lparr>ai_UserSize = n * sizeT, ai_Generation = n_Generation (r_nodes reg' ! slot)\<rparr>)\<rparr>"
    and h: "h = \<lparr>h_MetaPtr = rg_MetadataMapBase r + of_nat slot * sizeof_AccessInfo,
        h_PayloadPtr = block + layout_userData ofs,
        h_ShadowPtr = rg_ShadowBlobPtr r + drop_bit SHADOW_SCALE (block + layout_userData ofs - rg_RegionBase r),
        h_Generation = n_Generation (r_nodes reg' ! slot)\<rparr>"
    by (rule region_allocate_success [OF run ne])
  have same: "reg2 = reg" using reg2 reg registry_reached(1) [OF alloc sh] by simp
  note bits = setShadow_bits [OF sh]
  show ?thesis
  proof (rule registry_insert_cases [OF inv ins [unfolded same]])
    fix g
    let ?n = "fresh_node reg g block (block + layout_userData ofs)
       (layout_blockSize (p_layout P) (n * sizeT) (max va alignT)) (n * sizeT) (rg_Allocator r)
       (currentThreadID (c_anchor c)) null n"
    assume a: "block \<noteq> null" "\<And>i. \<not> reg_holds reg block i" "r_NodeCursor reg < r_NodeCapacity reg"
      "1 \<le> g" "unat g \<le> Suc (reg_used reg)"
      "\<And>i. i < reg_used reg \<Longrightarrow> n_BlockBase (r_nodes reg ! i) = block \<Longrightarrow> n_Generation (r_nodes reg ! i) < g"
      "Some (reg', st, True) = Some (with_node reg ?n, statsOnInit
         (layout_blockSize (p_layout P) (n * sizeT) (max va alignT)) (k_stats (rt_core (w_rt w2))), True)"
    have r': "reg' = with_node reg ?n" using a(7) by simp
    have inv': "reg_inv reg'" unfolding r' by (rule reg_inv_with_node [OF inv a(1,3,2,4,5,6)])
    have nf: "n_BlockBase ?n = block" "n_State ?n = SLive" "n_LiveCount ?n = n" "n_UserSize ?n = n * sizeT"
      "n_UserPtr ?n = block + layout_userData ofs" "n_ThreadID ?n = currentThreadID (c_anchor c)"
      by (simp_all add: fresh_node_def)
    have "reg_holds reg' block (reg_used reg)"
      unfolding r' using reg_holds_with_node [OF inv a(3), of ?n block] nf by simp
    moreover have hold: "reg_holds reg' block slot" using find tbl.find_Some_iff [OF inv'] by blast
    ultimately have "slot = reg_used reg" using reg_holds_unique [OF inv'] by blast
    then have node: "r_nodes reg' ! slot = ?n" using with_node_nth(1) [OF inv a(3), of ?n] by (simp add: r')
    show ?thesis
      using inv' hold a(2) nf bits count_fits [OF count] registry_reached(3) [OF alloc sh]
      by (intro exI [of _ reg'] exI [of _ slot]) (simp add: w' h node env_simps)
  qed simp_all
qed

lemma allocate_refused_infos:
  assumes run: "region_allocate P r w c sizeT alignT n va = Ret w' handle_null"
  shows "w_infos w' = w_infos w"
proof -
  have keep: "\<And>w n al w' p. a_allocate P w n al = Some (w', p) \<Longrightarrow> w_infos w' = w_infos w"
    using allocate_keeps by blast
  show ?thesis
    using run
    by (auto simp: region_allocate_def Let_def support_allocate_def env_simps handle_null_def
        split: if_splits option.splits prod.splits dest!: setShadow_frame(1) keep dest: region_contains_offset(3))
qed

text \<open>A granted handle points to the slot of the record that \<open>insert\<close> has added, and only that slot is written.\<close>

lemma allocate_infos:
  assumes run: "region_allocate P r w c sizeT alignT n va = Ret w' h"
    and reg: "k_regs (rt_core (w_rt w)) (rg_AllocationRegistry r) = Some reg" and inv: "reg_inv reg"
  shows "w_infos w' = w_infos w \<or> reg_used reg < unat (r_NodeCapacity reg)
    \<and> (\<exists>x. w_infos w' = (w_infos w)(rg_MetadataMapBase r + of_nat (reg_used reg) * sizeof_AccessInfo := x))"
proof (cases "h = handle_null")
  case True
  then show ?thesis using allocate_refused_infos run by blast
next
  case False
  obtain w1 block ofs m w2 reg2 reg' st slot where
    alloc: "a_allocate P w (layout_blockSize (p_layout P) (n * sizeT) (max va alignT)) (max va alignT) = Some (w1, block)"
    and sh: "setShadow (p_os P) r (w1\<lparr>w_mem := m\<rparr>) (block + layout_userData ofs) (n * sizeT) True = Some (w2, True)"
    and reg2: "k_regs (rt_core (w_rt w2)) (rg_AllocationRegistry r) = Some reg2"
    and ins: "registry_insert reg2 (k_stats (rt_core (w_rt w2))) block (block + layout_userData ofs)
       (layout_blockSize (p_layout P) (n * sizeT) (max va alignT)) (n * sizeT) (rg_Allocator r)
       (currentThreadID (c_anchor c)) null n = Some (reg', st, True)"
    and find: "registry_find reg' block = Some (Some slot)"
    and w': "w' = (set_reg (set_core w2 ((rt_core (w_rt w2))\<lparr>k_stats := st\<rparr>)) (rg_AllocationRegistry r) (Some reg'))
       \<lparr>w_infos := (w_infos w2)(rg_MetadataMapBase r + of_nat slot * sizeof_AccessInfo :=
          \<lparr>ai_UserSize = n * sizeT, ai_Generation = n_Generation (r_nodes reg' ! slot)\<rparr>)\<rparr>"
    by (rule region_allocate_success [OF run False])
  have same: "reg2 = reg" using reg2 reg registry_reached(1) [OF alloc sh] by simp
  show ?thesis
  proof (rule registry_insert_cases [OF inv ins [unfolded same]])
    fix g
    let ?n = "fresh_node reg g block (block + layout_userData ofs)
       (layout_blockSize (p_layout P) (n * sizeT) (max va alignT)) (n * sizeT) (rg_Allocator r)
       (currentThreadID (c_anchor c)) null n"
    assume a: "block \<noteq> null" "\<And>i. \<not> reg_holds reg block i" "r_NodeCursor reg < r_NodeCapacity reg"
      "1 \<le> g" "unat g \<le> Suc (reg_used reg)"
      "\<And>i. i < reg_used reg \<Longrightarrow> n_BlockBase (r_nodes reg ! i) = block \<Longrightarrow> n_Generation (r_nodes reg ! i) < g"
      "Some (reg', st, True) = Some (with_node reg ?n, statsOnInit
         (layout_blockSize (p_layout P) (n * sizeT) (max va alignT)) (k_stats (rt_core (w_rt w2))), True)"
    have r': "reg' = with_node reg ?n" using a(7) by simp
    have inv': "reg_inv reg'" unfolding r' by (rule reg_inv_with_node [OF inv a(1,3,2,4,5,6)])
    have "reg_holds reg' block (reg_used reg)"
      unfolding r' using reg_holds_with_node [OF inv a(3), of ?n block] by (simp add: fresh_node_def)
    moreover have "reg_holds reg' block slot" using find tbl.find_Some_iff [OF inv'] by blast
    ultimately have "slot = reg_used reg" using reg_holds_unique [OF inv'] by blast
    moreover have "reg_used reg < unat (r_NodeCapacity reg)"
      using a(3) with_node_used(1) [OF a(3)] by (simp add: word_less_nat_alt)
    ultimately show ?thesis using registry_reached(2) [OF alloc sh] by (auto simp: w')
  qed simp_all
qed

end

text \<open>The example type hands out one address and leaves the world as it is.\<close>

interpretation demo_alloc: region_allocator type_demo
  by unfold_locales (auto simp: type_demo_def)

section \<open>Properties\<close>

text \<open>
  C2: Whenever \<open>allocate\<close> returns a handle, the allocation is complete and consistent: the byte count has
  not wrapped, the payload lies inside the region and every shadow bit of it is poisoned; the
  registry, in which no live record had that base, now has a live one with the payload address, size,
  object count and thread of the call; the handle points to the \<open>AccessInfo\<close> of that record, which has
  its size and generation; no violation was reported, and the handle passes its check on every thread.
\<close>

theorem region_allocate_sound:
  assumes "region_allocator P" and "region_allocate P r w c sizeT alignT n va = Ret w' h" and "h \<noteq> handle_null"
    and "k_regs (rt_core (w_rt w)) (rg_AllocationRegistry r) = Some reg" and "reg_inv reg"
  shows "\<exists>reg' slot. k_regs (rt_core (w_rt w')) (rg_AllocationRegistry r) = Some reg' \<and> reg_inv reg'
    \<and> (\<forall>i. \<not> reg_holds reg (n_BlockBase (r_nodes reg' ! slot)) i)
    \<and> reg_holds reg' (n_BlockBase (r_nodes reg' ! slot)) slot
    \<and> n_State (r_nodes reg' ! slot) = SLive \<and> n_LiveCount (r_nodes reg' ! slot) = n
    \<and> n_UserPtr (r_nodes reg' ! slot) = h_PayloadPtr h \<and> n_UserSize (r_nodes reg' ! slot) = n * sizeT
    \<and> n_ThreadID (r_nodes reg' ! slot) = currentThreadID (c_anchor c)
    \<and> unat (n * sizeT) = unat n * unat sizeT \<and> region_contains r (h_PayloadPtr h) (n * sizeT)
    \<and> h_MetaPtr h = rg_MetadataMapBase r + of_nat slot * sizeof_AccessInfo
    \<and> h_Generation h = n_Generation (r_nodes reg' ! slot)
    \<and> ai_UserSize (w_infos w' (h_MetaPtr h)) = n * sizeT
    \<and> (\<forall>k. touched (h_PayloadPtr h - rg_RegionBase r) (n * sizeT) k
          \<longrightarrow> shadow_bit (w_mem w') (rg_ShadowBlobPtr r) k)
    \<and> w_viol w' = w_viol w \<and> (\<forall>c'. handle_ptr w' c' h = Ret w' (h_PayloadPtr h))"
proof -
  obtain reg' slot where all: "k_regs (rt_core (w_rt w')) (rg_AllocationRegistry r) = Some reg' \<and> reg_inv reg'
    \<and> (\<forall>i. \<not> reg_holds reg (n_BlockBase (r_nodes reg' ! slot)) i)
    \<and> reg_holds reg' (n_BlockBase (r_nodes reg' ! slot)) slot
    \<and> n_State (r_nodes reg' ! slot) = SLive \<and> n_LiveCount (r_nodes reg' ! slot) = n
    \<and> n_UserPtr (r_nodes reg' ! slot) = h_PayloadPtr h \<and> n_UserSize (r_nodes reg' ! slot) = n * sizeT
    \<and> n_ThreadID (r_nodes reg' ! slot) = currentThreadID (c_anchor c)
    \<and> unat (n * sizeT) = unat n * unat sizeT \<and> region_contains r (h_PayloadPtr h) (n * sizeT)
    \<and> h_MetaPtr h = rg_MetadataMapBase r + of_nat slot * sizeof_AccessInfo
    \<and> h_Generation h = n_Generation (r_nodes reg' ! slot)
    \<and> w_infos w' (h_MetaPtr h) = \<lparr>ai_UserSize = n * sizeT, ai_Generation = h_Generation h\<rparr>
    \<and> (\<forall>k. touched (h_PayloadPtr h - rg_RegionBase r) (n * sizeT) k
          \<longrightarrow> shadow_bit (w_mem w') (rg_ShadowBlobPtr r) k)
    \<and> w_viol w' = w_viol w"
    using region_allocator.allocate_sound [OF assms] by blast
  then have info: "w_infos w' (h_MetaPtr h) = \<lparr>ai_UserSize = n * sizeT, ai_Generation = h_Generation h\<rparr>" by blast
  have "handle_ptr w' c' h = Ret w' (h_PayloadPtr h)" for c'
    by (simp add: handle_ptr_def handle_check_def info)
  with all info show ?thesis by (intro exI [of _ reg'] exI [of _ slot]) simp
qed

text \<open>A run on the example: one object of 64 bytes, in the second record.\<close>

lemma insert_holds:
  assumes inv: "reg_inv reg" and p: "p \<noteq> null" and none: "\<And>i. \<not> reg_holds reg p i"
    and lt: "r_NodeCursor reg < r_NodeCapacity reg"
  shows "\<exists>reg'. registry_insert reg st p u bs us aid tid nm cnt = Some (reg', statsOnInit bs st, True)
    \<and> reg_inv reg' \<and> (\<exists>i. reg_holds reg' p i)"
proof (rule registry_insert_succeeds [OF inv p none lt, of st u bs us aid tid nm cnt])
  fix g
  let ?n = "fresh_node reg g p u bs us aid tid nm cnt"
  assume g: "1 \<le> g" "unat g \<le> Suc (reg_used reg)"
    "\<And>i. i < reg_used reg \<Longrightarrow> n_BlockBase (r_nodes reg ! i) = p \<Longrightarrow> n_Generation (r_nodes reg ! i) < g"
    and ins: "registry_insert reg st p u bs us aid tid nm cnt = Some (with_node reg ?n, statsOnInit bs st, True)"
  have "reg_holds (with_node reg ?n) p (reg_used reg)"
    using reg_holds_with_node [OF inv lt, of ?n p] by (simp add: fresh_node_def)
  with ins reg_inv_with_node [OF inv p lt none g] show ?thesis by blast
qed

lemma demo_allocates:
  "\<exists>w' h. region_allocate type_demo region_demo (world_demo registry_demo1) caller_example 64 16 1 16 = Ret w' h
    \<and> h_PayloadPtr h = 8208"
proof -
  let ?w = "world_demo registry_demo1"
  obtain ofs m where pl: "layout_place NormalLayout (w_mem ?w) 8192 128 64 16 = (ofs, m)"
    by (cases "layout_place NormalLayout (w_mem ?w) 8192 128 64 16")
  have u: "layout_userData ofs = 16"
    using pl by (auto simp: Normal_place_def Let_def alignUp_def REDZONE_SIZE_def split: prod.splits)
  have bs: "layout_blockSize NormalLayout 64 16 = 128"
    by (simp add: Normal_blockSize_def alignUp_def layout_consts Let_def)
  have c: "region_contains region_demo 8208 64" by (simp add: region_contains_def region_demo_simps)
  have "shadow_resident os_resident (k_env (rt_core (w_rt (?w\<lparr>w_mem := m\<rparr>)))) region_demo"
    using demo_resident by simp
  then obtain m2 where sh: "setShadow os_resident region_demo (?w\<lparr>w_mem := m\<rparr>) 8208 64 True
      = Some (?w\<lparr>w_mem := m2\<rparr>, True)"
    using setShadow_total [OF c, of True os_resident "?w\<lparr>w_mem := m\<rparr>"] by (auto simp: region_demo_simps)
  have cursor: "r_NodeCursor registry_demo1 = 1" "r_NodeCapacity registry_demo1 = 2"
    by (simp_all add: registry_demo1_def with_node_def registry_demo_def registry_new_def)
  have none: "\<not> reg_holds registry_demo1 8192 i" for i
    by (cases "i = 0") (simp_all add: reg_holds_def registry_demo1_used registry_demo1_node)
  obtain reg' where ins: "registry_insert registry_demo1 stats_zero 8192 8208 128 64 (rg_Allocator region_demo)
      (currentThreadID (c_anchor caller_example)) null 1 = Some (reg', statsOnInit 128 stats_zero, True)"
      and inv': "reg_inv reg'" and hold: "\<exists>i. reg_holds reg' 8192 i"
    using insert_holds [OF registry_demo1_inv _ none, of stats_zero 8208 128 64 "rg_Allocator region_demo"
        "currentThreadID (c_anchor caller_example)" null 1] cursor by auto
  then obtain i where "registry_find reg' 8192 = Some (Some i)" using tbl.find_Some_iff [OF inv'] by blast
  then show ?thesis
    using pl u bs c sh ins
    by (simp add: region_allocate_def support_allocate_def Let_def type_demo_def world_demo_simps region_demo_simps
        max_def region_demo_def region_example_def)
qed

theorem region_allocate_sound_witness:
  "\<exists>w' h. region_allocate type_demo region_demo (world_demo registry_demo1) caller_example 64 16 1 16 = Ret w' h
    \<and> region_contains region_demo (h_PayloadPtr h) 64 \<and> w_viol w' = w_viol (world_demo registry_demo1)
    \<and> handle_ptr w' caller_example h = Ret w' 8208"
proof -
  obtain w' h where run: "region_allocate type_demo region_demo (world_demo registry_demo1) caller_example 64 16 1 16 = Ret w' h"
    and p: "h_PayloadPtr h = 8208" using demo_allocates by blast
  have ne: "h \<noteq> handle_null" using p by (auto simp: handle_null_def)
  have k: "k_regs (rt_core (w_rt (world_demo registry_demo1))) (rg_AllocationRegistry region_demo) = Some registry_demo1"
    by (simp add: world_demo_simps region_demo_simps)
  show ?thesis
    using region_allocate_sound [OF demo_alloc.region_allocator_axioms run ne k registry_demo1_inv] run p
    by (intro exI [of _ w'] exI [of _ h]) auto
qed

text \<open>
  C21: \<open>allocate\<close> turns down exactly the requests whose sizes overflow, with a \<open>SizeOverflow\<close> report and
  without asking the allocator: first a byte count of the objects that does not fit in 64 bits, then a
  block (guards, metadata and padding included) that does not. Any other request reaches the
  allocator with the true size of the block, and when the allocator has no memory the result is an
  empty handle without a report.
\<close>

theorem allocate_overflow_exact:
  assumes "rg_Initialized r" and "rg_RegionBase r \<noteq> null" and "n \<noteq> 0" and "sizeT \<noteq> 0"
    and al: "is_pow2 (max va alignT)"
  shows "if 2 ^ 64 \<le> unat n * unat sizeT
    then region_allocate P r w c sizeT alignT n va = Ret (report w c SizeOverflow null null n) handle_null
    else if 2 ^ 64 \<le> layout_size_nat (p_layout P) (unat n * unat sizeT) (unat (max va alignT))
    then region_allocate P r w c sizeT alignT n va = Ret (report w c SizeOverflow null null (n * sizeT)) handle_null
    else (\<exists>bs. unat bs = layout_size_nat (p_layout P) (unat n * unat sizeT) (unat (max va alignT))
      \<and> (a_allocate P w bs (max va alignT) = Some (w1, null) \<longrightarrow>
          region_allocate P r w c sizeT alignT n va = Ret w1 handle_null)
      \<and> (a_allocate P w bs (max va alignT) = None \<longrightarrow> region_allocate P r w c sizeT alignT n va = Undefined))"
proof -
  have count: "n > (- 1) div sizeT \<longleftrightarrow> 2 ^ 64 \<le> unat n * unat sizeT"
    using count_overflows [OF assms(4)] by simp
  show ?thesis
  proof (cases "2 ^ 64 \<le> unat n * unat sizeT")
    case True
    then show ?thesis using assms count by (simp add: region_allocate_def)
  next
    case False
    then have lt: "\<not> n > (- 1) div sizeT" using count by simp
    note bytes = count_fits [OF lt]
    have fits: "layout_blockSize (p_layout P) (n * sizeT) (max va alignT) < n * sizeT
        \<longleftrightarrow> 2 ^ 64 \<le> layout_size_nat (p_layout P) (unat n * unat sizeT) (unat (max va alignT))"
      using layout_fits_iff [OF al, of "p_layout P" "n * sizeT"] al
      unfolding layout_fits_def bytes [symmetric] not_less [symmetric] by blast
    show ?thesis
    proof (cases "2 ^ 64 \<le> layout_size_nat (p_layout P) (unat n * unat sizeT) (unat (max va alignT))")
      case True
      then show ?thesis using False assms lt fits by (simp add: region_allocate_def Let_def)
    next
      case small: False
      have "layout_fits (p_layout P) (n * sizeT) (max va alignT)"
        using small al by (simp add: layout_fits_def bytes)
      then have "unat (layout_blockSize (p_layout P) (n * sizeT) (max va alignT))
          = layout_size_nat (p_layout P) (unat n * unat sizeT) (unat (max va alignT))"
        by (simp add: layout_size_unat bytes)
      then show ?thesis using False small assms lt fits
        by (simp add: region_allocate_def Let_def support_allocate_def)
          (intro exI [of _ "layout_blockSize (p_layout P) (n * sizeT) (max va alignT)"], simp)
    qed
  qed
qed

theorem allocate_overflow_exact_witness:
  "region_allocate type_demo region_demo (world_demo registry_demo1) caller_example 64 16 (2 ^ 60) 16
      = Ret (report (world_demo registry_demo1) caller_example SizeOverflow null null (2 ^ 60)) handle_null
    \<and> region_allocate type_demo region_demo (world_demo registry_demo1) caller_example 1 1 (- 8) 1
      = Ret (report (world_demo registry_demo1) caller_example SizeOverflow null null (- 8)) handle_null"
proof -
  have r: "rg_Initialized region_demo" "rg_RegionBase region_demo \<noteq> null"
    by (simp_all add: region_demo_def region_example_def)
  have al: "is_pow2 (max 16 16)" "is_pow2 (max 1 1)" by (simp_all add: is_pow2_def)
  have n: "unat (- 8 :: u64) = 18446744073709551608" "unat (1152921504606846976 :: u64) = 1152921504606846976" by simp_all
  have lay: "p_layout type_demo = NormalLayout" by (simp add: type_demo_def)
  show ?thesis
    using allocate_overflow_exact [OF r _ _ al(1), of "2 ^ 60" 64 type_demo "world_demo registry_demo1" caller_example]
      allocate_overflow_exact [OF r _ _ al(2), of "- 8" 1 type_demo "world_demo registry_demo1" caller_example]
    by (simp add: n lay Normal_size_nat_def align_nat_def)
qed

end
