(* ===== verification/Kerbecs_RegionLife.thy ===== *)
theory Kerbecs_RegionLife
  imports Kerbecs_RegionAlloc
begin

text \<open>
  The constructor and the destructor of \<open>Region\<close> (\<open>src/Public/Region.h\<close>): what an initialised region
  owns, which regions can never hand out a handle, and what the end of one region does to the blocks
  of all the others that wait in the quarantine they share.
\<close>

section \<open>The constructor\<close>

lemma runtime_init_regs:
  assumes "runtime_init os c rt = Ret rt' ok"
  shows "k_regs (rt_core rt') = k_regs (rt_core rt)"
  using assms by (auto simp: runtime_init_def Let_def split: if_splits prod.splits)

lemma zone_calls_regs:
  "shadowzoneAllocate rt n = (rt', p) \<Longrightarrow> rt_core rt' = rt_core rt"
  "metadataZoneAllocate os rt n al = Some (rt', p) \<Longrightarrow> k_regs (rt_core rt') = k_regs (rt_core rt)"
  "runtime_registerRegion c rt a b d n e = Some (rt', ok) \<Longrightarrow>
     \<exists>t. rt' = rt\<lparr>rt_table := t\<rparr>"
  by (auto simp: shadowzoneAllocate_def metadataZoneAllocate_def runtime_registerRegion_def
      split: prod.splits option.splits)

lemma region_ctor_fields:
  assumes "region_ctor P w self support registry a sz cap base = Ret w' r"
  shows "rg_Size r = sz \<and> rg_RegionBase r = base \<and> rg_AllocationRegistry r = registry
    \<and> rg_AllocatorSupport r = support \<and> rg_Allocator r = a \<and> rg_this r = self"
  using assms
  by (auto simp: region_ctor_def Let_def split: if_splits outcome.splits option.splits prod.splits)

text \<open>A constructor that fails says so only through \<open>initialized\<close>.\<close>

lemma region_ctor_reports_nothing:
  assumes "region_ctor P w self support registry a sz cap base = Ret w' r"
  shows "w_viol w' = w_viol w"
  using assms
  by (auto simp: region_ctor_def Let_def env_simps split: if_splits outcome.splits option.splits prod.splits)

lemma region_ctor_success:
  assumes run: "region_ctor P w self support registry a sz cap base = Ret w' r" and ok: "rg_Initialized r"
  obtains rt1 rt2 rt3 e reg rt4 where
    "runtime_init (p_os P) (p_config P) (w_rt (set_reg w registry (Some (registry_new cap)))) = Ret rt1 True"
    "drop_bit SHADOW_SCALE (sz + (push_bit SHADOW_SCALE 1 - 1)) \<noteq> 0" "cap \<noteq> 0" "\<not> cap > (- 1) div sizeof_AccessInfo"
    "shadowzoneAllocate rt1 (drop_bit SHADOW_SCALE (sz + (push_bit SHADOW_SCALE 1 - 1))) = (rt2, rg_ShadowBlobPtr r)"
    "metadataZoneAllocate (p_os P) rt2 (cap * sizeof_AccessInfo) alignof_AccessInfo = Some (rt3, rg_MetadataMapBase r)"
    "rg_ShadowBlobPtr r \<noteq> null" "rg_MetadataMapBase r \<noteq> null"
    "registry_init (p_os P) (k_env (rt_core rt3)) (registry_new cap) = (e, reg, True)"
    "runtime_registerRegion (p_config P)
       (w_rt (set_reg (set_env (w\<lparr>w_rt := rt3\<rparr>) e) registry (Some reg))) self (rg_ShadowBlobPtr r)
       (rg_MetadataMapBase r) sz base = Some (rt4, True)"
    "w' = (set_reg (set_env (w\<lparr>w_rt := rt3\<rparr>) e) registry (Some reg))\<lparr>w_rt := rt4\<rparr>"
proof -
  let ?w0 = "set_reg w registry (Some (registry_new cap))"
  have k: "k_regs (rt_core (w_rt ?w0)) registry = Some (registry_new cap)" by (simp add: env_simps)
  have same: "?w0\<lparr>w_rt := x\<rparr> = w\<lparr>w_rt := x\<rparr>" for x by (simp add: set_reg_def set_core_def)
  obtain rt1 where i: "runtime_init (p_os P) (p_config P) (w_rt ?w0) = Ret rt1 True"
    using run ok by (auto simp: region_ctor_def Let_def split: if_splits outcome.splits)
  obtain rt2 blob where s: "shadowzoneAllocate rt1 (drop_bit SHADOW_SCALE (sz + (push_bit SHADOW_SCALE 1 - 1))) = (rt2, blob)"
    by (cases "shadowzoneAllocate rt1 (drop_bit SHADOW_SCALE (sz + (push_bit SHADOW_SCALE 1 - 1)))")
  obtain rt3 meta where m: "metadataZoneAllocate (p_os P) rt2 (cap * sizeof_AccessInfo) alignof_AccessInfo = Some (rt3, meta)"
    using run ok by (auto simp: region_ctor_def Let_def i s [simplified] split: if_splits option.splits)
  have "k_regs (rt_core rt3) registry = Some (registry_new cap)"
    using k runtime_init_regs [OF i] zone_calls_regs(1) [OF s] zone_calls_regs(2) [OF m] by simp
  then have "\<exists>e reg rt4. rg_ShadowBlobPtr r = blob \<and> rg_MetadataMapBase r = meta
    \<and> drop_bit SHADOW_SCALE (sz + (push_bit SHADOW_SCALE 1 - 1)) \<noteq> 0 \<and> cap \<noteq> 0 \<and> \<not> cap > (- 1) div sizeof_AccessInfo
    \<and> blob \<noteq> null \<and> meta \<noteq> null
    \<and> registry_init (p_os P) (k_env (rt_core rt3)) (registry_new cap) = (e, reg, True)
    \<and> runtime_registerRegion (p_config P)
       (w_rt (set_reg (set_env (w\<lparr>w_rt := rt3\<rparr>) e) registry (Some reg))) self blob meta sz base = Some (rt4, True)
    \<and> w' = (set_reg (set_env (w\<lparr>w_rt := rt3\<rparr>) e) registry (Some reg))\<lparr>w_rt := rt4\<rparr>"
    using run ok
    by (auto simp: region_ctor_def Let_def same i s [simplified] m split: if_splits option.splits prod.splits)
  then show thesis using that i s m by blast
qed

lemma shadow_blob_bytes:
  assumes n0: "drop_bit SHADOW_SCALE (sz + (push_bit SHADOW_SCALE 1 - 1)) \<noteq> (0 :: u64)" and "unat u < unat sz"
  shows "in_range (blob + drop_bit SHADOW_SCALE u) blob (drop_bit SHADOW_SCALE (sz + (push_bit SHADOW_SCALE 1 - 1)))"
proof -
  have c: "push_bit SHADOW_SCALE 1 - 1 = (7 :: u64)" by (simp add: SHADOW_SCALE_def)
  have "unat (sz + 7) = unat sz + 7"
  proof (rule ccontr)
    assume no: "unat (sz + 7) \<noteq> unat sz + 7"
    have "\<not> unat sz + 7 < 18446744073709551616"
      using no unat_plus_nowrap [of sz 7] by (intro notI) simp
    then have "unat (sz + 7) = unat sz + 7 - 18446744073709551616" using unat_plus_wrap [of sz 7] by simp
    then have "unat (sz + 7) < 8" using unat_lt_64 [of sz] by linarith
    then have "unat (drop_bit SHADOW_SCALE (sz + 7)) = 0" unfolding unat_drop_scale by simp
    then show False using n0 unfolding c by (simp add: unat_eq_zero)
  qed
  then have "unat u div 8 < unat (sz + 7) div 8" using assms(2) by simp
  then show ?thesis unfolding c in_range_base unat_drop_scale [symmetric] by simp
qed

text \<open>The areas that a zone allocator grants to a region.\<close>

lemma zone_grant:
  assumes "bump_ok ba" and "request_ok (ba_size ba) n al" and "bumpReserve ba n al = (ba', p)" and "p \<noteq> null"
  shows "\<And>x. in_range x p n \<Longrightarrow> \<not> bump_used ba x \<and> bump_used ba' x" and "unat n \<le> unat (ba_size ba)"
proof -
  show "\<not> bump_used ba x \<and> bump_used ba' x" if "in_range x p n" for x
    using arena.alloc_fresh [OF assms that] .
  show "unat n \<le> unat (ba_size ba)"
    by (rule bumpReserve_cases [OF assms(1-3)]) (use assms(4) in simp_all)
qed

section \<open>The state after a successful construction\<close>

lemma region_ctor_core:
  assumes run: "region_ctor P w self support registry a sz cap base = Ret w' r" and ok: "rg_Initialized r"
    and up: "rt_Initialized (w_rt w)" and cap: "unat cap < 2 ^ 56"
  obtains reg where "reg_inv reg" and "reg_used reg = 0" and "r_NodePool reg \<noteq> null" and "r_NodeCapacity reg = cap"
    and "k_regs (rt_core (w_rt w')) = (k_regs (rt_core (w_rt w)))(registry := Some reg)"
    and "k_queue (rt_core (w_rt w')) = k_queue (rt_core (w_rt w))"
    and "k_epoch (rt_core (w_rt w')) = k_epoch (rt_core (w_rt w))"
    and "k_stats (rt_core (w_rt w')) = k_stats (rt_core (w_rt w))"
proof (rule region_ctor_success [OF run ok])
  fix rt1 rt2 rt3 e reg rt4
  let ?w0 = "set_reg w registry (Some (registry_new cap))"
  assume i: "runtime_init (p_os P) (p_config P) (w_rt ?w0) = Ret rt1 True"
    and s: "shadowzoneAllocate rt1 (drop_bit SHADOW_SCALE (sz + (push_bit SHADOW_SCALE 1 - 1))) = (rt2, rg_ShadowBlobPtr r)"
    and m: "metadataZoneAllocate (p_os P) rt2 (cap * sizeof_AccessInfo) alignof_AccessInfo = Some (rt3, rg_MetadataMapBase r)"
    and n: "registry_init (p_os P) (k_env (rt_core rt3)) (registry_new cap) = (e, reg, True)"
    and t: "runtime_registerRegion (p_config P)
       (w_rt (set_reg (set_env (w\<lparr>w_rt := rt3\<rparr>) e) registry (Some reg))) self (rg_ShadowBlobPtr r)
       (rg_MetadataMapBase r) sz base = Some (rt4, True)"
    and w': "w' = (set_reg (set_env (w\<lparr>w_rt := rt3\<rparr>) e) registry (Some reg))\<lparr>w_rt := rt4\<rparr>"
  have "rt_Initialized (w_rt ?w0)" using up by (simp add: set_reg_def set_core_def)
  then have rt1: "rt1 = w_rt ?w0" using i by (simp add: runtime_init_def)
  obtain e' where "rt_core rt3 = (rt_core (w_rt ?w0))\<lparr>k_env := e'\<rparr>"
    using m zone_calls_regs(1) [OF s] rt1 by (auto simp: metadataZoneAllocate_def split: option.splits)
  moreover have "rt_core rt4 = (rt_core rt3)\<lparr>k_env := e, k_regs := (k_regs (rt_core rt3))(registry := Some reg)\<rparr>"
    using zone_calls_regs(3) [OF t] by (auto simp: env_simps)
  ultimately have core: "k_regs (rt_core rt4) = (k_regs (rt_core (w_rt w)))(registry := Some reg)"
    "k_queue (rt_core rt4) = k_queue (rt_core (w_rt w))" "k_epoch (rt_core rt4) = k_epoch (rt_core (w_rt w))"
    "k_stats (rt_core rt4) = k_stats (rt_core (w_rt w))"
    by (simp_all add: env_simps)
  have "reg_used reg = 0" "r_NodePool reg \<noteq> null" "r_NodeCapacity reg = cap"
    using n by (auto simp: registry_init_def registry_new_def reg_used_def Let_def split: if_splits prod.splits)
  with registry_init_inv [OF n cap] show thesis using core by (intro that) (simp_all add: w')
qed

lemma region_ctor_zones:
  assumes run: "region_ctor P w self support registry a sz cap base = Ret w' r" and ok: "rg_Initialized r"
    and up: "rt_Initialized (w_rt w)"
  shows "rt_Initialized (w_rt w')" and "rt_StaticAllocatorImpl (w_rt w') = rt_StaticAllocatorImpl (w_rt w)"
    and "rt_GlobalAllocatorImpl (w_rt w') = rt_GlobalAllocatorImpl (w_rt w)"
    and "rt_GlobalZone (w_rt w') = rt_GlobalZone (w_rt w)" and "w_infos w' = w_infos w"
proof -
  let ?w0 = "set_reg w registry (Some (registry_new cap))"
  let ?same = "\<lambda>rt rt'. rt_Initialized rt' = rt_Initialized rt \<and> rt_StaticAllocatorImpl rt' = rt_StaticAllocatorImpl rt
    \<and> rt_GlobalAllocatorImpl rt' = rt_GlobalAllocatorImpl rt \<and> rt_GlobalZone rt' = rt_GlobalZone rt"
  have "?same (w_rt w) (w_rt w') \<and> w_infos w' = w_infos w"
  proof (rule region_ctor_success [OF run ok])
    fix rt1 rt2 rt3 e reg rt4
    assume i: "runtime_init (p_os P) (p_config P) (w_rt ?w0) = Ret rt1 True"
      and s: "shadowzoneAllocate rt1 (drop_bit SHADOW_SCALE (sz + (push_bit SHADOW_SCALE 1 - 1))) = (rt2, rg_ShadowBlobPtr r)"
      and m: "metadataZoneAllocate (p_os P) rt2 (cap * sizeof_AccessInfo) alignof_AccessInfo = Some (rt3, rg_MetadataMapBase r)"
      and t: "runtime_registerRegion (p_config P)
         (w_rt (set_reg (set_env (w\<lparr>w_rt := rt3\<rparr>) e) registry (Some reg))) self (rg_ShadowBlobPtr r)
         (rg_MetadataMapBase r) sz base = Some (rt4, True)"
      and w': "w' = (set_reg (set_env (w\<lparr>w_rt := rt3\<rparr>) e) registry (Some reg))\<lparr>w_rt := rt4\<rparr>"
    have "?same (w_rt w) (w_rt ?w0)" "rt_Initialized (w_rt ?w0)" using up by (simp_all add: set_reg_def set_core_def)
    then have 1: "?same (w_rt w) rt1" using i by (simp add: runtime_init_def)
    have 2: "?same rt1 rt2" using s by (auto simp: shadowzoneAllocate_def split: prod.splits)
    have 3: "?same rt2 rt3" using m by (auto simp: metadataZoneAllocate_def split: option.splits)
    have "?same rt3 rt4" using zone_calls_regs(3) [OF t] by (auto simp: set_reg_def set_env_def set_core_def)
    with 1 2 3 show ?thesis by (simp add: w' env_simps)
  qed
  with up show "rt_Initialized (w_rt w')" "rt_StaticAllocatorImpl (w_rt w') = rt_StaticAllocatorImpl (w_rt w)"
    "rt_GlobalAllocatorImpl (w_rt w') = rt_GlobalAllocatorImpl (w_rt w)"
    "rt_GlobalZone (w_rt w') = rt_GlobalZone (w_rt w)" "w_infos w' = w_infos w" by simp_all
qed

section \<open>Properties\<close>

text \<open>
  C29: A region that its constructor has initialised owns what it needs: a well-formed registry with no
  record and the capacity asked for, a shadow byte for every byte of its logical range and an
  \<open>AccessInfo\<close> slot for every record, all of them in parts of the two zones that were unused before
  and are used now. It also keeps its base as given: with the default, a null base, every \<open>allocate\<close>
  of the initialised region returns an empty handle, without a report.
\<close>

theorem region_ctor_exact:
  fixes w :: "'e world"
  defines "SZ \<equiv> \<lambda>w :: 'e world. rt_ShadowzoneAllocatorImpl (w_rt w)"
    and "MZ \<equiv> \<lambda>w :: 'e world. rt_MetadataZoneAllocatorImpl (w_rt w)"
  assumes run: "region_ctor P w self support registry a sz cap base = Ret w' r" and init: "rg_Initialized r"
    and up: "rt_Initialized (w_rt w)" and ok: "bump_ok (SZ w)" "bump_ok (MZ w)"
    and req: "request_ok (ba_size (SZ w)) (drop_bit SHADOW_SCALE (sz + (push_bit SHADOW_SCALE 1 - 1))) alignof_max_align_t"
      "request_ok (ba_size (MZ w)) (cap * sizeof_AccessInfo) alignof_AccessInfo"
    and small: "unat (ba_size (MZ w)) < 2 ^ 60"
  shows "(\<exists>reg. k_regs (rt_core (w_rt w')) registry = Some reg \<and> reg_inv reg \<and> reg_used reg = 0
      \<and> r_NodeCapacity reg = cap \<and> r_NodePool reg \<noteq> null)
    \<and> rg_ShadowBlobPtr r \<noteq> null \<and> rg_MetadataMapBase r \<noteq> null
    \<and> (\<forall>u. unat u < unat sz \<longrightarrow> \<not> bump_used (SZ w) (rg_ShadowBlobPtr r + drop_bit SHADOW_SCALE u)
          \<and> bump_used (SZ w') (rg_ShadowBlobPtr r + drop_bit SHADOW_SCALE u))
    \<and> unat (cap * sizeof_AccessInfo) = unat cap * 16
    \<and> (\<forall>x. in_range x (rg_MetadataMapBase r) (cap * sizeof_AccessInfo)
          \<longrightarrow> \<not> bump_used (MZ w) x \<and> bump_used (MZ w') x)
    \<and> (base = null \<longrightarrow> (\<forall>w2 c s al n va. region_allocate P r w2 c s al n va = Ret w2 handle_null))"
proof -
  let ?w0 = "set_reg w registry (Some (registry_new cap))"
  let ?n = "drop_bit SHADOW_SCALE (sz + (push_bit SHADOW_SCALE 1 - 1))"
  obtain rt1 rt2 rt3 e reg rt4 where
    i: "runtime_init (p_os P) (p_config P) (w_rt ?w0) = Ret rt1 True"
    and n0: "?n \<noteq> 0" and cap: "cap \<noteq> 0" "\<not> cap > (- 1) div sizeof_AccessInfo"
    and s: "shadowzoneAllocate rt1 ?n = (rt2, rg_ShadowBlobPtr r)"
    and m: "metadataZoneAllocate (p_os P) rt2 (cap * sizeof_AccessInfo) alignof_AccessInfo = Some (rt3, rg_MetadataMapBase r)"
    and nn: "rg_ShadowBlobPtr r \<noteq> null" "rg_MetadataMapBase r \<noteq> null"
    and ri: "registry_init (p_os P) (k_env (rt_core rt3)) (registry_new cap) = (e, reg, True)"
    and rr: "runtime_registerRegion (p_config P)
       (w_rt (set_reg (set_env (w\<lparr>w_rt := rt3\<rparr>) e) registry (Some reg))) self (rg_ShadowBlobPtr r)
       (rg_MetadataMapBase r) sz base = Some (rt4, True)"
    and w': "w' = (set_reg (set_env (w\<lparr>w_rt := rt3\<rparr>) e) registry (Some reg))\<lparr>w_rt := rt4\<rparr>"
    by (rule region_ctor_success [OF run init])
  have rt1: "rt1 = w_rt ?w0" using i up by (simp add: runtime_init_def set_reg_def set_core_def)
  have z1: "rt_ShadowzoneAllocatorImpl rt1 = SZ w" "rt_MetadataZoneAllocatorImpl rt1 = MZ w"
    by (simp_all add: rt1 SZ_def MZ_def set_reg_def set_core_def)
  have sr: "bumpReserve (SZ w) ?n alignof_max_align_t = (rt_ShadowzoneAllocatorImpl rt2, rg_ShadowBlobPtr r)"
    and z2: "rt_MetadataZoneAllocatorImpl rt2 = MZ w"
    using s z1 unfolding shadowzoneAllocate_def Shadowzone_allocate_def by (auto split: prod.splits)
  have mr: "bumpReserve (MZ w) (cap * sizeof_AccessInfo) alignof_AccessInfo
      = (rt_MetadataZoneAllocatorImpl rt3, rg_MetadataMapBase r)"
    and z3: "rt_ShadowzoneAllocatorImpl rt3 = rt_ShadowzoneAllocatorImpl rt2"
    using m z2 nn(2)
    by (auto simp: metadataZoneAllocate_def MetadataZone_allocate_def Bump_allocate_def Let_def
        split: prod.splits option.splits if_splits)
  obtain t where "rt4 = (w_rt (set_reg (set_env (w\<lparr>w_rt := rt3\<rparr>) e) registry (Some reg)))\<lparr>rt_table := t\<rparr>"
    using zone_calls_regs(3) [OF rr] by blast
  then have z4: "SZ w' = rt_ShadowzoneAllocatorImpl rt2" "MZ w' = rt_MetadataZoneAllocatorImpl rt3"
    and regs: "k_regs (rt_core (w_rt w')) registry = Some reg"
    by (simp_all add: w' SZ_def MZ_def z3 set_reg_def set_env_def set_core_def)
  have bytes: "unat (cap * sizeof_AccessInfo) = unat cap * 16"
    using count_fits [OF cap(2)] by (simp add: sizeof_AccessInfo_def)
  have "unat cap < 2 ^ 56" using zone_grant(2) [OF ok(2) req(2) mr nn(2)] small unfolding bytes by simp
  then have "reg_inv reg" by (rule registry_init_inv [OF ri])
  moreover have "reg_used reg = 0 \<and> r_NodeCapacity reg = cap \<and> r_NodePool reg \<noteq> null"
    using ri by (auto simp: registry_init_def registry_new_def reg_used_def Let_def split: if_splits prod.splits)
  moreover have "region_allocate P r w2 c k al n va = Ret w2 handle_null" if "base = null" for w2 c k al n va
    using region_ctor_fields [OF run] that by (simp add: region_allocate_def)
  ultimately show ?thesis
    using regs nn bytes zone_grant(1) [OF ok(1) req(1) sr nn(1) shadow_blob_bytes [OF n0]]
      zone_grant(1) [OF ok(2) req(2) mr nn(2)] unfolding z4 by blast
qed

text \<open>An initialised runtime with a shadow zone of 1 MiB and a metadata zone of 64 KiB.\<close>

definition world_up :: "unit world" where
  "world_up = world_example\<lparr>w_rt := (runtime_new ())\<lparr>rt_Initialized := True,
     rt_ShadowzoneAllocatorImpl := \<lparr>ba_base = 16777216, ba_size = 1048576, ba_bump = 0\<rparr>,
     rt_MetadataZoneAllocatorImpl := \<lparr>ba_base = 33554432, ba_size = 65536, ba_bump = 0\<rparr>,
     rt_table := \<lparr>t_Records = 4096, t_records = [region_record_zero, region_record_zero], t_Count = 0,
       t_RegisterLock = False\<rparr>\<rparr>\<rparr>"

lemma os_gives: "mem_allocate os_resident e n = (e, 1048576)"
  by (simp add: mem_allocate_def os_resident_def)

lemma demo_meta:
  assumes "rt_MetadataZoneAllocatorImpl rt = \<lparr>ba_base = 33554432, ba_size = 65536, ba_bump = 0\<rparr>"
  shows "metadataZoneAllocate os_resident rt 32 16 = Some (rt
      \<lparr>rt_MetadataZoneAllocatorImpl := \<lparr>ba_base = 33554432, ba_size = 65536, ba_bump = 32\<rparr>\<rparr>, 33554432)"
proof -
  have pg: "pageOf 33554432 = 33554432" "pageOf 33554463 = 33554432" by (simp_all add: pageOf_def PAGE_SIZE_def)
  have "commitPages os_resident () 33554432 33554432 = Some ()"
    by (subst commitPages_eq) (simp_all add: pages_between_def os_resident_commits)
  then show ?thesis
    using assms
    by (simp add: metadataZoneAllocate_def MetadataZone_allocate_def Bump_allocate_def bumpReserve_def alignUp_def pg Let_def)
qed

lemma demo_ctor: "\<exists>w' r. region_ctor type_demo world_up 256 328 384 320 8192 2 null = Ret w' r \<and> rg_Initialized r"
  by (simp add: region_ctor_def type_demo_def Let_def set_reg_def set_env_def set_core_def world_up_def runtime_new_def
      runtime_init_def SHADOW_SCALE_def sizeof_AccessInfo_def alignof_AccessInfo_def shadowzoneAllocate_def
      Shadowzone_allocate_def bumpReserve_def alignUp_def alignof_max_align_t_def demo_meta registry_init_def
      registry_new_def os_gives sizeof_RegistryNode_def runtime_registerRegion_def
      registerRegionRecord_def small_config_def spin_lock_def split_beta)

theorem region_ctor_exact_witness:
  "\<exists>w' r. region_ctor type_demo world_up 256 328 384 320 8192 2 null = Ret w' r \<and> rg_Initialized r
    \<and> bump_used (rt_ShadowzoneAllocatorImpl (w_rt w')) (rg_ShadowBlobPtr r + drop_bit SHADOW_SCALE 8191)
    \<and> region_allocate type_demo r w' caller_example 64 16 1 16 = Ret w' handle_null"
proof -
  obtain w' r where run: "region_ctor type_demo world_up 256 328 384 320 8192 2 null = Ret w' r" "rg_Initialized r"
    using demo_ctor by blast
  have z: "rt_ShadowzoneAllocatorImpl (w_rt world_up) = \<lparr>ba_base = 16777216, ba_size = 1048576, ba_bump = 0\<rparr>"
    "rt_MetadataZoneAllocatorImpl (w_rt world_up) = \<lparr>ba_base = 33554432, ba_size = 65536, ba_bump = 0\<rparr>"
    "rt_Initialized (w_rt world_up)"
    by (simp_all add: world_up_def)
  have "(\<forall>u. unat u < unat (8192 :: u64) \<longrightarrow> bump_used (rt_ShadowzoneAllocatorImpl (w_rt w'))
        (rg_ShadowBlobPtr r + drop_bit SHADOW_SCALE u))
      \<and> (\<forall>w2 c s al n va. region_allocate type_demo r w2 c s al n va = Ret w2 handle_null)"
    using region_ctor_exact [OF run z(3)] unfolding z
    by (simp add: bump_ok_def request_ok_def is_pow2_def SHADOW_SCALE_def sizeof_AccessInfo_def alignof_AccessInfo_def
        alignof_max_align_t_def)
  moreover have "unat (8191 :: u64) < unat (8192 :: u64)" by simp
  ultimately show ?thesis using run by blast
qed

lemma retire_entry_pool:
  assumes "retire_entry k e = Some k'" and "k_regs k a = Some reg"
  shows "\<exists>reg'. k_regs k' a = Some reg' \<and> r_NodePool reg' = r_NodePool reg \<and> r_NodeCapacity reg' = r_NodeCapacity reg"
  using assms
  by (auto simp: retire_entry_def registry_retire_def set_node_def Let_def split: if_splits option.splits)

lemma retire_all_pool:
  assumes "retire_all k es = Some k'" and "k_regs k a = Some reg"
  shows "\<exists>reg'. k_regs k' a = Some reg' \<and> r_NodePool reg' = r_NodePool reg \<and> r_NodeCapacity reg' = r_NodeCapacity reg"
  using assms
proof (induction es arbitrary: k reg)
  case (Cons e es)
  then obtain k1 where k1: "retire_entry k e = Some k1" "retire_all k1 es = Some k'"
    by (auto simp: Option.bind_eq_Some_conv)
  obtain reg1 where "k_regs k1 a = Some reg1" "r_NodePool reg1 = r_NodePool reg" "r_NodeCapacity reg1 = r_NodeCapacity reg"
    using retire_entry_pool [OF k1(1) Cons.prems(2)] by blast
  then show ?case using Cons.IH [OF k1(2)] by metis
qed simp

lemma table_kept: "rt_table (w_rt (set_env w e)) = rt_table (w_rt w)" "rt_table (w_rt (set_reg w a x)) = rt_table (w_rt w)"
  by (simp_all add: set_env_def set_reg_def set_core_simps)

text \<open>
  C30: Destroying a region empties the quarantine that all regions share: whatever their epoch, the waiting
  blocks of every region go back to their allocators, oldest first; then the node pool of this one is
  released and its registry is gone. No violation is reported, even when records are still live, and
  the region's record stays in the table of regions.
\<close>

theorem region_dtor_exact:
  assumes ok: "core_ok (rt_core (w_rt w))" and reg: "k_regs (rt_core (w_rt w)) (rg_AllocationRegistry r) = Some reg"
  shows "\<exists>w'. region_dtor P w r = Some w'
    \<and> q_list (k_queue (rt_core (w_rt w'))) = []
    \<and> k_env (rt_core (w_rt w')) =
        (let e = foldl dealloc_entry (k_env (rt_core (w_rt w))) (q_list (k_queue (rt_core (w_rt w))))
         in if r_NodePool reg = null then e
            else fst (mem_release (p_os P) e (r_NodePool reg) (r_NodeCapacity reg * sizeof_RegistryNode)))
    \<and> dom (k_regs (rt_core (w_rt w'))) = dom (k_regs (rt_core (w_rt w))) - {rg_AllocationRegistry r}
    \<and> k_epoch (rt_core (w_rt w')) = k_epoch (rt_core (w_rt w))
    \<and> w_viol w' = w_viol w \<and> w_infos w' = w_infos w \<and> rt_table (w_rt w') = rt_table (w_rt w)"
proof -
  let ?k = "rt_core (w_rt w)" and ?a = "rg_AllocationRegistry r"
  note all = due_forced [of ?k]
  have inv: "q_inv (k_queue ?k)" and free: "\<not> q_FlushLock (k_queue ?k)" using ok by (simp_all add: core_ok_def)
  obtain k' where k': "queue_flushEligible ?k (- 1) True = Some (k', of_nat (length (due ?k (- 1) True)))"
    "core_ok k'" "q_list (k_queue k') = drop (length (due ?k (- 1) True)) (q_list (k_queue ?k))"
    "k_epoch k' = k_epoch ?k" "k_env k' = foldl dealloc_entry (k_env ?k) (due ?k (- 1) True)"
    "dom (k_regs k') = dom (k_regs ?k)"
    by (rule flush_core [OF ok])
  have "\<exists>reg'. k_regs k' ?a = Some reg' \<and> r_NodePool reg' = r_NodePool reg \<and> r_NodeCapacity reg' = r_NodeCapacity reg"
    using k'(1) retire_all_pool [OF _ reg] flushEligible_eq [OF inv free, of "- 1" True] by auto
  then obtain reg' where reg': "k_regs k' ?a = Some reg'" "r_NodePool reg' = r_NodePool reg"
    "r_NodeCapacity reg' = r_NodeCapacity reg" by blast
  show ?thesis
    using k'(1,3-6) reg'
    by (simp add: region_dtor_def all env_simps table_kept registry_shutdown_def Let_def split_beta)
qed

text \<open>A world with two waiting blocks, the second from an epoch that the drain thread would not touch yet.\<close>

definition world_waiting :: "nat world" where
  "world_waiting = \<lparr>w_rt = demo_runtime, w_mem = (\<lambda>_. 0), w_infos = (\<lambda>_. \<lparr>ai_UserSize = 0, ai_Generation = 0\<rparr>),
     w_viol = (\<lambda>_. vstack_init)\<rparr>"

definition type_nat :: "nat region_type" where
  "type_nat = \<lparr>p_layout = NormalLayout, p_policy = Flexible, p_os = os_nat, p_config = small_config,
     a_allocate = (\<lambda>w n al. Some (w, null)), a_deallocate = (\<lambda>e p n. e)\<rparr>"

theorem region_dtor_exact_witness:
  "\<exists>w'. region_dtor type_nat world_waiting (region_demo\<lparr>rg_AllocationRegistry := 16\<rparr>) = Some w'
    \<and> q_list (k_queue (rt_core (w_rt w'))) = [] \<and> k_env (rt_core (w_rt w')) = 12
    \<and> \<not> eligible False (k_epoch (rt_core (w_rt world_waiting))) (demo_entry 8192 6)"
proof -
  have k: "rt_core (w_rt world_waiting) = demo_core" by (simp add: world_waiting_def demo_runtime_simps)
  have reg: "k_regs demo_core 16 = Some registry_demo" "k_env demo_core = 0" "k_epoch demo_core = 7"
    by (simp_all add: demo_core_def)
  have pool: "r_NodePool registry_demo \<noteq> null" by (simp add: registry_demo_def)
  have "foldl dealloc_entry 0 [demo_entry 4096 5, demo_entry 8192 6] = 2"
    by (simp add: dealloc_entry_def demo_entry_def)
  then show ?thesis
    using region_dtor_exact [of world_waiting "region_demo\<lparr>rg_AllocationRegistry := 16\<rparr>" registry_demo type_nat]
      demo_core_ok pool
    by (auto simp: k reg demo_core_queue type_nat_def os_nat_def mem_release_def eligible_def demo_entry_def Let_def)
qed

end
