(* ===== verification/Kerbecs_Static.thy ===== *)
theory Kerbecs_Static
  imports Kerbecs_RegionLife
begin

text \<open>
  \<open>src/Public/KerbecsStatic.h\<close> and \<open>src/Private/KerbecsStatic.cpp\<close>: the two process-wide regions, each a
  function-local static over a zone allocator of the runtime, and the objects that
  \<open>KERBECS_PERSISTENT\<close> and \<open>KERBECS_GLOBAL\<close> put into them. A function-local static is \<open>None\<close> until its
  function is called for the first time (the language runs its initialiser once, whatever the
  threads), and is part of the state, next to the world. Where the linker puts the static objects and
  the two allocators is a record \<open>static_site\<close>.

  \<open>RegionFn\<close>, the template argument that names one of the two functions, is a function argument. The
  handle variable of an object, \<open>name\<close> in the macros, is the result of \<open>static_init\<close> and the argument of
  \<open>KerbecsDestructor_dtor\<close>; \<open>None\<close> is a null \<open>m_Handle\<close>.
\<close>

record static_site =
  ss_Region :: addr
  ss_Support :: addr
  ss_Registry :: addr
  ss_Allocator :: addr

type_synonym 'e static_world = "'e world \<times> region option"
type_synonym 'e region_fn = "'e static_world \<Rightarrow> ('e static_world, region) outcome"

section \<open>The allocators of the two regions\<close>

definition static_zone_allocate :: "'e os_api \<Rightarrow> 'e world \<Rightarrow> u64 \<Rightarrow> u64 \<Rightarrow> ('e world \<times> addr) option" where
  "static_zone_allocate os w v_Bytes v_Align =
     (let rt = w_rt w
      in (case Static_allocate os (k_env (rt_core rt)) (rt_StaticAllocatorImpl rt) v_Bytes v_Align of
            None \<Rightarrow> None
          | Some (e, ba, p) \<Rightarrow>
              Some (w\<lparr>w_rt := rt\<lparr>rt_StaticAllocatorImpl := ba, rt_core := (rt_core rt)\<lparr>k_env := e\<rparr>\<rparr>\<rparr>, p)))"

definition global_zone_allocate :: "'e os_api \<Rightarrow> 'e world \<Rightarrow> u64 \<Rightarrow> u64 \<Rightarrow> ('e world \<times> addr) option" where
  "global_zone_allocate os w v_Bytes v_Align =
     (let rt = w_rt w
      in (case Global_allocate os (k_env (rt_core rt)) (rt_GlobalAllocatorImpl rt) v_Bytes v_Align of
            None \<Rightarrow> None
          | Some (e, ba, p) \<Rightarrow>
              Some (w\<lparr>w_rt := rt\<lparr>rt_GlobalAllocatorImpl := ba, rt_core := (rt_core rt)\<lparr>k_env := e\<rparr>\<rparr>\<rparr>, p)))"

text \<open>Their \<open>deallocate\<close> is \<open>BumpAllocatorBase::deallocate\<close>, which does nothing (\<open>Zone_deallocate\<close>).\<close>

definition PersistentRegionT :: "'e os_api \<Rightarrow> config \<Rightarrow> 'e region_type" where
  "PersistentRegionT os c = StaticRegion \<lparr>p_layout = StaticLayout, p_policy = Flexible, p_os = os, p_config = c,
     a_allocate = static_zone_allocate os, a_deallocate = (\<lambda>e p_Block v_Bytes. e)\<rparr>"

definition GlobalRegionT :: "'e os_api \<Rightarrow> config \<Rightarrow> 'e region_type" where
  "GlobalRegionT os c = StaticRegion \<lparr>p_layout = StaticLayout, p_policy = Flexible, p_os = os, p_config = c,
     a_allocate = global_zone_allocate os, a_deallocate = (\<lambda>e p_Block v_Bytes. e)\<rparr>"

section \<open>The two regions\<close>

definition persistentRegion :: "'e os_api \<Rightarrow> config \<Rightarrow> static_site \<Rightarrow> 'e region_fn" where
  "persistentRegion os c site sw =
     (let (w, s_Region) = sw
      in (case runtime_init os c (w_rt w) of
            Trap rt \<Rightarrow> Trap (w\<lparr>w_rt := rt\<rparr>, s_Region)
          | Undefined \<Rightarrow> Undefined
          | Ret rt ready \<Rightarrow>
              let w = w\<lparr>w_rt := rt\<rparr>
              in (case s_Region of
                    Some r \<Rightarrow> Ret (w, s_Region) r
                  | None \<Rightarrow>
                      (case region_ctor (PersistentRegionT os c) w (ss_Region site) (ss_Support site) (ss_Registry site)
                              (ss_Allocator site) (c_STATICZONE_SIZE c * GIBI_BYTE) (c_REGISTRY_CAPACITY c)
                              (rt_StaticZone (w_rt w)) of
                         Trap w \<Rightarrow> Trap (w, None)
                       | Undefined \<Rightarrow> Undefined
                       | Ret w r \<Rightarrow> Ret (w, Some r) r))))"

definition globalRegion :: "'e os_api \<Rightarrow> config \<Rightarrow> static_site \<Rightarrow> 'e region_fn" where
  "globalRegion os c site sw =
     (let (w, s_Region) = sw
      in (case runtime_init os c (w_rt w) of
            Trap rt \<Rightarrow> Trap (w\<lparr>w_rt := rt\<rparr>, s_Region)
          | Undefined \<Rightarrow> Undefined
          | Ret rt ready \<Rightarrow>
              let w = w\<lparr>w_rt := rt\<rparr>
              in (case s_Region of
                    Some r \<Rightarrow> Ret (w, s_Region) r
                  | None \<Rightarrow>
                      (case region_ctor (GlobalRegionT os c) w (ss_Region site) (ss_Support site) (ss_Registry site)
                              (ss_Allocator site) (c_GLOBALZONE_SIZE c * GIBI_BYTE) (c_REGISTRY_CAPACITY c)
                              (rt_GlobalZone (w_rt w)) of
                         Trap w \<Rightarrow> Trap (w, None)
                       | Undefined \<Rightarrow> Undefined
                       | Ret w r \<Rightarrow> Ret (w, Some r) r))))"

section \<open>Static objects\<close>

text \<open>The constructor of the struct that \<open>KERBECS_STATIC_INIT_IMPL\<close> declares; the assertions are off.\<close>

definition static_init ::
  "'e region_type \<Rightarrow> 'e region_fn \<Rightarrow> 'e static_world \<Rightarrow> caller \<Rightarrow> u64 \<Rightarrow> u64 \<Rightarrow> (memory \<Rightarrow> addr \<Rightarrow> memory)
   \<Rightarrow> ('e static_world, handle) outcome" where
  "static_init P region sw c sizeT alignT ctor =
     (case region sw of
        Trap sw \<Rightarrow> Trap sw
      | Undefined \<Rightarrow> Undefined
      | Ret (w, s) r \<Rightarrow>
     (case region_allocate P r w c sizeT alignT 1 alignT of
        Trap w \<Rightarrow> Trap (w, s)
      | Undefined \<Rightarrow> Undefined
      | Ret w name \<Rightarrow>
     (case region (w, s) of
        Trap sw \<Rightarrow> Trap sw
      | Undefined \<Rightarrow> Undefined
      | Ret (w, s) r \<Rightarrow>
     (case region_construct P r w c sizeT alignT ctor name of
        Trap w \<Rightarrow> Trap (w, s)
      | Undefined \<Rightarrow> Undefined
      | Ret w ok \<Rightarrow> Ret (w, s) name))))"

definition KerbecsDestructor_dtor ::
  "'e region_type \<Rightarrow> 'e region_fn \<Rightarrow> 'e static_world \<Rightarrow> caller \<Rightarrow> u64 \<Rightarrow> (memory \<Rightarrow> addr \<Rightarrow> memory)
   \<Rightarrow> handle option \<Rightarrow> ('e static_world, unit) outcome" where
  "KerbecsDestructor_dtor P RegionFn sw c sizeT dtor m_Handle =
     (case m_Handle of
        None \<Rightarrow> Ret sw ()
      | Some h \<Rightarrow>
     (case handle_ptr (fst sw) c h of
        Trap w \<Rightarrow> Trap (w, snd sw)
      | Undefined \<Rightarrow> Undefined
      | Ret w p \<Rightarrow>
     if p = null then Ret (w, snd sw) ()
     else
       (case RegionFn (w, snd sw) of
          Trap sw \<Rightarrow> Trap sw
        | Undefined \<Rightarrow> Undefined
        | Ret (w, s) r \<Rightarrow>
            (case region_destroy P r w c sizeT dtor h of
               Trap w \<Rightarrow> Trap (w, s)
             | Undefined \<Rightarrow> Undefined
             | Ret w ok \<Rightarrow> Ret (w, s) ()))))"

text \<open>
  The two macros. \<open>name\<close> is a file-scope variable (\<open>KERBECS_GLOBAL\<close> makes it \<open>static\<close>), zero until the
  constructor has run; the destructor of each object is \<open>KerbecsDestructor_dtor\<close> with the same two arguments.
\<close>

definition KERBECS_PERSISTENT ::
  "'e os_api \<Rightarrow> config \<Rightarrow> static_site \<Rightarrow> 'e static_world \<Rightarrow> caller \<Rightarrow> u64 \<Rightarrow> u64 \<Rightarrow> (memory \<Rightarrow> addr \<Rightarrow> memory)
   \<Rightarrow> ('e static_world, handle) outcome" where
  "KERBECS_PERSISTENT os c site = static_init (PersistentRegionT os c) (persistentRegion os c site)"

definition KERBECS_GLOBAL ::
  "'e os_api \<Rightarrow> config \<Rightarrow> static_site \<Rightarrow> 'e static_world \<Rightarrow> caller \<Rightarrow> u64 \<Rightarrow> u64 \<Rightarrow> (memory \<Rightarrow> addr \<Rightarrow> memory)
   \<Rightarrow> ('e static_world, handle) outcome" where
  "KERBECS_GLOBAL os c site = static_init (GlobalRegionT os c) (globalRegion os c site)"

section \<open>The zone allocators as allocators of a region\<close>

lemma static_types [simp]:
  "p_layout (PersistentRegionT os c) = StaticLayout" "p_policy (PersistentRegionT os c) = Flexible"
  "p_os (PersistentRegionT os c) = os" "p_config (PersistentRegionT os c) = c"
  "a_allocate (PersistentRegionT os c) = static_zone_allocate os"
  "p_layout (GlobalRegionT os c) = StaticLayout" "p_policy (GlobalRegionT os c) = Flexible"
  "p_os (GlobalRegionT os c) = os" "p_config (GlobalRegionT os c) = c"
  "a_allocate (GlobalRegionT os c) = global_zone_allocate os"
  by (simp_all add: PersistentRegionT_def GlobalRegionT_def StaticRegion_def)

interpretation persistent_alloc: region_allocator "PersistentRegionT os c" for os c
  by unfold_locales (auto simp: static_zone_allocate_def Let_def split: option.splits)

interpretation global_alloc: region_allocator "GlobalRegionT os c" for os c
  by unfold_locales (auto simp: global_zone_allocate_def Let_def split: option.splits)

end
