(* ===== verification/Kerbecs_Session.thy ===== *)
theory Kerbecs_Session
  imports Kerbecs_Ledger Kerbecs_Static
begin

text \<open>
  Whole programs that use the library: \<open>session_step\<close> is one call of an operation of \<open>Region\<close>
  (\<open>src/Public/Region.h\<close>), on any region of any type and with any handle, genuine, stale or made up, or
  one tick of the drain thread. Every operation keeps the invariant of \<open>Kerbecs_Ledger\<close>, so the accounts
  of the library are exact in every state that a program can reach from a successful \<open>init\<close>.
  What a region's allocator has to keep for this is the locale \<open>quiet_allocator\<close>.
\<close>

section \<open>What the helpers leave alone\<close>

lemma accounts_kept [simp]:
  "same_accounts (rt_core (w_rt w)) (rt_core (w_rt (report w c kind p b n)))"
  "same_accounts (rt_core (w_rt w)) (rt_core (w_rt (set_env w e)))"
  by (simp_all add: same_accounts_def report_def set_env_simps statsVia_def statsOnViolation_def Let_def)

lemma setShadow_accounts:
  "setShadow os r w p n v = Some (w', ok) \<Longrightarrow> same_accounts (rt_core (w_rt w)) (rt_core (w_rt w'))"
  by (simp add: same_accounts_def setShadow_frame)

text \<open>Between the two worlds nothing of the runtime has changed outside its core.\<close>

definition same_zones :: "'e world \<Rightarrow> 'e world \<Rightarrow> bool" where
  "same_zones w w' \<longleftrightarrow> w_rt w' = (w_rt w)\<lparr>rt_core := rt_core (w_rt w')\<rparr>"

lemma same_zones_refl [simp]: "same_zones w w"
  by (simp add: same_zones_def)

lemma same_zones_trans: "same_zones w w' \<Longrightarrow> same_zones w' w'' \<Longrightarrow> same_zones w w''"
  by (simp add: same_zones_def) (metis runtime.update_convs(14) runtime.surjective)

lemma zones_kept [simp]:
  "same_zones w (report w c kind p b n)" "same_zones w (set_env w e)" "same_zones w (set_core w k)"
  "same_zones w (set_reg w a x)" "same_zones w (w\<lparr>w_mem := m\<rparr>)" "same_zones w (w\<lparr>w_infos := f\<rparr>)"
  "same_zones w (w\<lparr>w_viol := v\<rparr>)"
  by (simp_all add: same_zones_def report_def set_env_def set_reg_def set_core_def Let_def)

lemma setShadow_zones: "setShadow os r w p n v = Some (w', ok) \<Longrightarrow> same_zones w w'"
  by (auto simp: setShadow_def same_zones_def split: if_splits option.splits)

lemma core_inv_kept: "core_inv k \<Longrightarrow> same_accounts k k1 \<Longrightarrow> same_accounts k1 k2 \<Longrightarrow> core_inv k2"
  using core_inv_cong same_accounts_trans by blast

section \<open>allocate\<close>

text \<open>The ways through \<open>allocate\<close>, as far as the accounts can tell.\<close>

lemma region_allocate_paths:
  fixes P :: "'e region_type"
  assumes run: "region_allocate P r w c sizeT alignT n va = Ret w' h"
  obtains (refused) "same_accounts (rt_core (w_rt w)) (rt_core (w_rt w'))" "same_zones w w'"
  | (memory) w1 block where "a_allocate P w (layout_blockSize (p_layout P) (n * sizeT) (max va alignT)) (max va alignT)
        = Some (w1, block)"
      "same_accounts (rt_core (w_rt w1)) (rt_core (w_rt w'))" "same_zones w1 w'"
  | (recorded) w1 block bs reg p us reg' st ok and w2 :: "'e world" where "n \<noteq> 0"
      "bs = layout_blockSize (p_layout P) (n * sizeT) (max va alignT)" "block \<noteq> null"
      "a_allocate P w bs (max va alignT) = Some (w1, block)" "same_zones w1 w'"
      "same_accounts (rt_core (w_rt w1)) (rt_core (w_rt w2))"
      "k_regs (rt_core (w_rt w2)) (rg_AllocationRegistry r) = Some reg"
      "registry_insert reg (k_stats (rt_core (w_rt w2))) block p bs us (rg_Allocator r)
         (currentThreadID (c_anchor c)) null n = Some (reg', st, ok)"
      "same_accounts ((rt_core (w_rt w2))\<lparr>k_regs := (k_regs (rt_core (w_rt w2)))(rg_AllocationRegistry r := Some reg'),
          k_stats := st\<rparr>) (rt_core (w_rt w'))"
proof (cases "rg_Initialized r \<and> rg_RegionBase r \<noteq> null \<and> n \<noteq> 0 \<and> \<not> n > (- 1) div sizeT
    \<and> \<not> layout_blockSize (p_layout P) (n * sizeT) (max va alignT) < n * sizeT")
  case False
  then have "same_accounts (rt_core (w_rt w)) (rt_core (w_rt w')) \<and> same_zones w w'"
    using run by (auto simp: region_allocate_def Let_def split: if_splits)
  then show thesis using refused by blast
next
  case True
  let ?us = "n * sizeT" and ?al = "max va alignT" let ?bs = "layout_blockSize (p_layout P) ?us ?al"
  obtain w1 block where a: "a_allocate P w ?bs ?al = Some (w1, block)"
    using run True by (auto simp: region_allocate_def Let_def support_allocate_def split: option.splits)
  show thesis
  proof (cases "block = null")
    case null: True
    then have "w' = w1" using run True a by (auto simp: region_allocate_def Let_def support_allocate_def)
    then show thesis using memory [OF a] by simp
  next
    case block: False
    obtain ofs m where pl: "layout_place (p_layout P) (w_mem w1) block ?bs ?us ?al = (ofs, m)"
      by (cases "layout_place (p_layout P) (w_mem w1) block ?bs ?us ?al")
    let ?p = "block + layout_userData ofs" and ?w = "w1\<lparr>w_mem := m\<rparr>"
    obtain w2 poisoned where sh: "(if region_contains r ?p ?us
        then setShadow (p_os P) r ?w ?p ?us True else Some (?w, False)) = Some (w2, poisoned)"
      using run True a block pl
      by (auto simp: region_allocate_def Let_def support_allocate_def split: option.splits if_splits)
    have w2: "same_accounts (rt_core (w_rt w1)) (rt_core (w_rt w2))" "same_zones w1 w2"
      using sh setShadow_accounts [of "p_os P" r ?w ?p ?us True w2]
        same_zones_trans [OF zones_kept(5) setShadow_zones [of "p_os P" r ?w ?p ?us True w2]]
      by (auto split: if_splits)
    show thesis
    proof (cases poisoned)
      case False
      then have "\<exists>w3 e. w' = set_env w3 e \<and> same_accounts (rt_core (w_rt w2)) (rt_core (w_rt w3)) \<and> same_zones w2 w3"
        using run True a block pl sh by (auto simp: region_allocate_def Let_def support_allocate_def)
      then have "same_accounts (rt_core (w_rt w1)) (rt_core (w_rt w'))" "same_zones w1 w'"
        using w2 by (auto intro: same_accounts_trans same_zones_trans)
      then show thesis by (rule memory [OF a])
    next
      case poisoned: True
      then have cs: "region_contains r ?p ?us" "setShadow (p_os P) r ?w ?p ?us True = Some (w2, True)"
        using sh by (auto split: if_splits)
      obtain reg where reg: "k_regs (rt_core (w_rt w2)) (rg_AllocationRegistry r) = Some reg"
        using run True a block pl cs
        by (auto simp: region_allocate_def Let_def support_allocate_def split: option.splits)
      obtain reg' st ok where ins: "registry_insert reg (k_stats (rt_core (w_rt w2))) block ?p ?bs ?us (rg_Allocator r)
         (currentThreadID (c_anchor c)) null n = Some (reg', st, ok)"
        using run True a block pl cs reg
        by (auto simp: region_allocate_def Let_def support_allocate_def split: option.splits)
      let ?w3 = "set_reg (set_core w2 ((rt_core (w_rt w2))\<lparr>k_stats := st\<rparr>)) (rg_AllocationRegistry r) (Some reg')"
      have core: "rt_core (w_rt ?w3) = (rt_core (w_rt w2))\<lparr>k_regs := (k_regs (rt_core (w_rt w2)))
          (rg_AllocationRegistry r := Some reg'), k_stats := st\<rparr>" by (simp add: env_simps)
      have "same_accounts (rt_core (w_rt ?w3)) (rt_core (w_rt w')) \<and> same_zones ?w3 w'"
      proof (cases ok)
        case True
        then obtain f where "w' = ?w3\<lparr>w_infos := f\<rparr>"
          using run \<open>rg_Initialized r \<and> _\<close> a block pl cs reg ins
          by (auto simp: region_allocate_def Let_def support_allocate_def split: option.splits)
        then show ?thesis by simp
      next
        case False
        let ?w4 = "report ?w3 c OverlapDetected ?p block ?bs"
        obtain w5 ok' e where w5: "setShadow (p_os P) r ?w4 ?p ?us False = Some (w5, ok')" "w' = set_env w5 e"
          using run \<open>rg_Initialized r \<and> _\<close> a block pl cs reg ins False
          by (auto simp: region_allocate_def Let_def support_allocate_def split: option.splits)
        show ?thesis unfolding w5(2)
          by (intro conjI same_accounts_trans [OF same_accounts_trans [OF accounts_kept(1) setShadow_accounts [OF w5(1)]]
                accounts_kept(2)] same_zones_trans [OF same_zones_trans [OF zones_kept(1) setShadow_zones [OF w5(1)]]
                zones_kept(2)])
      qed
      moreover have "same_zones w2 ?w3" by (rule same_zones_trans [OF zones_kept(3,4)])
      ultimately have "same_zones w1 w'" "same_accounts (rt_core (w_rt ?w3)) (rt_core (w_rt w'))"
        using w2(2) same_zones_trans by blast+
      with True show thesis unfolding core by (intro recorded [OF _ refl block a _ w2(1) reg ins]) simp_all
    qed
  qed
qed

section \<open>construct and destroy\<close>

lemma construct_accounts:
  assumes "region_construct P r w c sizeT alignT ctor h = Ret w' ok"
  shows "same_accounts (rt_core (w_rt w)) (rt_core (w_rt w'))"
  using assms setShadow_accounts
  by (auto simp: region_construct_def split: option.splits if_splits)

lemma construct_zones: "region_construct P r w c sizeT alignT ctor h = Ret w' ok \<Longrightarrow> same_zones w w'"
  by (auto simp: region_construct_def intro: same_zones_trans [OF setShadow_zones zones_kept(5)] setShadow_zones
      split: option.splits if_splits)

lemma retiring_world_zones: "same_zones w (retiring_world r w reg f h m)"
  by (simp add: same_zones_def retiring_world_def set_reg_def set_core_def Let_def)

lemma region_destroy_paths:
  assumes run: "region_destroy P r w c sizeT dtor h = Ret w' ok"
    and regs: "regs_ok (rt_core (w_rt w))"
  obtains (refused) "same_accounts (rt_core (w_rt w)) (rt_core (w_rt w'))" "same_zones w w'"
  | (taken) reg p i k1 where "k_regs (rt_core (w_rt w)) (rg_AllocationRegistry r) = Some reg"
      "reg_holds reg p i" "n_State (r_nodes reg ! i) = SLive"
      "k_regs k1 = (k_regs (rt_core (w_rt w)))(rg_AllocationRegistry r := Some (set_node reg i (retiring_node (r_nodes reg ! i))))"
      "k_queue k1 = k_queue (rt_core (w_rt w))" "k_epoch k1 = k_epoch (rt_core (w_rt w))"
      "k_stats k1 = k_stats (rt_core (w_rt w))"
      "endRetiring k1 (rg_AllocationRegistry r) p (k_epoch k1) (rg_AllocatorSupport r) (Some (support_thunk P))
        = Ret (rt_core (w_rt w')) ()" "same_zones w w'"
proof -
  let ?a = "rg_AllocationRegistry r" and ?k = "rt_core (w_rt w)" and ?tid = "currentThreadID (c_anchor c)"
  obtain reg where reg: "k_regs ?k ?a = Some reg"
    using run by (auto simp: region_destroy_def split: option.splits)
  have inv: "reg_inv reg" using regs reg by (simp add: regs_ok_def)
  obtain ns where ns: "nodeFor r reg h = Some ns"
    using run reg by (auto simp: region_destroy_def split: option.splits)
  show thesis
  proof (cases ns)
    case None
    then show thesis using run reg ns refused by (auto simp: region_destroy_def)
  next
    case (Some slot)
    let ?p = "n_BlockBase (r_nodes reg ! slot)"
    have sl: "slot < length (r_nodes reg)" using nodeFor_SomeD(2) [OF ns [unfolded Some] inv] .
    obtain res where b: "beginRetiring reg ?p ?tid (p_policy P) = res" by blast
    have no: thesis if "res = Some (reg, None)"
    proof -
      have "w' = report (set_reg w ?a (Some reg)) c (destroy_kind (p_policy P) ?tid (r_nodes reg ! slot))
          (h_PayloadPtr h) ?p sizeT"
        using run reg ns Some sl b that by (simp add: region_destroy_def Let_def)
      then show thesis using refused by (simp add: set_reg_same [OF reg])
    qed
    show thesis
    proof (rule beginRetiring_cases [OF inv b])
      fix i
      assume hold: "reg_holds reg ?p i" and live: "n_State (r_nodes reg ! i) = SLive"
        and pol: "p_policy P = Strict \<longrightarrow> ?tid = n_ThreadID (r_nodes reg ! i)"
      note go = region_destroy_taken [OF reg inv ns [unfolded Some] hold live pol, of sizeT dtor, unfolded run]
      obtain w1 ok' where s: "setShadow (p_os P) r (retiring_world r w (set_node reg i (retiring_node (r_nodes reg ! i)))
          (n_LiveCount (r_nodes reg ! i) = 1) h (mem_set (dtor (w_mem w) (h_PayloadPtr h)) (h_PayloadPtr h) TOMBSTONE sizeT))
          (h_PayloadPtr h) sizeT True = Some (w1, ok')"
        using go by (auto split: option.splits)
      have "same_zones w w1"
        by (rule same_zones_trans [OF _ setShadow_zones [OF s]]) (simp add: retiring_world_zones)
      moreover have "\<exists>k. w' = set_core w1 k" using go s by (auto split: outcome.splits)
      ultimately have z: "same_zones w w'" using same_zones_trans by (metis zones_kept(3))
      have "endRetiring (rt_core (w_rt w1)) ?a ?p (k_epoch (rt_core (w_rt w1))) (rg_AllocatorSupport r)
          (Some (support_thunk P)) = Ret (rt_core (w_rt w')) ()"
        using go s by (auto simp: env_simps split: outcome.splits)
      with setShadow_frame [OF s] show thesis
        by (intro taken [OF reg hold live, of "rt_core (w_rt w1)"]) (simp_all add: env_simps z)
    qed (use no in auto)
  qed
qed

lemma destroy_keeps:
  assumes inv: "core_inv (rt_core (w_rt w))" and tail: "q_Tail (k_queue (rt_core (w_rt w))) \<noteq> - 1"
    and run: "region_destroy P r w c sizeT dtor h = Ret w' ok"
  shows "core_inv (rt_core (w_rt w'))"
proof (rule region_destroy_paths [OF run core_invD(5) [OF inv]])
  fix reg p i k1
  assume reg: "k_regs (rt_core (w_rt w)) (rg_AllocationRegistry r) = Some reg"
    and h: "reg_holds reg p i" and live: "n_State (r_nodes reg ! i) = SLive"
    and k1: "k_regs k1 = (k_regs (rt_core (w_rt w)))(rg_AllocationRegistry r := Some (set_node reg i (retiring_node (r_nodes reg ! i))))"
      "k_queue k1 = k_queue (rt_core (w_rt w))" "k_epoch k1 = k_epoch (rt_core (w_rt w))"
      "k_stats k1 = k_stats (rt_core (w_rt w))"
    and e: "endRetiring k1 (rg_AllocationRegistry r) p (k_epoch k1) (rg_AllocatorSupport r) (Some (support_thunk P))
        = Ret (rt_core (w_rt w')) ()"
  have rinv: "reg_inv reg" using core_invD(5) [OF inv] reg by (simp add: regs_ok_def)
  show ?thesis
    by (rule destroy_inv [OF inv reg h live retiring_node_def retiring_step(2) [OF rinv h live, of Flexible, simplified]
          k1 tail e])
qed (rule core_inv_cong [OF inv])

section \<open>The life of a region\<close>

lemma region_dtor_keeps:
  assumes inv: "core_inv (rt_core (w_rt w))" and run: "region_dtor P w r = Some w'"
    and idle: "\<And>i n. \<not> live_at (k_node (rt_core (w_rt w))) (rg_AllocationRegistry r) i n"
  shows "core_inv (rt_core (w_rt w'))"
proof -
  let ?k = "rt_core (w_rt w)" and ?a = "rg_AllocationRegistry r"
  obtain k' where k': "queue_flushEligible ?k (- 1) True = Some (k', of_nat (length (due ?k (- 1) True)))" "core_inv k'"
    "q_list (k_queue k') = drop (length (due ?k (- 1) True)) (q_list (k_queue ?k))"
    by (rule flush_inv [OF inv])
  then have nil: "q_list (k_queue k') = []" by (simp add: due_forced)
  have idle': "\<not> live_at (k_node k') ?a i n" for i n using idle flush_live [OF inv k'(1)] by simp
  obtain reg e where reg: "k_regs k' ?a = Some reg" and w': "rt_core (w_rt w') = k'\<lparr>k_env := e, k_regs := (k_regs k')(?a := None)\<rparr>"
    using run k'(1) by (auto simp: region_dtor_def env_simps Let_def split: option.splits prod.splits)
  show ?thesis unfolding w' by (rule drop_registry_inv [OF k'(2) nil reg idle'])
qed

lemma insert_shape:
  assumes inv: "reg_inv reg" and cur: "r_NodeCursor reg \<noteq> - 1"
    and ins: "registry_insert reg st p u bs us aid tid nm cnt = Some (reg', st', ok)"
  shows "r_NodeCapacity reg' = r_NodeCapacity reg" and "r_NodePool reg' = r_NodePool reg"
    and "reg_used reg \<le> reg_used reg'"
  by (rule registry_insert_cases [OF inv ins];
      use reg_inv_cursor(2) [OF inv _ cur] with_node_used(2) in \<open>auto simp: with_node_def\<close>)+

section \<open>Sessions\<close>

locale quiet_allocator = region_allocator +
  assumes allocate_quiet: "a_allocate P w n al = Some (w', p) \<Longrightarrow> same_accounts (rt_core (w_rt w)) (rt_core (w_rt w'))"
begin

lemma allocate_keeps_inv:
  assumes inv: "core_inv (rt_core (w_rt w))" and run: "region_allocate P r w c sizeT alignT n va = Ret w' h"
    and cur: "\<And>reg. k_regs (rt_core (w_rt w)) (rg_AllocationRegistry r) = Some reg \<Longrightarrow> r_NodeCursor reg \<noteq> - 1"
  shows "core_inv (rt_core (w_rt w'))"
proof (rule region_allocate_paths [OF run])
  fix w1 block
  assume "a_allocate P w (layout_blockSize (p_layout P) (n * sizeT) (max va alignT)) (max va alignT) = Some (w1, block)"
    "same_accounts (rt_core (w_rt w1)) (rt_core (w_rt w'))"
  then show ?thesis using core_inv_kept [OF inv allocate_quiet] by blast
next
  fix w1 block w2 bs reg p us reg' st ok
  assume n: "n \<noteq> 0" and a: "a_allocate P w bs (max va alignT) = Some (w1, block)"
    and w2: "same_accounts (rt_core (w_rt w1)) (rt_core (w_rt w2))"
    and reg: "k_regs (rt_core (w_rt w2)) (rg_AllocationRegistry r) = Some reg"
    and ins: "registry_insert reg (k_stats (rt_core (w_rt w2))) block p bs us (rg_Allocator r)
         (currentThreadID (c_anchor c)) null n = Some (reg', st, ok)"
    and w': "same_accounts ((rt_core (w_rt w2))\<lparr>k_regs := (k_regs (rt_core (w_rt w2)))(rg_AllocationRegistry r := Some reg'),
          k_stats := st\<rparr>) (rt_core (w_rt w'))"
  have acc: "same_accounts (rt_core (w_rt w)) (rt_core (w_rt w2))"
    by (rule same_accounts_trans [OF allocate_quiet [OF a] w2])
  have "r_NodeCursor reg \<noteq> - 1" using cur reg acc by (simp add: same_accounts_def)
  from insert_inv [OF core_inv_cong [OF inv acc] reg this n ins] show ?thesis using w' by (rule core_inv_cong)
qed (rule core_inv_cong [OF inv])

lemma allocate_registry:
  assumes run: "region_allocate P r w c sizeT alignT n va = Ret w' h"
    and reg: "k_regs (rt_core (w_rt w)) (rg_AllocationRegistry r) = Some reg" and inv: "reg_inv reg"
    and cur: "r_NodeCursor reg \<noteq> - 1"
  obtains reg' where "k_regs (rt_core (w_rt w')) = (k_regs (rt_core (w_rt w)))(rg_AllocationRegistry r := Some reg')"
    and "r_NodeCapacity reg' = r_NodeCapacity reg" and "r_NodePool reg' = r_NodePool reg" and "reg_used reg \<le> reg_used reg'"
proof (rule region_allocate_paths [OF run])
  assume "same_accounts (rt_core (w_rt w)) (rt_core (w_rt w'))"
  then show thesis using that [of reg] reg by (simp add: same_accounts_def fun_upd_idem)
next
  fix w1 block
  assume a: "a_allocate P w (layout_blockSize (p_layout P) (n * sizeT) (max va alignT)) (max va alignT) = Some (w1, block)"
    and acc: "same_accounts (rt_core (w_rt w1)) (rt_core (w_rt w'))"
  show thesis using that [of reg] reg same_accounts_trans [OF allocate_quiet [OF a] acc] by (simp add: same_accounts_def fun_upd_idem)
next
  fix w1 block bs reg2 p us reg' st ok and w2 :: "'a world"
  assume a: "a_allocate P w bs (max va alignT) = Some (w1, block)"
    and acc2: "same_accounts (rt_core (w_rt w1)) (rt_core (w_rt w2))"
    and reg2: "k_regs (rt_core (w_rt w2)) (rg_AllocationRegistry r) = Some reg2"
    and ins: "registry_insert reg2 (k_stats (rt_core (w_rt w2))) block p bs us (rg_Allocator r)
         (currentThreadID (c_anchor c)) null n = Some (reg', st, ok)"
    and acc: "same_accounts ((rt_core (w_rt w2))\<lparr>k_regs := (k_regs (rt_core (w_rt w2)))(rg_AllocationRegistry r := Some reg'),
          k_stats := st\<rparr>) (rt_core (w_rt w'))"
  have r: "k_regs (rt_core (w_rt w2)) = k_regs (rt_core (w_rt w))"
    using same_accounts_trans [OF allocate_quiet [OF a] acc2] by (simp add: same_accounts_def)
  then have "reg2 = reg" using reg reg2 by simp
  then show thesis using that [of reg'] insert_shape [OF inv cur] ins acc r by (simp add: same_accounts_def)
qed

lemma allocate_frame:
  assumes run: "region_allocate P r w c sizeT alignT n va = Ret w' h"
  shows "k_queue (rt_core (w_rt w')) = k_queue (rt_core (w_rt w))" and "k_epoch (rt_core (w_rt w')) = k_epoch (rt_core (w_rt w))"
  by (rule region_allocate_paths [OF run]; auto simp: same_accounts_def dest: allocate_quiet)+

end

interpretation demo_quiet: quiet_allocator type_demo
  by unfold_locales (simp add: type_demo_def)

interpretation persistent_quiet: quiet_allocator "PersistentRegionT os c" for os c
  by unfold_locales (auto simp: static_zone_allocate_def same_accounts_def Let_def split: option.splits)

interpretation global_quiet: quiet_allocator "GlobalRegionT os c" for os c
  by unfold_locales (auto simp: global_zone_allocate_def same_accounts_def Let_def split: option.splits)

text \<open>
  One step of a program. The guards: a region is constructed in storage of its own; the 64-bit counters (the
  cursor of a node pool, the tail of the ring, the epoch) do not wrap; a region is only destroyed when
  none of its blocks is live. In \<open>memory\<close> the program writes to memory, its own or not, and reads its
  violation reports.
\<close>

inductive session_step :: "'e world \<Rightarrow> 'e world \<Rightarrow> bool" where
  make_region: "\<lbrakk>rt_Initialized (w_rt w); k_regs (rt_core (w_rt w)) registry = None; registry \<noteq> null; unat cap < 2 ^ 56;
     region_ctor P w self support registry a sz cap base = Ret w' r; rg_Initialized r\<rbrakk> \<Longrightarrow> session_step w w'"
| allocate: "\<lbrakk>quiet_allocator P; region_allocate P r w c sizeT alignT n va = Ret w' h;
     \<forall>reg. k_regs (rt_core (w_rt w)) (rg_AllocationRegistry r) = Some reg \<longrightarrow> r_NodeCursor reg \<noteq> - 1\<rbrakk> \<Longrightarrow> session_step w w'"
| construct: "region_construct P r w c sizeT alignT ctor h = Ret w' ok \<Longrightarrow> session_step w w'"
| destroy: "\<lbrakk>q_Tail (k_queue (rt_core (w_rt w))) \<noteq> - 1;
     region_destroy P r w c sizeT dtor h = Ret w' ok\<rbrakk> \<Longrightarrow> session_step w w'"
| tick: "\<lbrakk>k_epoch (rt_core (w_rt w)) \<noteq> - 1; drain_tick (rt_core (w_rt w)) = Some k\<rbrakk> \<Longrightarrow> session_step w (set_core w k)"
| end_region: "\<lbrakk>\<forall>i n. \<not> live_at (k_node (rt_core (w_rt w))) (rg_AllocationRegistry r) i n;
     region_dtor P w r = Some w'\<rbrakk> \<Longrightarrow> session_step w w'"
| memory: "session_step w (w\<lparr>w_mem := m, w_infos := f, w_viol := v\<rparr>)"

inductive_cases session_stepE: "session_step w w'"

lemma session_step_inv:
  assumes "session_step w w'" and inv: "core_inv (rt_core (w_rt w))"
  shows "core_inv (rt_core (w_rt w'))"
  using assms(1)
proof (cases rule: session_step.cases)
  case (make_region registry cap P self support a sz base r)
  show ?thesis
    by (rule region_ctor_core [OF make_region(5,6,1,4)], rule new_registry_inv [OF inv make_region(2,3)]) simp_all
next
  case (allocate P r c sizeT alignT n va h)
  then show ?thesis using quiet_allocator.allocate_keeps_inv [OF _ inv] by blast
next
  case (construct P r c sizeT alignT ctor h ok)
  then show ?thesis using core_inv_cong [OF inv construct_accounts] by blast
next
  case (destroy P r c sizeT dtor h ok)
  then show ?thesis using destroy_keeps [OF inv] by blast
next
  case (tick k)
  then show ?thesis using tick_inv [OF inv] by (simp add: env_simps)
next
  case (end_region r P)
  then show ?thesis using region_dtor_keeps [OF inv] by blast
next
  case (memory m f v)
  then show ?thesis using inv by simp
qed

text \<open>The start: \<open>init\<close> of the runtime has succeeded.\<close>

lemma init_core_inv:
  assumes run: "runtime_init os c (runtime_new e) = Ret rt True" and cap: "is_pow2 (c_QUARANTINE_CAPACITY c)"
    "unat (c_QUARANTINE_CAPACITY c) < 2 ^ 58"
  shows "core_inv (rt_core rt)"
proof -
  obtain e1 q1 q e2 e3 t where q: "queue_init os e1 queue_new (c_QUARANTINE_CAPACITY c) True = (e2, q, True)"
    and rt: "rt_core rt = \<lparr>k_stats = stats_zero, k_epoch = 0, k_queue = q, k_regs = (\<lambda>_. None), k_env = e3\<rparr>"
    using run by (auto simp: runtime_init_def runtime_new_def Let_def split: if_splits prod.splits)
  note i = queue_init_inv [OF q cap]
  have f: "k_node (rt_core rt) = (\<lambda>a i. None)" by (simp add: k_node_def rt fun_eq_iff)
  have "ledger (k_node (rt_core rt)) stats_zero (q_list q)"
    unfolding f i(2) by (simp add: ledger_def settled_def undead_def quarantined_def stats_zero_def)
  then show ?thesis using i by (simp add: core_inv_def core_led_def regs_ok_def placed_def rt queue_new_def)
qed

lemma session_inv:
  assumes "runtime_init os c (runtime_new e) = Ret rt True" and "is_pow2 (c_QUARANTINE_CAPACITY c)"
    and "unat (c_QUARANTINE_CAPACITY c) < 2 ^ 58" and "session_step\<^sup>*\<^sup>* (w0\<lparr>w_rt := rt\<rparr>) w"
  shows "core_inv (rt_core (w_rt w))"
  using assms(4)
proof (induction rule: rtranclp_induct)
  case base
  then show ?case using init_core_inv [OF assms(1-3)] by simp
qed (rule session_step_inv)

section \<open>No call gets stuck\<close>

lemma some_outcome [simp]: "\<exists>b. \<not> b" "\<exists>b. b"
  by blast+

lemma nodeFor_defined: "r_NodePool reg \<noteq> null \<Longrightarrow> \<exists>ns. nodeFor r reg h = Some ns"
  by (simp add: nodeFor_def Let_def)

text \<open>
  \<open>construct\<close> and \<open>destroy\<close> run the constructor or destructor at the payload address of the handle, whatever it
  is (\<open>setShadow\<close> keeps \<open>construct\<close> inside the region, \<open>destroy\<close> does not even check for null), so it is up
  to the program that there is an object. \<open>inside_block n p sz\<close>: the \<open>sz\<close> bytes from \<open>p\<close> are user bytes of the record
  \<open>n\<close>. \<open>may_construct\<close>: they are user bytes of the record in the handle's slot, whose memory has not gone back to the
  allocator. \<open>may_destroy\<close>: when the call gets as far as the destructor, they are user bytes of the record
  that it retires.
\<close>

definition inside_block :: "node \<Rightarrow> addr \<Rightarrow> u64 \<Rightarrow> bool" where
  "inside_block n p sz \<longleftrightarrow> unat (p - n_UserPtr n) + unat sz \<le> unat (n_UserSize n)"

definition may_construct :: "region \<Rightarrow> registry \<Rightarrow> handle \<Rightarrow> u64 \<Rightarrow> bool" where
  "may_construct r reg h sizeT \<longleftrightarrow> (\<forall>slot. nodeFor r reg h = Some (Some slot) \<longrightarrow>
     n_State (r_nodes reg ! slot) \<in> {SLive, SQuarantine} \<and> inside_block (r_nodes reg ! slot) (h_PayloadPtr h) sizeT)"

definition may_destroy :: "region \<Rightarrow> registry \<Rightarrow> handle \<Rightarrow> u64 \<Rightarrow> bool" where
  "may_destroy r reg h sizeT \<longleftrightarrow> (\<forall>slot i. nodeFor r reg h = Some (Some slot) \<longrightarrow>
     reg_holds reg (n_BlockBase (r_nodes reg ! slot)) i \<longrightarrow> n_State (r_nodes reg ! i) = SLive \<longrightarrow>
     inside_block (r_nodes reg ! i) (h_PayloadPtr h) sizeT)"

text \<open>A constructor or destructor that keeps to the bytes of its object.\<close>

definition own_bytes :: "(memory \<Rightarrow> addr \<Rightarrow> memory) \<Rightarrow> addr \<Rightarrow> u64 \<Rightarrow> bool" where
  "own_bytes f p sz \<longleftrightarrow> (\<forall>m a. \<not> in_range a p sz \<longrightarrow> f m p a = m a)"

text \<open>What changed in memory are user bytes of records that are not dead, and bytes of the region's bitmap.\<close>

definition writes_ok :: "region \<Rightarrow> registry \<Rightarrow> memory \<Rightarrow> memory \<Rightarrow> bool" where
  "writes_ok r reg m m' \<longleftrightarrow> (\<forall>a. m' a \<noteq> m a \<longrightarrow>
     (\<exists>i < reg_used reg. n_State (r_nodes reg ! i) \<in> {SLive, SQuarantine}
        \<and> in_range a (n_UserPtr (r_nodes reg ! i)) (n_UserSize (r_nodes reg ! i)))
     \<or> (\<exists>u. unat u < unat (rg_Size r) \<and> a = rg_ShadowBlobPtr r + drop_bit SHADOW_SCALE u))"

lemma writes_ok_refl [simp]: "writes_ok r reg m m"
  by (simp add: writes_ok_def)

lemma writes_ok_trans: "writes_ok r reg m m' \<Longrightarrow> writes_ok r reg m' m'' \<Longrightarrow> writes_ok r reg m m''"
  unfolding writes_ok_def by metis

lemma inside_block_range:
  assumes "inside_block n p sz" and "in_range a p sz"
  shows "in_range a (n_UserPtr n) (n_UserSize n)"
proof -
  have d: "a - n_UserPtr n = (a - p) + (p - n_UserPtr n)" by simp
  have lt: "unat (a - p) + unat (p - n_UserPtr n) < unat (n_UserSize n)"
    using assms by (simp add: inside_block_def in_range_base)
  then have "unat (a - n_UserPtr n) = unat (a - p) + unat (p - n_UserPtr n)"
    unfolding d using unat_lt_64 [of "n_UserSize n"] by (intro unat_plus_nowrap) linarith
  then show ?thesis using lt by (simp add: in_range_base)
qed

lemma writes_ok_object:
  assumes "i < reg_used reg" and "n_State (r_nodes reg ! i) \<in> {SLive, SQuarantine}"
    and "inside_block (r_nodes reg ! i) p sz" and "\<And>a. \<not> in_range a p sz \<Longrightarrow> m' a = m a"
  shows "writes_ok r reg m m'"
  unfolding writes_ok_def using assms inside_block_range [OF assms(3)] by blast

lemma writes_ok_shadow:
  assumes "setShadow os r w p n v = Some (w', ok)"
    and "v \<Longrightarrow> shadow_resident os (k_env (rt_core (w_rt w))) r"
  shows "writes_ok r reg (w_mem w) (w_mem w')"
proof (cases "region_contains r p n \<and> rg_ShadowBlobPtr r \<noteq> null")
  case True
  then have "ok" using setShadow_total [of r p n v os w] assms by auto
  then have s: "setShadow os r w p n v = Some (w', True)" using assms(1) by simp
  have k: "unat k < unat (rg_Size r)" if "touched (p - rg_RegionBase r) n k" for k
    using that region_contains_offset(1) [of r p n] True by (simp add: touched_def)
  show ?thesis
    using setShadow_bits [OF s] k unfolding writes_ok_def by metis
next
  case False
  then show ?thesis using assms(1) by (auto simp: setShadow_def split: if_splits)
qed

lemma construct_defined:
  assumes inv: "core_inv (rt_core (w_rt w))"
    and reg: "k_regs (rt_core (w_rt w)) (rg_AllocationRegistry r) = Some reg"
    and obj: "may_construct r reg h sizeT" "own_bytes ctor (h_PayloadPtr h) sizeT"
  shows "\<exists>w' ok. region_construct P r w c sizeT alignT ctor h = Ret w' ok \<and> writes_ok r reg (w_mem w) (w_mem w')"
proof -
  note d = core_invD [OF inv] and led = core_ledD [OF core_invD(3) [OF inv]]
  have rinv: "reg_inv reg" and pool: "r_NodePool reg \<noteq> null" using d(5) led(3) reg by (auto simp: regs_ok_def placed_def)
  obtain ns where ns: "nodeFor r reg h = Some ns" using nodeFor_defined [OF pool] by blast
  show ?thesis
  proof (cases ns)
    case None
    then show ?thesis by (simp add: region_construct_def reg ns report_frame)
  next
    case (Some slot)
    have sl: "slot < length (r_nodes reg)" using nodeFor_SomeD(2) [OF ns [unfolded Some] rinv] .
    have st: "n_State (r_nodes reg ! slot) \<in> {SLive, SQuarantine}" "inside_block (r_nodes reg ! slot) (h_PayloadPtr h) sizeT"
      using obj(1) ns Some by (simp_all add: may_construct_def)
    have "slot < reg_used reg"
      using rinv sl st(1) by (auto simp: reg_inv_def node_zero_def not_less [symmetric])
    note ctor_ok = writes_ok_object [OF this st(1,2)]
    obtain m ok where s: "setShadow (p_os P) r w (h_PayloadPtr h) sizeT False = Some (w\<lparr>w_mem := m\<rparr>, ok)"
      by (rule setShadow_defined [of False "p_os P" w r]) simp
    have m: "writes_ok r reg (w_mem w) m" using writes_ok_shadow [OF s] by simp
    have "writes_ok r reg m (ctor m (h_PayloadPtr h))" using obj(2) by (intro ctor_ok) (simp add: own_bytes_def)
    with m have "writes_ok r reg (w_mem w) (ctor m (h_PayloadPtr h))" by (rule writes_ok_trans)
    then show ?thesis using s sl m by (simp add: region_construct_def reg ns Some report_frame)
  qed
qed

lemma destroy_defined:
  assumes inv: "core_inv (rt_core (w_rt w))"
    and reg: "k_regs (rt_core (w_rt w)) (rg_AllocationRegistry r) = Some reg"
    and res: "shadow_resident (p_os P) (k_env (rt_core (w_rt w))) r"
    and obj: "may_destroy r reg h sizeT" "own_bytes dtor (h_PayloadPtr h) sizeT"
  shows "if length (q_list (k_queue (rt_core (w_rt w)))) < unat (q_Capacity (k_queue (rt_core (w_rt w))))
    then \<exists>w' ok. region_destroy P r w c sizeT dtor h = Ret w' ok \<and> writes_ok r reg (w_mem w) (w_mem w')
    else region_destroy P r w c sizeT dtor h \<noteq> Undefined"
proof -
  let ?k = "rt_core (w_rt w)" and ?a = "rg_AllocationRegistry r" and ?tid = "currentThreadID (c_anchor c)"
  let ?D = "region_destroy P r w c sizeT dtor h"
  note d = core_invD [OF inv] and led = core_ledD [OF core_invD(3) [OF inv]]
  have rinv: "reg_inv reg" and pool: "r_NodePool reg \<noteq> null" using d(5) led(3) reg by (auto simp: regs_ok_def placed_def)
  have own: "?a \<noteq> null" by (rule placed_address [OF led(3) reg])
  obtain ns where ns: "nodeFor r reg h = Some ns" using nodeFor_defined [OF pool] by blast
  consider (made_up) "ns = None"
    | (refused) slot where "ns = Some slot" "\<And>i. reg_holds reg (n_BlockBase (r_nodes reg ! slot)) i \<Longrightarrow>
        n_State (r_nodes reg ! i) \<noteq> SLive \<or> p_policy P = Strict \<and> ?tid \<noteq> n_ThreadID (r_nodes reg ! i)"
    | (taken) slot i where "ns = Some slot" "reg_holds reg (n_BlockBase (r_nodes reg ! slot)) i"
        "n_State (r_nodes reg ! i) = SLive" "p_policy P = Strict \<longrightarrow> ?tid = n_ThreadID (r_nodes reg ! i)"
    by (cases ns) blast+
  then show ?thesis
  proof cases
    case made_up
    then show ?thesis using ns by (simp add: region_destroy_def reg report_frame)
  next
    case refused
    then show ?thesis using region_destroy_refused [OF reg rinv, of h slot P c sizeT dtor] ns by (simp add: report_frame)
  next
    case taken
    let ?p = "n_BlockBase (r_nodes reg ! slot)" and ?reg2 = "set_node reg i (retiring_node (r_nodes reg ! i))"
    have slot: "nodeFor r reg h = Some (Some slot)" using ns taken(1) by simp
    let ?m = "mem_set (dtor (w_mem w) (h_PayloadPtr h)) (h_PayloadPtr h) TOMBSTONE sizeT"
    let ?w1 = "retiring_world r w ?reg2 (n_LiveCount (r_nodes reg ! i) = 1) h"
    have res1: "shadow_resident (p_os P) (k_env (rt_core (w_rt (?w1 ?m)))) r" using res by (simp add: env_simps)
    obtain m ok where sh: "setShadow (p_os P) r (?w1 ?m) (h_PayloadPtr h) sizeT True = Some ((?w1 ?m)\<lparr>w_mem := m\<rparr>, ok)"
      using setShadow_defined [of True "p_os P" "?w1 ?m" r "h_PayloadPtr h" sizeT] res1 by metis
    define w1 where w1: "w1 = ?w1 m"
    note run = region_destroy_taken [OF reg rinv slot taken(2-4), of sizeT dtor,
        unfolded sh option.case prod.case retiring_world_simps(5), folded w1]
    have live: "i < reg_used reg" "n_State (r_nodes reg ! i) \<in> {SLive, SQuarantine}"
      "inside_block (r_nodes reg ! i) (h_PayloadPtr h) sizeT"
      using taken(2,3) slot obj(1) by (auto simp: reg_holds_def may_destroy_def)
    have "writes_ok r reg (w_mem w) ?m"
      by (rule writes_ok_object [OF live]) (use obj(2) in \<open>simp add: mem_set_apply own_bytes_def\<close>)
    moreover have "writes_ok r reg ?m m" using writes_ok_shadow [OF sh] res1 by (simp add: env_simps)
    ultimately have wr: "writes_ok r reg (w_mem w) (w_mem w1)" unfolding w1 by (simp add: env_simps writes_ok_trans)
    have k1: "k_regs (rt_core (w_rt w1)) ?a = Some ?reg2" "k_queue (rt_core (w_rt w1)) = k_queue ?k"
      unfolding w1 by (simp_all add: env_simps)
    have il: "i < length (r_nodes reg)" using taken(2) reg_used_le [OF rinv] by (simp add: reg_holds_def)
    have st: "n_State (r_nodes ?reg2 ! i) = SRetiring" by (simp add: set_node_nth [OF il] retiring_node_def)
    have q1: "q_inv (k_queue (rt_core (w_rt w1)))" using d(1) k1(2) by simp
    show ?thesis
      unfolding run endRetiring_eq [OF k1(1) retiring_step(2) [OF rinv taken(2-4)] q1 own
          retiring_step(3) [OF rinv taken(2-4)] st] k1(2)
      using wr by (simp add: Let_def env_simps)
  qed
qed

lemma tick_defined: "core_inv k \<Longrightarrow> \<exists>k'. drain_tick k = Some k'"
proof -
  assume "core_inv k"
  then have "core_ok (k\<lparr>k_epoch := k_epoch k + 1\<rparr>)" using core_inv_ok [of k] by (simp add: core_ok_def regs_ok_def)
  then show ?thesis by (rule flush_core [where mx = "- 1" and force = False]) (simp add: drain_tick_def)
qed

lemma dtor_defined:
  assumes inv: "core_inv (rt_core (w_rt w))"
    and reg: "k_regs (rt_core (w_rt w)) (rg_AllocationRegistry r) = Some reg"
  shows "\<exists>w'. region_dtor P w r = Some w'"
proof -
  obtain k' where k': "queue_flushEligible (rt_core (w_rt w)) (- 1) True
      = Some (k', of_nat (length (due (rt_core (w_rt w)) (- 1) True)))"
    "dom (k_regs k') = dom (k_regs (rt_core (w_rt w)))"
    by (rule flush_core [OF core_inv_ok [OF inv], of "- 1" True])
  have "rg_AllocationRegistry r \<in> dom (k_regs k')" using reg k'(2) by auto
  then show ?thesis using k'(1) by (auto simp: region_dtor_def env_simps Let_def split: prod.splits)
qed

end
