(* ===== verification/Kerbecs_SessionUse.thy ===== *)
theory Kerbecs_SessionUse
  imports Kerbecs_Session
begin

text \<open>
  The properties of whole sessions, and the session they are tried on: \<open>init\<close>, a region of 8192 bytes from
  address 4096 with two records, and one object of 64 bytes in it.
\<close>

section \<open>An example session\<close>

definition type_session :: "unit region_type" where
  "type_session = type_demo\<lparr>p_os := os_bounded\<rparr>"

lemma replicate_two: "replicate 2 x = [x, x]"
  by (simp add: numeral_2_eq_2)

lemma session_start:
  obtains rt where "runtime_init os_bounded small_config (runtime_new ()) = Ret rt True" and "rt_Initialized rt"
    and "rt_ShadowzoneAllocatorImpl rt = \<lparr>ba_base = 65536, ba_size = 1073741824, ba_bump = 0\<rparr>"
    and "rt_MetadataZoneAllocatorImpl rt = \<lparr>ba_base = 3221291008, ba_size = 1073741824, ba_bump = 0\<rparr>"
    and "rt_table rt = \<lparr>t_Records = 65536, t_records = [region_record_zero, region_record_zero], t_Count = 0,
        t_RegisterLock = False\<rparr>"
    and "k_regs (rt_core rt) = (\<lambda>_. None)" and "k_epoch (rt_core rt) = 0"
    and "rt_StaticAllocatorImpl rt = \<lparr>ba_base = 2147549184, ba_size = 1073741824, ba_bump = 0\<rparr>"
    and "q_Capacity (k_queue (rt_core rt)) = 2" and "q_Head (k_queue (rt_core rt)) = 0" and "q_Tail (k_queue (rt_core rt)) = 0"
proof -
  have "\<exists>rt. runtime_init os_bounded small_config (runtime_new ()) = Ret rt True \<and> rt_Initialized rt
    \<and> rt_ShadowzoneAllocatorImpl rt = \<lparr>ba_base = 65536, ba_size = 1073741824, ba_bump = 0\<rparr>
    \<and> rt_MetadataZoneAllocatorImpl rt = \<lparr>ba_base = 3221291008, ba_size = 1073741824, ba_bump = 0\<rparr>
    \<and> rt_table rt = \<lparr>t_Records = 65536, t_records = [region_record_zero, region_record_zero], t_Count = 0,
        t_RegisterLock = False\<rparr>
    \<and> k_regs (rt_core rt) = (\<lambda>_. None) \<and> k_epoch (rt_core rt) = 0
    \<and> rt_StaticAllocatorImpl rt = \<lparr>ba_base = 2147549184, ba_size = 1073741824, ba_bump = 0\<rparr>
    \<and> q_Capacity (k_queue (rt_core rt)) = 2 \<and> q_Head (k_queue (rt_core rt)) = 0 \<and> q_Tail (k_queue (rt_core rt)) = 0"
    by (simp add: runtime_init_def runtime_new_def small_config_def shadowBytes_def globalBytes_def
      staticBytes_def metadataBytes_def GIBI_BYTE_def mem_reserveAt_def os_bounded_def os_giving_def
      queue_init_def mem_allocate_def sizeof_QuarantineEntry_def queue_new_def initRegionTable_def Bump_init_def
      region_table_new_def sizeof_RegionRecord_def Let_def word_le_nat_alt replicate_two)
  then show thesis using that by blast
qed

lemma bounded_commits: "p \<noteq> null \<Longrightarrow> commitPageIfNeeded os_bounded () p = Some ((), True)"
  by (simp add: commitPageIfNeeded_def queryPage_def os_bounded_def os_giving_def Let_def)

lemma session_meta:
  assumes "rt_MetadataZoneAllocatorImpl rt = \<lparr>ba_base = 3221291008, ba_size = 1073741824, ba_bump = 0\<rparr>"
  shows "metadataZoneAllocate os_bounded rt 32 16 = Some (rt
      \<lparr>rt_MetadataZoneAllocatorImpl := \<lparr>ba_base = 3221291008, ba_size = 1073741824, ba_bump = 32\<rparr>\<rparr>, 3221291008)"
proof -
  have pg: "pageOf 3221291008 = 3221291008" "pageOf 3221291039 = 3221291008" by (simp_all add: pageOf_def PAGE_SIZE_def)
  have "commitPages os_bounded () 3221291008 3221291008 = Some ()"
    by (subst commitPages_eq) (simp_all add: pages_between_def bounded_commits)
  then show ?thesis
    using assms
    by (simp add: metadataZoneAllocate_def MetadataZone_allocate_def Bump_allocate_def bumpReserve_def alignUp_def pg Let_def)
qed

lemma bounded_gives: "n \<le> 4611686018427387904 \<Longrightarrow> mem_allocate os_bounded e n = (e, 65536)"
  by (simp add: mem_allocate_def os_bounded_def)

lemmas ctor_defs = region_ctor_def Let_def set_reg_def set_env_def set_core_def runtime_init_def SHADOW_SCALE_def
  sizeof_AccessInfo_def alignof_AccessInfo_def shadowzoneAllocate_def Shadowzone_allocate_def bumpReserve_def alignUp_def
  alignof_max_align_t_def session_meta registry_init_def registry_new_def bounded_gives sizeof_RegistryNode_def
  runtime_registerRegion_def registerRegionRecord_def small_config_def spin_lock_def split_beta

lemma session_region:
  assumes "rt_Initialized (w_rt w)"
    and "rt_ShadowzoneAllocatorImpl (w_rt w) = \<lparr>ba_base = 65536, ba_size = 1073741824, ba_bump = 0\<rparr>"
    and "rt_MetadataZoneAllocatorImpl (w_rt w) = \<lparr>ba_base = 3221291008, ba_size = 1073741824, ba_bump = 0\<rparr>"
    and "rt_table (w_rt w) = \<lparr>t_Records = 65536, t_records = [region_record_zero, region_record_zero], t_Count = 0,
        t_RegisterLock = False\<rparr>"
  shows "\<exists>w' r. region_ctor type_session w 256 328 384 320 8192 2 4096 = Ret w' r \<and> rg_Initialized r
    \<and> rg_ShadowBlobPtr r = 65536 \<and> rg_MetadataMapBase r = 3221291008 
    \<and> (\<exists>reg. k_regs (rt_core (w_rt w')) 384 = Some reg \<and> r_NodeCursor reg = 0 \<and> r_NodeCapacity reg = 2)"
  using assms by (simp add: ctor_defs type_session_def type_demo_def)

interpretation session_quiet: quiet_allocator type_session
  by unfold_locales (auto simp: type_session_def type_demo_def)

lemma bounded_resident:
  assumes "rg_ShadowBlobPtr r = 65536"
  shows "shadow_resident os_bounded e r"
proof -
  have "65536 + drop_bit SHADOW_SCALE u \<noteq> (0 :: u64)" for u :: u64
  proof -
    have "unat u div 8 < 2305843009213693952" by (rule less_mult_imp_div_less) simp
    then have "unat (65536 + drop_bit SHADOW_SCALE u) = 65536 + unat u div 8"
      by (subst unat_plus_nowrap) (simp_all add: unat_drop_scale)
    then show ?thesis by (metis add_is_0 unat_0 zero_neq_numeral)
  qed
  then show ?thesis by (simp add: shadow_resident_def assms bounded_commits)
qed

text \<open>One allocation in a region whose registry is still empty.\<close>

lemma bounded_allocates:
  assumes P: "p_os P = os_bounded" and a: "a_allocate P w bs al = Some (v, block)" "block \<noteq> null"
    and bs: "layout_blockSize (p_layout P) us al = bs" "us \<le> bs" "us \<noteq> 0"
    and pl: "layout_userData (fst (layout_place (p_layout P) (w_mem v) block bs us al)) = u"
    and c: "region_contains r (block + u) us"
    and reg: "k_regs (rt_core (w_rt v)) (rg_AllocationRegistry r) = Some reg" and inv: "reg_inv reg"
    and cur: "r_NodeCursor reg = 0" "r_NodeCapacity reg = 2"
    and r: "rg_Initialized r" "rg_RegionBase r \<noteq> null" "rg_ShadowBlobPtr r = 65536"
  shows "\<exists>w' h. region_allocate P r w caller_example us al 1 al = Ret w' h \<and> h_PayloadPtr h = block + u"
proof -
  obtain ofs m where pl: "layout_place (p_layout P) (w_mem v) block bs us al = (ofs, m)" "layout_userData ofs = u"
    using pl by (cases "layout_place (p_layout P) (w_mem v) block bs us al") simp
  have "shadow_resident os_bounded (k_env (rt_core (w_rt (v\<lparr>w_mem := m\<rparr>)))) r" by (rule bounded_resident [OF r(3)])
  then obtain m2 where sh: "setShadow os_bounded r (v\<lparr>w_mem := m\<rparr>) (block + u) us True = Some (v\<lparr>w_mem := m2\<rparr>, True)"
    using setShadow_total [OF c, of True os_bounded "v\<lparr>w_mem := m\<rparr>"] r by auto
  have none: "\<not> reg_holds reg block i" for i using cur by (simp add: reg_holds_def reg_used_def)
  obtain reg' where ins: "registry_insert reg (k_stats (rt_core (w_rt v))) block (block + u) bs us (rg_Allocator r)
      (currentThreadID (c_anchor caller_example)) null 1 = Some (reg', statsOnInit bs (k_stats (rt_core (w_rt v))), True)"
      and inv': "reg_inv reg'" and hold: "\<exists>i. reg_holds reg' block i"
    using insert_holds [OF inv _ none, of "k_stats (rt_core (w_rt v))" "block + u" bs us "rg_Allocator r"
        "currentThreadID (c_anchor caller_example)" null 1] cur a(2) by auto
  then obtain i where f: "registry_find reg' block = Some (Some i)" using tbl.find_Some_iff [OF inv'] by blast
  have "unat us \<le> 18446744073709551615" using unat_lt_64 [of us] by linarith
  then have "0 < unat ((- 1) div us)"
    using bs(3) unfolding unat_div unat_minus_one_64 by (simp add: div_greater_zero_iff unat_gt_0)
  then have "\<not> (- 1) div us < 1" by (simp add: word_less_nat_alt)
  then show ?thesis
    using pl a bs(1,3) f bs(2) [unfolded not_less [symmetric]] c sh ins reg r
    by (simp add: region_allocate_def support_allocate_def Let_def P max_def)
qed

lemma session_allocates:
  assumes reg: "k_regs (rt_core (w_rt w)) (rg_AllocationRegistry r) = Some reg" and inv: "reg_inv reg"
    and cur: "r_NodeCursor reg = 0" "r_NodeCapacity reg = 2"
    and r: "rg_Initialized r" "rg_RegionBase r = 4096" "rg_Size r = 8192" "rg_ShadowBlobPtr r = 65536"
  shows "\<exists>w' h. region_allocate type_session r w caller_example 64 16 1 16 = Ret w' h \<and> h_PayloadPtr h = 8208"
proof -
  have "layout_userData (fst (layout_place NormalLayout (w_mem w) 8192 128 64 16)) = 16"
    by (auto simp: Normal_place_def Let_def alignUp_def REDZONE_SIZE_def split: prod.splits)
  moreover have "layout_blockSize NormalLayout 64 16 = 128"
    by (simp add: Normal_blockSize_def alignUp_def layout_consts Let_def)
  moreover have "region_contains r 8208 64" using r by (simp add: region_contains_def)
  ultimately show ?thesis
    using bounded_allocates [where P = type_session and w = w and bs = 128 and al = 16 and v = w and block = 8192
        and us = 64 and u = 16, OF _ _ _ _ _ _ _ _ reg inv cur] r
    by (simp add: type_session_def type_demo_def)
qed

lemma session_run:
  obtains rt w r w' h reg slot where "runtime_init os_bounded small_config (runtime_new ()) = Ret rt True"
    and "region_ctor type_session (world_example\<lparr>w_rt := rt\<rparr>) 256 328 384 320 8192 2 4096 = Ret w r"
    and "region_allocate type_session r w caller_example 64 16 1 16 = Ret w' h" and "h_PayloadPtr h = 8208"
    and "session_step\<^sup>*\<^sup>* (world_example\<lparr>w_rt := rt\<rparr>) w'"
    and "k_regs (rt_core (w_rt w')) (rg_AllocationRegistry r) = Some reg"
    and "k_epoch (rt_core (w_rt w')) = 0"
    and "nodeFor r reg h = Some (Some slot)" and "reg_holds reg (n_BlockBase (r_nodes reg ! slot)) slot"
    and "n_State (r_nodes reg ! slot) = SLive" and "n_LiveCount (r_nodes reg ! slot) = 1"
    and "n_UserPtr (r_nodes reg ! slot) = 8208" and "n_UserSize (r_nodes reg ! slot) = 64"
    and "h_MetaPtr h = rg_MetadataMapBase r + of_nat slot * sizeof_AccessInfo" and "h_MetaPtr h \<noteq> null"
    and "h_Generation h \<noteq> 0" and "rg_ShadowBlobPtr r = 65536" and "slot < 2"
    and "q_list (k_queue (rt_core (w_rt w'))) = []" and "unat (q_Capacity (k_queue (rt_core (w_rt w')))) = 2"
    and "unat (q_Tail (k_queue (rt_core (w_rt w')))) = 0" and "r_NodeCapacity reg = 2"
proof -
  obtain rt where rt: "runtime_init os_bounded small_config (runtime_new ()) = Ret rt True" "rt_Initialized rt"
    "rt_ShadowzoneAllocatorImpl rt = \<lparr>ba_base = 65536, ba_size = 1073741824, ba_bump = 0\<rparr>"
    "rt_MetadataZoneAllocatorImpl rt = \<lparr>ba_base = 3221291008, ba_size = 1073741824, ba_bump = 0\<rparr>"
    "rt_table rt = \<lparr>t_Records = 65536, t_records = [region_record_zero, region_record_zero], t_Count = 0,
        t_RegisterLock = False\<rparr>"
    "k_regs (rt_core rt) = (\<lambda>_. None)" "k_epoch (rt_core rt) = 0"
    and queue: "q_Capacity (k_queue (rt_core rt)) = 2" "q_Head (k_queue (rt_core rt)) = 0" "q_Tail (k_queue (rt_core rt)) = 0"
    by (rule session_start)
  let ?w0 = "world_example\<lparr>w_rt := rt\<rparr>"
  obtain w r reg where ctor: "region_ctor type_session ?w0 256 328 384 320 8192 2 4096 = Ret w r" "rg_Initialized r"
    and blob: "rg_ShadowBlobPtr r = 65536" and base: "rg_MetadataMapBase r = 3221291008"
    and reg: "k_regs (rt_core (w_rt w)) 384 = Some reg" "r_NodeCursor reg = 0" "r_NodeCapacity reg = 2"
    using session_region [of ?w0] rt by auto
  note f = region_ctor_fields [OF ctor(1)]
  have up: "rt_Initialized (w_rt ?w0)" using rt(2) by simp
  have cap: "unat (2 :: u64) < 2 ^ 56" by simp
  obtain reg1 where c: "reg_inv reg1" "k_regs (rt_core (w_rt w)) = (k_regs (rt_core (w_rt ?w0)))(384 := Some reg1)"
    "k_epoch (rt_core (w_rt w)) = k_epoch (rt_core (w_rt ?w0))" "k_queue (rt_core (w_rt w)) = k_queue (rt_core (w_rt ?w0))" "r_NodePool reg1 \<noteq> null"
    by (rule region_ctor_core [OF ctor up cap])
  then have inv: "reg_inv reg" using reg(1) by simp
  have s1: "session_step ?w0 w"
    by (rule session_step.make_region [OF up _ _ cap ctor]) (simp_all add: rt)
  have at: "k_regs (rt_core (w_rt w)) (rg_AllocationRegistry r) = Some reg" using f reg(1) by simp
  obtain w' h where a: "region_allocate type_session r w caller_example 64 16 1 16 = Ret w' h" "h_PayloadPtr h = 8208"
    using session_allocates [OF at inv reg(2,3) ctor(2)] f blob by auto
  have s2: "session_step w w'"
    by (rule session_step.allocate [OF session_quiet.quiet_allocator_axioms a(1)]) (simp add: at reg(2))
  have ne: "h \<noteq> handle_null" using a(2) by (auto simp: handle_null_def)
  obtain reg' slot where n: "k_regs (rt_core (w_rt w')) (rg_AllocationRegistry r) = Some reg'" "reg_inv reg'"
      "reg_holds reg' (n_BlockBase (r_nodes reg' ! slot)) slot" "n_State (r_nodes reg' ! slot) = SLive"
      "n_LiveCount (r_nodes reg' ! slot) = 1" "n_UserPtr (r_nodes reg' ! slot) = h_PayloadPtr h"
      "n_UserSize (r_nodes reg' ! slot) = 1 * 64" "h_MetaPtr h = rg_MetadataMapBase r + of_nat slot * sizeof_AccessInfo"
      "h_Generation h = n_Generation (r_nodes reg' ! slot)"
    using session_quiet.allocate_sound [OF a(1) ne at inv] by blast
  have "r_NodeCursor reg \<noteq> - 1" by (simp add: reg(2))
  then obtain reg2 where r2: "k_regs (rt_core (w_rt w')) = (k_regs (rt_core (w_rt w)))(rg_AllocationRegistry r := Some reg2)"
      "r_NodeCapacity reg2 = r_NodeCapacity reg" "r_NodePool reg2 = r_NodePool reg"
    by (rule session_quiet.allocate_registry [OF a(1) at inv])
  have pool: "r_NodeCapacity reg' = 2" "r_NodePool reg' \<noteq> null" using n(1) r2 reg(1,3) c(2,5) by auto
  have lt: "slot < unat (2 :: u64)" using n(3) pool(1) by (simp add: reg_holds_def reg_used_def)
  have "slot < 2" using lt by simp
  then have "slot = 0 \<or> slot = 1" by presburger
  then have meta: "rg_MetadataMapBase r = 3221291008" "h_MetaPtr h \<noteq> null"
    using base n(8) by (auto simp: sizeof_AccessInfo_def)
  have "nodeFor r reg' h = Some (Some slot)"
    by (rule nodeFor_slot [OF n(8) meta(2)]) (use meta(1) pool lt in simp_all)
  moreover have "h_Generation h \<noteq> 0"
    using n(2,3,9) by (auto simp: reg_holds_def reg_inv_def node_ok_def)
  moreover have "k_epoch (rt_core (w_rt w')) = 0" using session_quiet.allocate_frame(2) [OF a(1)] c(3) rt(7) by simp
  moreover have "session_step\<^sup>*\<^sup>* ?w0 w'" using s1 s2 by auto
  moreover have "slot < 2" using lt by simp
  moreover have "k_queue (rt_core (w_rt w')) = k_queue (rt_core rt)"
    using session_quiet.allocate_frame(1) [OF a(1)] c(4) by simp
  then have "q_list (k_queue (rt_core (w_rt w'))) = []" "unat (q_Capacity (k_queue (rt_core (w_rt w')))) = 2"
    "unat (q_Tail (k_queue (rt_core (w_rt w')))) = 0" using queue by (simp_all add: q_list_def)
  ultimately show thesis
    using that [OF rt(1) ctor(1) a _ n(1) _ _ n(3-5) _ _ n(8) meta(2) _ blob] n(6,7) a(2) pool(1) by simp
qed

section \<open>Properties\<close>

text \<open>
  C3: The accounts are exact in every state that a program can reach from a successful \<open>init\<close> by creating and
  ending regions, allocating, constructing, destroying through any handle, and ticks of the drain
  thread: the entries in the quarantine are the quarantined records of all registries, each once and
  with its size; no lock is held and no record is caught between two states, and a live one has objects
  left; no registry has two records for an address that are not dead; and the counters hold the number and the
  bytes of the records that are not dead, and the number of waiting blocks.
\<close>

theorem session_accounts_exact:
  assumes "runtime_init os c (runtime_new e) = Ret rt True" and "is_pow2 (c_QUARANTINE_CAPACITY c)"
    and "unat (c_QUARANTINE_CAPACITY c) < 2 ^ 58" and "session_step\<^sup>*\<^sup>* (w0\<lparr>w_rt := rt\<rparr>) w"
    and k: "k = rt_core (w_rt w)"
  shows "distinct (map entry_key (q_list (k_queue k)))
    \<and> entry_record ` set (q_list (k_queue k)) = quarantined (k_node k)
    \<and> (\<forall>a i n. k_node k a i = Some n \<longrightarrow> n_State n \<in> {SLive, SQuarantine, SDead} \<and> \<not> n_DtorLock n
          \<and> (n_State n = SLive \<longrightarrow> n_LiveCount n \<noteq> 0))
    \<and> regs_ok k \<and> q_inv (k_queue k) \<and> \<not> q_FlushLock (k_queue k) \<and> node_unique (k_node k)
    \<and> finite (undead (k_node k))
    \<and> st_ActiveAllocations (k_stats k) = of_nat (card (undead (k_node k)))
    \<and> st_ActiveBytes (k_stats k) = sum (bytes_at (k_node k)) (undead (k_node k))
    \<and> st_QuarantinedBlocks (k_stats k) = of_nat (length (q_list (k_queue k)))"
proof -
  have inv: "core_inv k" unfolding k by (rule session_inv [OF assms(1-4)])
  note d = core_invD [OF inv] and led = core_ledD [OF core_invD(3) [OF inv]]
  have "n_State n \<in> {SLive, SQuarantine, SDead} \<and> \<not> n_DtorLock n \<and> (n_State n = SLive \<longrightarrow> n_LiveCount n \<noteq> 0)"
    if n: "k_node k a i = Some n" for a i n
  proof -
    obtain reg where "k_regs k a = Some reg" "i < reg_used reg" "r_nodes reg ! i = n"
      using n by (auto simp: k_node_def split: option.splits if_splits)
    then have "node_ok i n" using d(5) by (auto simp: regs_ok_def reg_inv_def)
    then show ?thesis using n ledgerD(2) [OF led(4)] by (cases "n_State n") (auto simp: settled_def node_ok_def)
  qed
  then show ?thesis using d(1,2,5) led(4) k_node_unique [OF d(5)] by (simp add: ledger_def)
qed

theorem session_accounts_exact_witness:
  "\<exists>rt w r w' h. runtime_init os_bounded small_config (runtime_new ()) = Ret rt True
    \<and> region_ctor type_session (world_example\<lparr>w_rt := rt\<rparr>) 256 328 384 320 8192 2 4096 = Ret w r
    \<and> region_allocate type_session r w caller_example 64 16 1 16 = Ret w' h \<and> h_PayloadPtr h = 8208
    \<and> regs_ok (rt_core (w_rt w'))
    \<and> st_ActiveAllocations (k_stats (rt_core (w_rt w'))) = of_nat (card (undead (k_node (rt_core (w_rt w')))))"
proof -
  obtain rt w r w' h where run: "runtime_init os_bounded small_config (runtime_new ()) = Ret rt True"
    "region_ctor type_session (world_example\<lparr>w_rt := rt\<rparr>) 256 328 384 320 8192 2 4096 = Ret w r"
    "region_allocate type_session r w caller_example 64 16 1 16 = Ret w' h" "h_PayloadPtr h = 8208"
    "session_step\<^sup>*\<^sup>* (world_example\<lparr>w_rt := rt\<rparr>) w'" by (rule session_run)
  have cap: "is_pow2 (c_QUARANTINE_CAPACITY small_config)" "unat (c_QUARANTINE_CAPACITY small_config) < 2 ^ 58"
    by (simp_all add: small_config_def is_pow2_def)
  from session_accounts_exact [OF run(1) cap run(5) refl] show ?thesis using run(1-4) by blast
qed

text \<open>
  C8: No call gets stuck, and none damages memory that is not its own. In every reachable state, for a region
  whose registry exists, and with constructors and destructors that keep to the bytes of their object:
  \<open>construct\<close> returns, with any handle, genuine or not, as long as the handle's bytes are user bytes of
  the record in its slot, in case there is one; so does \<open>destroy\<close> when the region's shadow is resident and the
  quarantine has room (without room it does nothing worse than stopping the process), as long as the
  handle's bytes are user bytes of the record that it retires, in case it gets that far. Both
  conditions are needed, as neither call checks its payload pointer against the record. The two calls
  then change no memory but user bytes of records that are not dead, and the region's bitmap. The drain
  thread and the destructor of the region always finish.
\<close>

theorem session_calls_defined:
  assumes "runtime_init os c (runtime_new e) = Ret rt True" and "is_pow2 (c_QUARANTINE_CAPACITY c)"
    and "unat (c_QUARANTINE_CAPACITY c) < 2 ^ 58" and "session_step\<^sup>*\<^sup>* (w0\<lparr>w_rt := rt\<rparr>) w"
    and reg: "k_regs (rt_core (w_rt w)) (rg_AllocationRegistry r) = Some reg"
    and own: "own_bytes ctor (h_PayloadPtr h) sizeT" "own_bytes dtor (h_PayloadPtr h) sizeT"
  shows "(may_construct r reg h sizeT \<longrightarrow>
        (\<exists>w' ok. region_construct P r w c' sizeT alignT ctor h = Ret w' ok \<and> writes_ok r reg (w_mem w) (w_mem w')))
    \<and> (shadow_resident (p_os P) (k_env (rt_core (w_rt w))) r \<and> may_destroy r reg h sizeT \<longrightarrow>
        (if length (q_list (k_queue (rt_core (w_rt w)))) < unat (q_Capacity (k_queue (rt_core (w_rt w))))
         then \<exists>w' ok. region_destroy P r w c' sizeT dtor h = Ret w' ok \<and> writes_ok r reg (w_mem w) (w_mem w')
         else region_destroy P r w c' sizeT dtor h \<noteq> Undefined))
    \<and> (\<exists>k'. drain_tick (rt_core (w_rt w)) = Some k') \<and> (\<exists>w'. region_dtor P w r = Some w')"
proof -
  have inv: "core_inv (rt_core (w_rt w))" by (rule session_inv [OF assms(1-4)])
  show ?thesis
    using construct_defined [OF inv reg _ own(1)] destroy_defined [OF inv reg _ _ own(2)]
      tick_defined [OF inv] dtor_defined [OF inv reg] by blast
qed

theorem session_calls_defined_witness:
  "\<exists>rt w r w' h. runtime_init os_bounded small_config (runtime_new ()) = Ret rt True
    \<and> region_ctor type_session (world_example\<lparr>w_rt := rt\<rparr>) 256 328 384 320 8192 2 4096 = Ret w r
    \<and> region_allocate type_session r w caller_example 64 16 1 16 = Ret w' h \<and> h_PayloadPtr h = 8208
    \<and> (\<exists>w2 ok. region_construct type_session r w' caller_example 64 16 (\<lambda>m p. m) h = Ret w2 ok)
    \<and> (\<exists>w2 ok reg. region_destroy type_session r w' caller_example 64 (\<lambda>m p. m) h = Ret w2 ok
        \<and> writes_ok r reg (w_mem w') (w_mem w2))
    \<and> (\<exists>w2. region_dtor type_session w' r = Some w2)"
proof -
  obtain rt w r w' h reg slot where run: "runtime_init os_bounded small_config (runtime_new ()) = Ret rt True"
    "region_ctor type_session (world_example\<lparr>w_rt := rt\<rparr>) 256 328 384 320 8192 2 4096 = Ret w r"
    "region_allocate type_session r w caller_example 64 16 1 16 = Ret w' h" "h_PayloadPtr h = 8208"
    "session_step\<^sup>*\<^sup>* (world_example\<lparr>w_rt := rt\<rparr>) w'"
    "k_regs (rt_core (w_rt w')) (rg_AllocationRegistry r) = Some reg"
    and n: "nodeFor r reg h = Some (Some slot)" "reg_holds reg (n_BlockBase (r_nodes reg ! slot)) slot"
    "n_State (r_nodes reg ! slot) = SLive" "n_UserPtr (r_nodes reg ! slot) = 8208" "n_UserSize (r_nodes reg ! slot) = 64"
    and blob: "rg_ShadowBlobPtr r = 65536" and room: "q_list (k_queue (rt_core (w_rt w'))) = []"
      "unat (q_Capacity (k_queue (rt_core (w_rt w')))) = 2" by (rule session_run)
  have cap: "is_pow2 (c_QUARANTINE_CAPACITY small_config)" "unat (c_QUARANTINE_CAPACITY small_config) < 2 ^ 58"
    by (simp_all add: small_config_def is_pow2_def)
  have rinv: "reg_inv reg"
    using core_invD(5) [OF session_inv [OF run(1) cap run(5)]] run(6) by (simp add: regs_ok_def)
  have only: "i = slot" if "reg_holds reg (n_BlockBase (r_nodes reg ! slot)) i" for i
    using reg_holds_unique [OF rinv that n(2)] .
  have may: "may_construct r reg h 64" "may_destroy r reg h 64"
    using n run(4) by (auto simp: may_construct_def may_destroy_def inside_block_def dest!: only)
  have own: "own_bytes (\<lambda>m p. m) (h_PayloadPtr h) 64" by (simp add: own_bytes_def)
  have res: "shadow_resident (p_os type_session) (k_env (rt_core (w_rt w'))) r"
    using bounded_resident [OF blob] by (simp add: type_session_def)
  from session_calls_defined [OF run(1) cap run(5,6) own own, of type_session caller_example 16] may res
  show ?thesis using run(1-4) room by simp blast
qed

text \<open>
  C9: From every reachable state two ticks of the drain thread bring the library to rest: the memory of every
  waiting block goes back to its allocator, oldest first, and the quarantine is empty; the live records are
  the same as before, every other record is dead, and the counters say so.
\<close>

theorem session_quiesces:
  assumes "runtime_init os c (runtime_new e) = Ret rt True" and "is_pow2 (c_QUARANTINE_CAPACITY c)"
    and "unat (c_QUARANTINE_CAPACITY c) < 2 ^ 58" and "session_step\<^sup>*\<^sup>* (w0\<lparr>w_rt := rt\<rparr>) w"
    and k: "k = rt_core (w_rt w)" and room: "unat (k_epoch k) < 2 ^ 64 - 2"
  shows "\<exists>k1 k2. drain_tick k = Some k1 \<and> drain_tick k1 = Some k2
    \<and> q_list (k_queue k2) = [] \<and> k_env k2 = foldl dealloc_entry (k_env k) (q_list (k_queue k))
    \<and> live_at (k_node k2) = live_at (k_node k)
    \<and> (\<forall>a i n. k_node k2 a i = Some n \<longrightarrow> n_State n = SLive \<or> n_State n = SDead)
    \<and> st_QuarantinedBlocks (k_stats k2) = 0
    \<and> st_ActiveAllocations (k_stats k2) = of_nat (card {(a, i). \<exists>n. live_at (k_node k) a i n})"
proof -
  have inv: "core_inv k" unfolding k by (rule session_inv [OF assms(1-4)])
  note d = core_invD [OF inv]
  obtain k1 k2 where t: "drain_tick k = Some k1" "drain_tick k1 = Some k2" and nil: "q_list (k_queue k2) = []"
    and env: "k_env k2 = foldl dealloc_entry (k_env k) (q_list (k_queue k))"
    using two_ticks [OF core_inv_ok [OF inv] _ room] d(4) by blast
  have e0: "k_epoch k \<noteq> - 1" using room unat_minus_one_64 by auto
  have e1: "k_epoch k1 = k_epoch k + 1" by (rule tick_epoch [OF inv e0 t(1)])
  have "unat (k_epoch k + 1) < 18446744073709551615" using unat_succ_not_max [OF e0] room by simp
  then have e1': "k_epoch k1 \<noteq> - 1" using unat_minus_one_64 e1 by (metis less_irrefl)
  note inv1 = tick_inv [OF inv e0 t(1)]
  note inv2 = tick_inv [OF inv1 e1' t(2)]
  have live: "live_at (k_node k2) = live_at (k_node k)"
    using tick_live [OF inv e0 t(1)] tick_live [OF inv1 e1' t(2)] by simp
  note led = core_ledD(4) [OF core_invD(3) [OF inv2], unfolded nil]
  have rest: "n_State n = SLive \<or> n_State n = SDead" if n: "k_node k2 a i = Some n" for a i n
    by (rule rest_state [OF core_invD(5) [OF inv2] ledgerD(2) [OF led] n]) (use ledgerD(4) [OF led] in simp)
  have "undead (k_node k2) = {(a, i). \<exists>n. live_at (k_node k2) a i n}"
    using rest by (auto simp: undead_def live_at_def)
  then have "st_ActiveAllocations (k_stats k2) = of_nat (card {(a, i). \<exists>n. live_at (k_node k) a i n})"
    using led live by (simp add: ledger_def)
  moreover have "st_QuarantinedBlocks (k_stats k2) = 0" using led by (simp add: ledger_def)
  ultimately show ?thesis using t nil env live rest by (intro exI [of _ k1] exI [of _ k2]) simp
qed

theorem session_quiesces_witness:
  "\<exists>rt w r w' h k1 k2. runtime_init os_bounded small_config (runtime_new ()) = Ret rt True
    \<and> region_ctor type_session (world_example\<lparr>w_rt := rt\<rparr>) 256 328 384 320 8192 2 4096 = Ret w r
    \<and> region_allocate type_session r w caller_example 64 16 1 16 = Ret w' h \<and> h_PayloadPtr h = 8208
    \<and> drain_tick (rt_core (w_rt w')) = Some k1 \<and> drain_tick k1 = Some k2
    \<and> live_at (k_node k2) = live_at (k_node (rt_core (w_rt w')))"
proof -
  obtain rt w r w' h where run: "runtime_init os_bounded small_config (runtime_new ()) = Ret rt True"
    "region_ctor type_session (world_example\<lparr>w_rt := rt\<rparr>) 256 328 384 320 8192 2 4096 = Ret w r"
    "region_allocate type_session r w caller_example 64 16 1 16 = Ret w' h" "h_PayloadPtr h = 8208"
    "session_step\<^sup>*\<^sup>* (world_example\<lparr>w_rt := rt\<rparr>) w'" "k_epoch (rt_core (w_rt w')) = 0" by (rule session_run)
  have cap: "is_pow2 (c_QUARANTINE_CAPACITY small_config)" "unat (c_QUARANTINE_CAPACITY small_config) < 2 ^ 58"
    by (simp_all add: small_config_def is_pow2_def)
  have room: "unat (k_epoch (rt_core (w_rt w'))) < 2 ^ 64 - 2" by (simp add: run(6))
  from session_quiesces [OF run(1) cap run(5) refl room] show ?thesis using run(1-4) by blast
qed

end
