(* ===== verification/Kerbecs_Views.thy ===== *)
theory Kerbecs_Views
  imports Kerbecs_Session
begin

text \<open>
  What destroying and retiring leave alone in a registry: any \<open>view\<close> of it that depends on the blocks of its
  records but not on their states, and not on the live count (locale \<open>registry_view\<close>). The list of the
  blocks, and the size of the registry with the number of its records, are such views.
\<close>

definition block_of :: "node \<Rightarrow> addr \<times> u64" where
  "block_of n = (n_BlockBase n, n_BlockSize n)"

definition view_at :: "(registry \<Rightarrow> 'b) \<Rightarrow> 'e kcore \<Rightarrow> addr \<Rightarrow> 'b option" where
  "view_at view k a = map_option view (k_regs k a)"

lemma view_cong: "k_regs k' = k_regs k \<Longrightarrow> view_at v k' = view_at v k"
  by (simp add: view_at_def fun_eq_iff)

locale registry_view =
  fixes view :: "registry \<Rightarrow> 'b"
  assumes view_set_node: "block_of n = block_of (r_nodes reg ! i) \<Longrightarrow> view (set_node reg i n) = view reg"
    and view_count: "view (reg\<lparr>r_Count := c\<rparr>) = view reg"
begin

lemma view_put:
  assumes "k_regs k b = Some reg" and "view reg' = view reg" and "k_regs k' = (k_regs k)(b := Some reg')"
  shows "view_at view k' = view_at view k"
  using assms by (auto simp: view_at_def fun_eq_iff)

lemma endRetiring_view:
  assumes reg: "k_regs k a = Some reg" and inv: "reg_inv reg" and run: "endRetiring k a p ep al th = Ret k' u"
  shows "view_at view k' = view_at view k"
proof -
  obtain reg' z where n: "endRetiring_node reg p = Some (reg', z)" and k': "k_regs k' = (k_regs k)(a := Some reg')"
    using run reg
    by (auto simp: endRetiring_def queue_enqueue_def queue_onSaturation_def Let_def split: option.splits outcome.splits if_splits)
  have "view reg' = view reg"
    by (rule endRetiring_node_cases [OF inv n]) (auto simp: block_of_def view_count intro!: view_set_node)
  then show ?thesis by (rule view_put [OF reg _ k'])
qed

lemma destroy_view:
  assumes inv: "core_inv (rt_core (w_rt w))" and run: "region_destroy P r w c sizeT dtor h = Ret w' ok"
  shows "view_at view (rt_core (w_rt w')) = view_at view (rt_core (w_rt w)) \<and> same_zones w w'"
proof (rule region_destroy_paths [OF run core_invD(5) [OF inv]])
  assume "same_accounts (rt_core (w_rt w)) (rt_core (w_rt w'))" "same_zones w w'"
  then show ?thesis using view_cong by (auto simp: same_accounts_def)
next
  fix reg p i k1
  let ?reg2 = "set_node reg i (retiring_node (r_nodes reg ! i))"
  assume reg: "k_regs (rt_core (w_rt w)) (rg_AllocationRegistry r) = Some reg"
    and h: "reg_holds reg p i" and live: "n_State (r_nodes reg ! i) = SLive"
    and k1: "k_regs k1 = (k_regs (rt_core (w_rt w)))(rg_AllocationRegistry r := Some ?reg2)"
    and e: "endRetiring k1 (rg_AllocationRegistry r) p (k_epoch k1) (rg_AllocatorSupport r) (Some (support_thunk P))
        = Ret (rt_core (w_rt w')) ()" and z: "same_zones w w'"
  have rinv: "reg_inv reg" using core_invD(5) [OF inv] reg by (simp add: regs_ok_def)
  have "view_at view k1 = view_at view (rt_core (w_rt w))"
    by (rule view_put [OF reg _ k1], rule view_set_node) (simp add: block_of_def retiring_node_def)
  moreover have "view_at view (rt_core (w_rt w')) = view_at view k1"
    by (rule endRetiring_view [OF _ _ e]) (use k1 retiring_step(2) [OF rinv h live, of Flexible] in auto)
  ultimately show ?thesis using z by simp
qed

lemma retire_entry_view:
  assumes "retire_entry k e = Some k'"
  shows "view_at view k' = view_at view k"
proof (cases "k_regs k' = k_regs k")
  case False
  obtain reg reg' where reg: "k_regs k (e_OwningRegistry e) = Some reg" "k_regs k' = (k_regs k)(e_OwningRegistry e := Some reg')"
    "reg' = reg \<or> (\<exists>j. reg' = set_node reg j ((r_nodes reg ! j)\<lparr>n_State := SDead\<rparr>) \<and> n_State (r_nodes reg ! j) = SQuarantine)"
    by (rule retire_entry_change [OF assms False])
  then have "view reg' = view reg"
    by (auto simp: block_of_def view_count intro!: view_set_node)
  then show ?thesis by (rule view_put [OF reg(1) _ reg(2)])
qed (rule view_cong)

lemma retire_all_view: "retire_all k es = Some k' \<Longrightarrow> view_at view k' = view_at view k"
  by (induction es arbitrary: k) (auto simp: Option.bind_eq_Some_conv dest: retire_entry_view)

lemma tick_view:
  assumes inv: "core_inv k" and room: "k_epoch k \<noteq> - 1" and run: "drain_tick k = Some k'"
  shows "view_at view k' = view_at view k"
proof -
  let ?k = "k\<lparr>k_epoch := k_epoch k + 1\<rparr>"
  note d = core_invD [OF epoch_inv [OF inv room]]
  obtain n where "queue_flushEligible ?k (- 1) False = Some (k', n)"
    using run by (auto simp: drain_tick_def split: option.splits)
  then obtain k0 where k0: "retire_all ?k (due ?k (- 1) False) = Some k0" "k_regs k' = k_regs k0"
    using flushEligible_eq [OF d(1,2), of "- 1" False] by auto
  show ?thesis using retire_all_view [OF k0(1)] view_cong [OF k0(2), of view] view_cong [of ?k k view] by simp
qed

end

end
