(* ===== verification/Kerbecs_StaticUse.thy ===== *)
theory Kerbecs_StaticUse
  imports Kerbecs_Static
begin

text \<open>
  What the static regions promise: their payloads always lie inside their zones, and the
  destructor of a static object follows its handle. The last property is about a process that destroys
  a static object itself.
\<close>

lemma request_okD: "request_ok sz n al \<Longrightarrow> is_pow2 al"
  by (simp add: request_ok_def)

lemma static_zone_allocate_SomeD:
  assumes "static_zone_allocate os w n al = Some (w1, p)"
  shows "bumpReserve (rt_StaticAllocatorImpl (w_rt w)) n al = (rt_StaticAllocatorImpl (w_rt w1), p)"
  using assms
  by (auto simp: static_zone_allocate_def Static_allocate_def Bump_allocate_def Let_def
      split: option.splits prod.splits if_splits)

lemma bumpReserve_same: "bumpReserve ba n al = (ba', p) \<Longrightarrow> ba_base ba' = ba_base ba \<and> ba_size ba' = ba_size ba"
  by (auto simp: bumpReserve_def Let_def split: if_splits)

lemma persistentRegion_first:
  assumes "runtime_init os c (w_rt w) = Ret rt True" and "persistentRegion os c site (w, None) = Ret (w', s') r"
  shows "region_ctor (PersistentRegionT os c) (w\<lparr>w_rt := rt\<rparr>) (ss_Region site) (ss_Support site) (ss_Registry site)
      (ss_Allocator site) (staticBytes c) (c_REGISTRY_CAPACITY c) (rt_StaticZone rt) = Ret w' r \<and> s' = Some r"
  using assms by (auto simp: persistentRegion_def staticBytes_def split: outcome.splits)

lemma globalRegion_first:
  assumes "runtime_init os c (w_rt w) = Ret rt True" and "globalRegion os c site (w, None) = Ret (w', s') r"
  shows "region_ctor (GlobalRegionT os c) (w\<lparr>w_rt := rt\<rparr>) (ss_Region site) (ss_Support site) (ss_Registry site)
      (ss_Allocator site) (globalBytes c) (c_REGISTRY_CAPACITY c) (rt_GlobalZone rt) = Ret w' r \<and> s' = Some r"
  using assms by (auto simp: globalRegion_def globalBytes_def split: outcome.splits)

section \<open>Properties\<close>

text \<open>An initialised runtime with a static zone of 1 GiB at \<open>2 ^ 40\<close> and room for its shadow.\<close>

definition world_static :: "unit world" where
  "world_static = world_up\<lparr>w_rt := (w_rt world_up)\<lparr>rt_StaticZone := 1099511627776,
     rt_ShadowzoneAllocatorImpl := \<lparr>ba_base = 4294967296, ba_size = 1073741824, ba_bump = 0\<rparr>,
     rt_StaticAllocatorImpl := \<lparr>ba_base = 1099511627776, ba_size = 1073741824, ba_bump = 0\<rparr>\<rparr>\<rparr>"

text \<open>
  A static region never meets its own bounds: when it spans exactly the zone of its allocator and the
  size of the request cannot wrap, the payload of every block the zone hands out lies inside the
  region, aligned as asked when the zone is; the zone stays well formed and in place. (So the
  \<open>WildPointer\<close> branch of \<open>allocate\<close> and the alignment check of \<open>construct\<close> never fire there.)
\<close>

theorem static_payload_inside:
  assumes zone: "ba_base (rt_StaticAllocatorImpl (w_rt w)) = rg_RegionBase r"
      "ba_size (rt_StaticAllocatorImpl (w_rt w)) = rg_Size r" "bump_ok (rt_StaticAllocatorImpl (w_rt w))"
    and req: "request_ok (rg_Size r) (layout_blockSize StaticLayout n al) al" and fits: "layout_fits StaticLayout n al"
    and n: "n \<noteq> 0"
    and alloc: "a_allocate (PersistentRegionT os c) w (layout_blockSize StaticLayout n al) al = Some (w1, block)"
    and block: "block \<noteq> null"
    and place: "layout_place StaticLayout m block (layout_blockSize StaticLayout n al) n al = (ofs, m')"
  shows "region_contains r (block + layout_userData ofs) n
    \<and> (unat al dvd unat (rg_RegionBase r) \<longrightarrow> unat al dvd unat (block + layout_userData ofs))
    \<and> ba_base (rt_StaticAllocatorImpl (w_rt w1)) = rg_RegionBase r
    \<and> ba_size (rt_StaticAllocatorImpl (w_rt w1)) = rg_Size r \<and> bump_ok (rt_StaticAllocatorImpl (w_rt w1))"
proof -
  let ?ba = "rt_StaticAllocatorImpl (w_rt w)" and ?bs = "layout_blockSize StaticLayout n al"
  have rs: "bumpReserve ?ba ?bs al = (rt_StaticAllocatorImpl (w_rt w1), block)"
    using static_zone_allocate_SomeD alloc by simp
  have rq: "request_ok (ba_size ?ba) ?bs al" using req zone(2) by simp
  note same = bumpReserve_same [OF rs]
  have "ba_bump ?ba \<le> ba_size ?ba" using zone(3) by (simp add: bump_ok_def)
  note nx = bump_next_unat(4) [OF rq this]
  have user: "unat (layout_userData ofs) + unat n \<le> unat ?bs" and ual: "unat al dvd unat (layout_userData ofs)"
    using lay.user_in_block [OF fits order_refl place] lay.user_aligned [OF fits order_refl place] by simp_all
  show ?thesis
  proof (rule bumpReserve_cases [OF zone(3) rq rs])
    let ?off = "alignUp (ba_bump ?ba) al"
    assume g: "block = ba_base ?ba + ?off" "unat ?off + unat ?bs \<le> unat (ba_size ?ba)"
      "bump_ok (rt_StaticAllocatorImpl (w_rt w1))"
    note g2 = g(2) [unfolded zone(2)]
    have top: "unat (rg_RegionBase r) + unat (rg_Size r) \<le> 18446744073709551616"
      using zone by (simp add: bump_ok_def)
    have n0: "0 < unat n" using n by (simp add: unat_gt_0)
    have ou: "unat (?off + layout_userData ofs) = unat ?off + unat (layout_userData ofs)"
      using g2 user n0 unat_lt_64 [of "rg_Size r"] by (intro unat_plus_nowrap) linarith
    have p: "block + layout_userData ofs = rg_RegionBase r + (?off + layout_userData ofs)"
      using g(1) zone(1) by (simp add: add.assoc)
    have pu: "unat (block + layout_userData ofs) = unat (rg_RegionBase r) + unat (?off + layout_userData ofs)"
      unfolding p using ou g2 user n0 top by (intro unat_plus_nowrap) linarith
    have base: "rg_RegionBase r \<noteq> null"
    proof
      assume "rg_RegionBase r = null"
      then have "block = null" using rs zone(1) by (simp add: bumpReserve_def)
      then show False using block by simp
    qed
    then have "0 < unat (rg_RegionBase r)" by (simp add: unat_gt_0)
    then have pn: "block + layout_userData ofs \<noteq> null" using pu by (metis add_gr_0 less_irrefl unat_0)
    have le: "rg_RegionBase r \<le> block + layout_userData ofs" using pu by (simp add: word_le_nat_alt)
    have diff: "block + layout_userData ofs - rg_RegionBase r = ?off + layout_userData ofs" unfolding p by simp
    have "?off + layout_userData ofs \<le> rg_Size r" and
      "unat (rg_Size r - (?off + layout_userData ofs)) = unat (rg_Size r) - unat (?off + layout_userData ofs)"
      using ou g2 user by (simp_all del: layout_blockSize.simps add: word_le_nat_alt unat_minus_le)
    then have "region_contains r (block + layout_userData ofs) n"
      using base pn n le ou g2 user unfolding region_contains_def Let_def diff
      by (simp del: layout_blockSize.simps add: word_le_nat_alt)
    moreover have "unat al dvd unat (block + layout_userData ofs)" if "unat al dvd unat (rg_RegionBase r)"
      unfolding pu ou using that nx ual by simp
    ultimately show ?thesis using same zone g(3) by simp
  qed (use block in simp)
qed

lemma demo_static_block:
  "\<exists>w1. a_allocate (PersistentRegionT os_resident small_config) world_static (layout_blockSize StaticLayout 64 16) 16
    = Some (w1, 1099511627776)"
proof -
  have pg: "pageOf 1099511627776 = 1099511627776" "pageOf 1099511627895 = 1099511627776"
    by (simp_all add: pageOf_def PAGE_SIZE_def)
  have "commitPages os_resident () 1099511627776 1099511627776 = Some ()"
    by (subst commitPages_eq) (simp_all add: pages_between_def os_resident_commits)
  then show ?thesis
    by (simp add: static_zone_allocate_def Static_allocate_def Bump_allocate_def bumpReserve_def alignUp_def pg Let_def
        world_static_def world_up_def Static_blockSize_def layout_consts)
qed

theorem static_payload_inside_witness:
  "\<exists>w1 ofs m'. a_allocate (PersistentRegionT os_resident small_config) world_static (layout_blockSize StaticLayout 64 16) 16
      = Some (w1, 1099511627776)
    \<and> layout_place StaticLayout (\<lambda>_. 0) 1099511627776 (layout_blockSize StaticLayout 64 16) 64 16 = (ofs, m')
    \<and> region_contains (region_example\<lparr>rg_RegionBase := 1099511627776, rg_Size := 1073741824\<rparr>)
        (1099511627776 + layout_userData ofs) 64
    \<and> 16 dvd unat (1099511627776 + layout_userData ofs)"
proof -
  let ?r = "region_example\<lparr>rg_RegionBase := 1099511627776, rg_Size := 1073741824\<rparr>"
  obtain w1 where al: "a_allocate (PersistentRegionT os_resident small_config) world_static
      (layout_blockSize StaticLayout 64 16) 16 = Some (w1, 1099511627776)" using demo_static_block by blast
  obtain ofs m' where pl: "layout_place StaticLayout (\<lambda>_. 0) 1099511627776 (layout_blockSize StaticLayout 64 16) 64 16 = (ofs, m')"
    by (cases "layout_place StaticLayout (\<lambda>_. 0) 1099511627776 (layout_blockSize StaticLayout 64 16) 64 16")
  have zone: "ba_base (rt_StaticAllocatorImpl (w_rt world_static)) = rg_RegionBase ?r"
      "ba_size (rt_StaticAllocatorImpl (w_rt world_static)) = rg_Size ?r" "bump_ok (rt_StaticAllocatorImpl (w_rt world_static))"
    by (simp_all add: world_static_def bump_ok_def)
  have rq: "request_ok (rg_Size ?r) (layout_blockSize StaticLayout 64 16) 16"
    by (simp add: request_ok_def is_pow2_def Static_blockSize_def layout_consts alignUp_def)
  have ft: "layout_fits StaticLayout 64 16"
    by (simp add: layout_fits_def is_pow2_def Static_size_nat_def align_nat_def)
  show ?thesis
    using static_payload_inside [OF zone rq ft _ al _ pl] al pl by simp
qed

text \<open>
  C31: What the destructor of a static object does, case by case: nothing for a null handle variable or an
  empty handle; a trap with \<open>UseAfterFree\<close>, on the caller's thread, when the block has died or its
  generation has moved on; and for a handle that is still good, the last object of a live block is
  destroyed in the region that \<open>RegionFn\<close> names: tombstones in its place, the block in the quarantine,
  the handle's generation cleared, and no violation.
\<close>

theorem static_destructor_exact:
  "KerbecsDestructor_dtor P F (w, s) c sizeT dtor None = Ret (w, s) ()
  \<and> (h_PayloadPtr h = null \<longrightarrow> KerbecsDestructor_dtor P F (w, s) c sizeT dtor (Some h) = Ret (w, s) ())
  \<and> (h_PayloadPtr h \<noteq> null \<and> h_MetaPtr h \<noteq> null \<and> ai_Generation (w_infos w (h_MetaPtr h)) \<noteq> h_Generation h \<longrightarrow>
      KerbecsDestructor_dtor P F (w, s) c sizeT dtor (Some h)
        = Trap (report w c UseAfterFree (h_PayloadPtr h) (h_PayloadPtr h) 0, s))
  \<and> (h_PayloadPtr h \<noteq> null \<and> ai_Generation (w_infos w (h_MetaPtr h)) = h_Generation h
      \<and> F (w, s) = Ret (w2, s2) r \<and> region_ready (p_os P) r w2 reg \<and> nodeFor r reg h = Some (Some slot)
      \<and> reg_holds reg (n_BlockBase (r_nodes reg ! slot)) slot
      \<and> n_State (r_nodes reg ! slot) = SLive \<and> n_LiveCount (r_nodes reg ! slot) = 1
      \<and> (p_policy P = Strict \<longrightarrow> currentThreadID (c_anchor c) = n_ThreadID (r_nodes reg ! slot))
      \<and> (\<forall>a u. in_range a (h_PayloadPtr h) sizeT \<longrightarrow> a \<noteq> rg_ShadowBlobPtr r + drop_bit SHADOW_SCALE u) \<longrightarrow>
      (\<exists>w3. KerbecsDestructor_dtor P F (w, s) c sizeT dtor (Some h) = Ret (w3, s2) ()
        \<and> (\<forall>a. in_range a (h_PayloadPtr h) sizeT \<longrightarrow> w_mem w3 a = TOMBSTONE)
        \<and> ai_Generation (w_infos w3 (h_MetaPtr h)) = 0 \<and> w_viol w3 = w_viol w2
        \<and> q_list (k_queue (rt_core (w_rt w3))) = q_list (k_queue (rt_core (w_rt w2))) @
            [\<lparr>e_BlockSize = n_BlockSize (r_nodes reg ! slot), e_Epoch = k_epoch (rt_core (w_rt w2)),
              e_Allocator = rg_AllocatorSupport r, e_DeallocThunk = Some (support_thunk P),
              e_OwningRegistry = rg_AllocationRegistry r, e_BlockBase = n_BlockBase (r_nodes reg ! slot)\<rparr>]))"
proof (intro conjI impI; (elim conjE)?)
  assume good: "h_PayloadPtr h \<noteq> null" "ai_Generation (w_infos w (h_MetaPtr h)) = h_Generation h"
    and F: "F (w, s) = Ret (w2, s2) r" and ready: "region_ready (p_os P) r w2 reg"
    and slot: "nodeFor r reg h = Some (Some slot)" and hold: "reg_holds reg (n_BlockBase (r_nodes reg ! slot)) slot"
    and live: "n_State (r_nodes reg ! slot) = SLive" "n_LiveCount (r_nodes reg ! slot) = 1"
    and pol: "p_policy P = Strict \<longrightarrow> currentThreadID (c_anchor c) = n_ThreadID (r_nodes reg ! slot)"
    and apart: "\<forall>a u. in_range a (h_PayloadPtr h) sizeT \<longrightarrow> a \<noteq> rg_ShadowBlobPtr r + drop_bit SHADOW_SCALE u"
  obtain w3 where w3: "region_destroy P r w2 c sizeT dtor h = Ret w3 True" "w_viol w3 = w_viol w2"
      "w_infos w3 = (w_infos w2)(h_MetaPtr h := (w_infos w2 (h_MetaPtr h))\<lparr>ai_Generation := 0\<rparr>)"
      "q_list (k_queue (rt_core (w_rt w3))) = q_list (k_queue (rt_core (w_rt w2))) @
        [\<lparr>e_BlockSize = n_BlockSize (r_nodes reg ! slot), e_Epoch = k_epoch (rt_core (w_rt w2)),
          e_Allocator = rg_AllocatorSupport r, e_DeallocThunk = Some (support_thunk P),
          e_OwningRegistry = rg_AllocationRegistry r, e_BlockBase = n_BlockBase (r_nodes reg ! slot)\<rparr>]"
    and mem: "\<And>a. (\<And>u. a \<noteq> rg_ShadowBlobPtr r + drop_bit SHADOW_SCALE u)
      \<Longrightarrow> w_mem w3 a = mem_set (dtor (w_mem w2) (h_PayloadPtr h)) (h_PayloadPtr h) TOMBSTONE sizeT a"
    by (rule region_destroy_final [OF ready slot hold live pol, where sizeT = sizeT and dtor = dtor]) blast
  have "w_mem w3 a = TOMBSTONE" if "in_range a (h_PayloadPtr h) sizeT" for a
    using mem [of a] apart that by (simp add: mem_set_apply)
  moreover have "KerbecsDestructor_dtor P F (w, s) c sizeT dtor (Some h) = Ret (w3, s2) ()"
    using good F w3(1) by (simp add: KerbecsDestructor_dtor_def handle_ptr_def handle_check_def)
  ultimately show "\<exists>w3. KerbecsDestructor_dtor P F (w, s) c sizeT dtor (Some h) = Ret (w3, s2) ()
        \<and> (\<forall>a. in_range a (h_PayloadPtr h) sizeT \<longrightarrow> w_mem w3 a = TOMBSTONE)
        \<and> ai_Generation (w_infos w3 (h_MetaPtr h)) = 0 \<and> w_viol w3 = w_viol w2
        \<and> q_list (k_queue (rt_core (w_rt w3))) = q_list (k_queue (rt_core (w_rt w2))) @
            [\<lparr>e_BlockSize = n_BlockSize (r_nodes reg ! slot), e_Epoch = k_epoch (rt_core (w_rt w2)),
              e_Allocator = rg_AllocatorSupport r, e_DeallocThunk = Some (support_thunk P),
              e_OwningRegistry = rg_AllocationRegistry r, e_BlockBase = n_BlockBase (r_nodes reg ! slot)\<rparr>]"
    using w3(2-4) by (intro exI [of _ w3]) simp
qed (simp_all add: KerbecsDestructor_dtor_def handle_ptr_def handle_check_def)

lemma demo_static:
  "region_ready (p_os type_demo) region_demo (world_demo registry_demo1) registry_demo1"
  "nodeFor region_demo registry_demo1 (handle_demo 0 3) = Some (Some 0)"
  "reg_holds registry_demo1 (n_BlockBase (r_nodes registry_demo1 ! 0)) 0"
  "n_State (r_nodes registry_demo1 ! 0) = SLive" "n_LiveCount (r_nodes registry_demo1 ! 0) = 1"
  "p_policy type_demo = Strict \<longrightarrow> currentThreadID (c_anchor caller_example) = n_ThreadID (r_nodes registry_demo1 ! 0)"
  using demo_ready [OF registry_demo1_inv] registry_demo1_holds
  by (simp_all add: nodeFor_demo registry_demo1_pool registry_demo1_node type_demo_def)

theorem static_destructor_exact_witness:
  "\<exists>w3. KerbecsDestructor_dtor type_demo (\<lambda>sw. Ret sw region_demo) (world_demo registry_demo1, None) caller_example 64
      (\<lambda>m p. m) (Some (handle_demo 0 3)) = Ret (w3, None) ()
    \<and> ai_Generation (w_infos w3 786432) = 0 \<and> w_mem w3 4200 = TOMBSTONE"
proof -
  have h: "h_PayloadPtr (handle_demo 0 3) = 4160" "h_MetaPtr (handle_demo 0 3) = 786432" "h_Generation (handle_demo 0 3) = 3"
    by (simp_all add: handle_demo_def)
  have "in_range 4200 4160 64" by (simp add: in_range_def)
  moreover have "\<forall>a u. in_range a 4160 64 \<longrightarrow> a \<noteq> rg_ShadowBlobPtr region_demo + drop_bit SHADOW_SCALE u"
    using demo_apart by blast
  ultimately show ?thesis
    using static_destructor_exact [of type_demo "\<lambda>sw. Ret sw region_demo" "world_demo registry_demo1" None caller_example 64
        "\<lambda>m p. m" "handle_demo 0 3" "world_demo registry_demo1" None region_demo registry_demo1 0] demo_static
    unfolding h world_demo_simps(2) by auto
qed

text \<open>
  C32: A static object that the program destroys itself stops the process when it ends: after a successful
  \<open>destroy\<close> of its handle, the destructor that \<open>KERBECS_PERSISTENT\<close> or \<open>KERBECS_GLOBAL\<close> has registered
  for it finds a stale generation and traps as \<open>UseAfterFree\<close>, whatever the thread.
\<close>

theorem explicit_destroy_traps_at_exit:
  assumes ok: "region_ready (p_os P) r w reg" and slot: "nodeFor r reg h = Some (Some slot)"
    and hold: "reg_holds reg (n_BlockBase (r_nodes reg ! slot)) slot"
    and live: "n_State (r_nodes reg ! slot) = SLive" "n_LiveCount (r_nodes reg ! slot) = 1"
    and pol: "p_policy P = Strict \<longrightarrow> currentThreadID (c_anchor c) = n_ThreadID (r_nodes reg ! slot)"
    and h: "h_Generation h \<noteq> 0" "h_PayloadPtr h \<noteq> null"
  shows "\<exists>w1. region_destroy P r w c sizeT dtor h = Ret w1 True
    \<and> (\<forall>c' F s. KerbecsDestructor_dtor P F (w1, s) c' sizeT dtor (Some h)
          = Trap (report w1 c' UseAfterFree (h_PayloadPtr h) (h_PayloadPtr h) 0, s))"
proof -
  have inv: "reg_inv reg" using ok by (simp add: region_ready_def)
  obtain w1 where w1: "region_destroy P r w c sizeT dtor h = Ret w1 True"
      "w_infos w1 = (w_infos w)(h_MetaPtr h := (w_infos w (h_MetaPtr h))\<lparr>ai_Generation := 0\<rparr>)"
    by (rule region_destroy_final [OF ok slot hold live pol, where sizeT = sizeT and dtor = dtor]) blast
  then show ?thesis
    using h nodeFor_SomeD(1) [OF slot inv]
    by (intro exI [of _ w1]) (simp add: KerbecsDestructor_dtor_def handle_ptr_def handle_check_def)
qed

theorem explicit_destroy_traps_at_exit_witness:
  "\<exists>w1. region_destroy type_demo region_demo (world_demo registry_demo1) caller_example 64 (\<lambda>m p. m) (handle_demo 0 3)
      = Ret w1 True
    \<and> KerbecsDestructor_dtor type_demo (\<lambda>sw. Ret sw region_demo) (w1, None) caller_example 64 (\<lambda>m p. m)
        (Some (handle_demo 0 3)) = Trap (report w1 caller_example UseAfterFree 4160 4160 0, None)"
proof -
  have h: "h_PayloadPtr (handle_demo 0 3) = 4160" "h_Generation (handle_demo 0 3) = 3" by (simp_all add: handle_demo_def)
  show ?thesis
    using explicit_destroy_traps_at_exit [OF demo_static, where sizeT = 64 and dtor = "\<lambda>m p. m"] unfolding h by auto
qed

end
