(* ===== verification/Kerbecs_StaticSession.thy ===== *)
theory Kerbecs_StaticSession
  imports Kerbecs_SessionUse Kerbecs_Views Kerbecs_StaticUse
begin

text \<open>
  Sessions on a region whose allocator is a bump allocator of the runtime, as the two static regions of
  \<open>KerbecsStatic.h\<close> are (locale \<open>zone_region\<close>). \<open>block_list\<close> is the list of the blocks that a registry has
  ever recorded; destroying and retiring leave it as it is. Such an allocator never takes memory back, so
  the blocks stay apart for ever and no address is used twice.
\<close>

section \<open>The blocks of a registry\<close>

definition block_list :: "registry \<Rightarrow> (addr \<times> u64) list" where
  "block_list reg = map block_of (take (reg_used reg) (r_nodes reg))"

abbreviation blocks_at :: "'e kcore \<Rightarrow> addr \<Rightarrow> (addr \<times> u64) list option" where
  "blocks_at \<equiv> view_at block_list"

lemma block_list_set_node:
  assumes "block_of n = block_of (r_nodes reg ! i)"
  shows "block_list (set_node reg i n) = block_list reg"
proof -
  have "map block_of ((r_nodes reg)[i := n]) = map block_of (r_nodes reg)"
    using assms by (cases "i < length (r_nodes reg)") (simp_all add: map_update list_update_beyond list_update_same_conv)
  then show ?thesis by (simp add: block_list_def take_map [symmetric] reg_used_def set_node_def)
qed

lemma block_list_count [simp]: "block_list (reg\<lparr>r_Count := c\<rparr>) = block_list reg"
  by (simp add: block_list_def)

lemma block_list_with_node:
  assumes "reg_inv reg" and "r_NodeCursor reg < r_NodeCapacity reg"
  shows "block_list (with_node reg n) = block_list reg @ [block_of n]"
proof (rule nth_equalityI)
  have len: "reg_used (with_node reg n) \<le> length (r_nodes (with_node reg n))" "reg_used reg \<le> length (r_nodes reg)"
    using assms with_node_used [OF assms(2)] reg_used_le [OF assms(1)]
    by (auto simp: with_node_def reg_inv_def word_less_nat_alt)
  then have l: "length (block_list (with_node reg n)) = Suc (reg_used reg)" "length (block_list reg) = reg_used reg"
    using with_node_used(2) [OF assms(2), of n] by (simp_all add: block_list_def)
  then show "length (block_list (with_node reg n)) = length (block_list reg @ [block_of n])" by simp
  fix i assume "i < length (block_list (with_node reg n))"
  then have i: "i < Suc (reg_used reg)" using l by simp
  then have "block_list (with_node reg n) ! i = block_of (r_nodes (with_node reg n) ! i)"
    using len(1) with_node_used(2) [OF assms(2), of n] by (simp add: block_list_def)
  also have "\<dots> = (block_list reg @ [block_of n]) ! i"
    using i len(2) l(2) with_node_nth [OF assms, where n = n]
    by (cases "i = reg_used reg") (simp_all add: nth_append block_list_def)
  finally show "block_list (with_node reg n) ! i = (block_list reg @ [block_of n]) ! i" .
qed

interpretation blocks: registry_view block_list
  by unfold_locales (simp_all add: block_list_set_node)

section \<open>Blocks that stay apart\<close>

definition apart :: "addr \<times> u64 \<Rightarrow> addr \<times> u64 \<Rightarrow> bool" where
  "apart b c \<longleftrightarrow> (\<forall>x. in_range x (fst b) (snd b) \<longrightarrow> \<not> in_range x (fst c) (snd c))"

text \<open>All blocks are in the part of the zone that has been handed out, and no two of them share a byte.\<close>

definition all_apart :: "bump \<Rightarrow> (addr \<times> u64) list \<Rightarrow> bool" where
  "all_apart ba bl \<longleftrightarrow>
     (\<forall>b \<in> set bl. snd b \<noteq> 0 \<and> (\<forall>x. in_range x (fst b) (snd b) \<longrightarrow> bump_used ba x)) \<and> sorted_wrt apart bl"

lemma all_apart_add:
  assumes "all_apart ba bl" and ok: "bump_ok ba" and rq: "request_ok (ba_size ba) n al"
    and run: "bumpReserve ba n al = (ba', p)"
  shows "all_apart ba' bl" and "p \<noteq> null \<Longrightarrow> all_apart ba' (bl @ [(p, n)])"
proof -
  note mono = arena.alloc_mono [OF ok rq run] and fresh = arena.alloc_fresh [OF ok rq run]
  show 1: "all_apart ba' bl" using assms(1) mono by (auto simp: all_apart_def)
  assume p: "p \<noteq> null"
  have "n \<noteq> 0" by (rule bumpReserve_cases [OF ok rq run]) (use p in auto)
  moreover have "apart b (p, n)" if "b \<in> set bl" for b
    using that assms(1) fresh [OF p] by (auto simp: apart_def all_apart_def)
  ultimately show "all_apart ba' (bl @ [(p, n)])"
    using 1 fresh [OF p] by (auto simp: all_apart_def sorted_wrt_append)
qed

lemma all_apart_nth:
  assumes "all_apart ba (block_list reg)" and "reg_inv reg" and "i < j" and "j < reg_used reg"
  shows "apart (block_of (r_nodes reg ! i)) (block_of (r_nodes reg ! j))"
    and "n_BlockBase (r_nodes reg ! i) \<noteq> n_BlockBase (r_nodes reg ! j)"
proof -
  have l: "reg_used reg \<le> length (r_nodes reg)" by (rule reg_used_le [OF assms(2)])
  have len: "length (block_list reg) = reg_used reg" using l by (simp add: block_list_def)
  have nth: "block_list reg ! k = block_of (r_nodes reg ! k)" if "k < reg_used reg" for k
    using that l by (simp add: block_list_def)
  have ij: "i < reg_used reg" using assms(3,4) by simp
  have "sorted_wrt apart (block_list reg)" using assms(1) by (simp add: all_apart_def)
  then have "apart (block_list reg ! i) (block_list reg ! j)"
    by (rule sorted_wrt_nth_less) (use assms(3,4) len in simp_all)
  then show ap: "apart (block_of (r_nodes reg ! i)) (block_of (r_nodes reg ! j))"
    unfolding nth [OF ij] nth [OF assms(4)] .
  have "snd (block_list reg ! k) \<noteq> 0" if "k < reg_used reg" for k
    using assms(1) that len unfolding all_apart_def by (metis nth_mem)
  then have "n_BlockSize (r_nodes reg ! i) \<noteq> 0" "n_BlockSize (r_nodes reg ! j) \<noteq> 0"
    using nth ij assms(4) by (metis block_of_def snd_conv)+
  then show "n_BlockBase (r_nodes reg ! i) \<noteq> n_BlockBase (r_nodes reg ! j)"
    using ap [unfolded apart_def, THEN spec, of "n_BlockBase (r_nodes reg ! i)"]
    by (auto simp: block_of_def in_range_def word_gt_0)
qed

section \<open>Regions over a zone\<close>

locale zone_region = quiet_allocator +
  fixes zone :: "'a runtime \<Rightarrow> bump"
  assumes zone_core: "zone (rt\<lparr>rt_core := k\<rparr>) = zone rt"
    and zone_alloc: "a_allocate P w n al = Some (w', p) \<Longrightarrow> bumpReserve (zone (w_rt w)) n al = (zone (w_rt w'), p)"
begin

lemma zone_same: "same_zones w w' \<Longrightarrow> zone (w_rt w') = zone (w_rt w)"
  using zone_core by (metis same_zones_def)

lemma allocate_size:
  assumes run: "region_allocate P r w c sizeT alignT n va = Ret w' h"
  shows "ba_size (zone (w_rt w')) = ba_size (zone (w_rt w))"
  by (rule region_allocate_paths [OF run]) (auto dest!: zone_same zone_alloc bumpReserve_same)

lemma allocate_apart:
  assumes inv: "core_inv (rt_core (w_rt w))" and run: "region_allocate P r w c sizeT alignT n va = Ret w' h"
    and cur: "\<And>reg. k_regs (rt_core (w_rt w)) (rg_AllocationRegistry r) = Some reg \<Longrightarrow> r_NodeCursor reg \<noteq> - 1"
    and ok: "bump_ok (zone (w_rt w))"
    and rq: "request_ok (ba_size (zone (w_rt w))) (layout_blockSize (p_layout P) (n * sizeT) (max va alignT)) (max va alignT)"
    and bl: "blocks_at (rt_core (w_rt w)) (rg_AllocationRegistry r) = Some bl" "all_apart (zone (w_rt w)) bl"
  shows "bump_ok (zone (w_rt w')) \<and> (\<exists>bl'. blocks_at (rt_core (w_rt w')) (rg_AllocationRegistry r) = Some bl'
    \<and> all_apart (zone (w_rt w')) bl')"
proof (rule region_allocate_paths [OF run])
  assume "same_accounts (rt_core (w_rt w)) (rt_core (w_rt w'))" and z: "same_zones w w'"
  then have "blocks_at (rt_core (w_rt w')) = blocks_at (rt_core (w_rt w))"
    using view_cong [of "rt_core (w_rt w')" "rt_core (w_rt w)" block_list] by (simp add: same_accounts_def)
  then show ?thesis using ok bl zone_same [OF z] by simp
next
  fix w1 block
  assume a: "a_allocate P w (layout_blockSize (p_layout P) (n * sizeT) (max va alignT)) (max va alignT) = Some (w1, block)"
    and acc: "same_accounts (rt_core (w_rt w1)) (rt_core (w_rt w'))" and z: "same_zones w1 w'"
  have "same_accounts (rt_core (w_rt w)) (rt_core (w_rt w'))"
    by (rule same_accounts_trans [OF allocate_quiet [OF a] acc])
  then have "blocks_at (rt_core (w_rt w')) = blocks_at (rt_core (w_rt w))"
    using view_cong [of "rt_core (w_rt w')" "rt_core (w_rt w)" block_list] by (simp add: same_accounts_def)
  then show ?thesis
    using bl all_apart_add(1) [OF bl(2) ok rq zone_alloc [OF a]] arena.alloc_inv [OF ok rq zone_alloc [OF a]]
      zone_same [OF z] by simp
next
  fix w1 block bs reg p us reg' st b and w2 :: "'a world"
  assume bs: "bs = layout_blockSize (p_layout P) (n * sizeT) (max va alignT)" and p0: "block \<noteq> null"
    and a: "a_allocate P w bs (max va alignT) = Some (w1, block)" and z: "same_zones w1 w'"
    and acc2: "same_accounts (rt_core (w_rt w1)) (rt_core (w_rt w2))"
    and reg: "k_regs (rt_core (w_rt w2)) (rg_AllocationRegistry r) = Some reg"
    and ins: "registry_insert reg (k_stats (rt_core (w_rt w2))) block p bs us (rg_Allocator r)
         (currentThreadID (c_anchor c)) null n = Some (reg', st, b)"
    and acc: "same_accounts ((rt_core (w_rt w2))\<lparr>k_regs := (k_regs (rt_core (w_rt w2)))(rg_AllocationRegistry r := Some reg'),
          k_stats := st\<rparr>) (rt_core (w_rt w'))"
  have "same_accounts (rt_core (w_rt w)) (rt_core (w_rt w2))"
    by (rule same_accounts_trans [OF allocate_quiet [OF a] acc2])
  then have regw: "k_regs (rt_core (w_rt w)) (rg_AllocationRegistry r) = Some reg" using reg by (simp add: same_accounts_def)
  then have rinv: "reg_inv reg" using core_invD(5) [OF inv] by (simp add: regs_ok_def)
  have bl': "blocks_at (rt_core (w_rt w')) (rg_AllocationRegistry r) = Some (block_list reg')"
    using acc by (simp add: view_at_def same_accounts_def)
  have bl0: "bl = block_list reg" using bl(1) regw by (simp add: view_at_def)
  have zb: "bumpReserve (zone (w_rt w)) bs (max va alignT) = (zone (w_rt w1), block)" by (rule zone_alloc [OF a])
  note rq' = rq [folded bs]
  note add = all_apart_add [OF bl(2) ok rq' zb, unfolded bl0]
  have "all_apart (zone (w_rt w1)) (block_list reg')"
  proof (rule registry_insert_cases [OF rinv ins])
    assume full: "r_NodeCapacity reg \<le> r_NodeCursor reg"
      and e: "Some (reg', st, b) = Some (reg\<lparr>r_NodeCursor := r_NodeCursor reg + 1\<rparr>, k_stats (rt_core (w_rt w2)), False)"
    have "block_list reg' = block_list reg"
      using e reg_inv_cursor(2) [OF rinv full cur [OF regw]] by (simp add: block_list_def)
    then show ?thesis using add(1) by simp
  next
    fix g
    let ?n = "fresh_node reg g block p bs us (rg_Allocator r) (currentThreadID (c_anchor c)) null n"
    assume lt: "r_NodeCursor reg < r_NodeCapacity reg"
      and e: "Some (reg', st, b) = Some (with_node reg ?n, statsOnInit bs (k_stats (rt_core (w_rt w2))), True)"
    have "block_list reg' = block_list reg @ [(block, bs)]"
      using e block_list_with_node [OF rinv lt, of ?n] by (simp add: block_of_def fresh_node_def)
    then show ?thesis using add(2) [OF p0] by simp
  qed (use add(1) in simp_all)
  then show ?thesis using bl' arena.alloc_inv [OF ok rq' zb] zone_same [OF z] by simp
qed

end

section \<open>Sessions on such a region\<close>

text \<open>
  Calls on the region \<open>r\<close>, of type \<open>P\<close>, and on any others, whose allocators leave the zone alone. The guards are
  those of \<open>session_step\<close>, and that the blocks the program asks for in \<open>r\<close> have at most \<open>lim\<close> bytes, alignment
  included, and an alignment that is a power of two: \<open>_bumpReserve\<close> only asserts the one, and does not check that
  the other cannot wrap.
\<close>

inductive zone_step ::
  "'e region_type \<Rightarrow> region \<Rightarrow> ('e runtime \<Rightarrow> bump) \<Rightarrow> nat \<Rightarrow> 'e world \<Rightarrow> 'e world \<Rightarrow> bool" for P r zone lim where
  allocate: "\<lbrakk>region_allocate P r w c sizeT alignT n va = Ret w' h;
     \<forall>reg. k_regs (rt_core (w_rt w)) (rg_AllocationRegistry r) = Some reg \<longrightarrow> r_NodeCursor reg \<noteq> - 1;
     is_pow2 (max va alignT);
     unat (layout_blockSize (p_layout P) (n * sizeT) (max va alignT)) + unat (max va alignT) \<le> lim\<rbrakk>
   \<Longrightarrow> zone_step P r zone lim w w'"
| elsewhere: "\<lbrakk>quiet_allocator P'; region_allocate P' r' w c sizeT alignT n va = Ret w' h;
     rg_AllocationRegistry r' \<noteq> rg_AllocationRegistry r;
     \<forall>w n al w' p. a_allocate P' w n al = Some (w', p) \<longrightarrow> zone (w_rt w') = zone (w_rt w);
     \<forall>reg. k_regs (rt_core (w_rt w)) (rg_AllocationRegistry r') = Some reg \<longrightarrow> r_NodeCursor reg \<noteq> - 1\<rbrakk>
   \<Longrightarrow> zone_step P r zone lim w w'"
| construct: "region_construct P' r' w c sizeT alignT ctor h = Ret w' ok \<Longrightarrow> zone_step P r zone lim w w'"
| destroy: "\<lbrakk>q_Tail (k_queue (rt_core (w_rt w))) \<noteq> - 1;
     region_destroy P' r' w c sizeT dtor h = Ret w' ok\<rbrakk> \<Longrightarrow> zone_step P r zone lim w w'"
| tick: "\<lbrakk>k_epoch (rt_core (w_rt w)) \<noteq> - 1; drain_tick (rt_core (w_rt w)) = Some k\<rbrakk>
   \<Longrightarrow> zone_step P r zone lim w (set_core w k)"
| memory: "zone_step P r zone lim w (w\<lparr>w_mem := m, w_infos := f, w_viol := v\<rparr>)"

definition zone_inv :: "region \<Rightarrow> ('e runtime \<Rightarrow> bump) \<Rightarrow> nat \<Rightarrow> 'e world \<Rightarrow> bool" where
  "zone_inv r zone lim w \<longleftrightarrow> core_inv (rt_core (w_rt w)) \<and> bump_ok (zone (w_rt w))
     \<and> unat (ba_size (zone (w_rt w))) + lim \<le> 2 ^ 64
     \<and> (\<exists>bl. blocks_at (rt_core (w_rt w)) (rg_AllocationRegistry r) = Some bl \<and> all_apart (zone (w_rt w)) bl)"

lemma zone_inv_kept:
  assumes "zone_inv r zone lim w" and "core_inv (rt_core (w_rt w'))" and "zone (w_rt w') = zone (w_rt w)"
    and "blocks_at (rt_core (w_rt w')) (rg_AllocationRegistry r) = blocks_at (rt_core (w_rt w)) (rg_AllocationRegistry r)"
  shows "zone_inv r zone lim w'"
  using assms by (simp add: zone_inv_def)

text \<open>An allocation leaves the records of other registries, and the zones of other allocators, alone.\<close>

lemma elsewhere_kept:
  assumes q: "quiet_allocator P'" and run: "region_allocate P' r' w c sizeT alignT n va = Ret w' h"
    and other: "rg_AllocationRegistry r' \<noteq> a"
    and alloc: "\<And>w n al w' p. a_allocate P' w n al = Some (w', p) \<Longrightarrow> zone (w_rt w') = zone (w_rt w)"
    and core: "\<And>rt k. zone (rt\<lparr>rt_core := k\<rparr>) = zone rt"
  shows "zone (w_rt w') = zone (w_rt w) \<and> blocks_at (rt_core (w_rt w')) a = blocks_at (rt_core (w_rt w)) a"
proof -
  have z: "zone (w_rt w2) = zone (w_rt w1)" if "same_zones w1 w2" for w1 w2 :: "'a world"
    using that core by (metis same_zones_def)
  have got: "k_regs (rt_core (w_rt w1)) = k_regs (rt_core (w_rt w)) \<and> zone (w_rt w1) = zone (w_rt w)"
    if "a_allocate P' w n al = Some (w1, p)" for n al w1 p
    using alloc [OF that] quiet_allocator.allocate_quiet [OF q that] by (simp add: same_accounts_def)
  show ?thesis
    by (rule region_allocate_paths [OF run])
      (use other in \<open>auto dest!: z got simp: same_accounts_def view_at_def\<close>)
qed

context zone_region
begin

lemma zone_step_inv:
  assumes "zone_step P r zone lim w w'" and zi: "zone_inv r zone lim w"
  shows "zone_inv r zone lim w'"
proof -
  have inv: "core_inv (rt_core (w_rt w))" and ok: "bump_ok (zone (w_rt w))"
    and lim: "unat (ba_size (zone (w_rt w))) + lim \<le> 2 ^ 64" using zi by (simp_all add: zone_inv_def)
  obtain bl where bl: "blocks_at (rt_core (w_rt w)) (rg_AllocationRegistry r) = Some bl" "all_apart (zone (w_rt w)) bl"
    using zi by (auto simp: zone_inv_def)
  show ?thesis
    using assms(1)
  proof (cases rule: zone_step.cases)
    case (allocate c sizeT alignT n va h)
    have "request_ok (ba_size (zone (w_rt w))) (layout_blockSize (p_layout P) (n * sizeT) (max va alignT)) (max va alignT)"
      using lim allocate(3,4) by (simp add: request_ok_def)
    then show ?thesis
      using allocate_keeps_inv [OF inv allocate(1)] allocate_apart [OF inv allocate(1) _ ok _ bl] allocate(2)
        lim allocate_size [OF allocate(1)] by (simp add: zone_inv_def)
  next
    case (elsewhere P' r' c sizeT alignT n va h)
    have "core_inv (rt_core (w_rt w'))"
      by (rule quiet_allocator.allocate_keeps_inv [OF elsewhere(1) inv elsewhere(2)]) (use elsewhere(5) in blast)
    then show ?thesis
      using elsewhere_kept [where zone = zone, OF elsewhere(1-3) _ zone_core] elsewhere(4) by (intro zone_inv_kept [OF zi]) blast+
  next
    case (construct P' r' c sizeT alignT ctor h ok)
    have acc: "same_accounts (rt_core (w_rt w)) (rt_core (w_rt w'))" by (rule construct_accounts [OF construct])
    show ?thesis
      using core_inv_cong [OF inv acc] zone_same [OF construct_zones [OF construct]] acc
        view_cong [of "rt_core (w_rt w')" "rt_core (w_rt w)" block_list]
      by (intro zone_inv_kept [OF zi]) (simp_all add: same_accounts_def)
  next
    case (destroy P' r' c sizeT dtor h ok)
    show ?thesis
      using destroy_keeps [OF inv destroy] blocks.destroy_view [OF inv destroy(2)] zone_same
      by (intro zone_inv_kept [OF zi]) simp_all
  next
    case (tick k)
    show ?thesis
      using tick_inv [OF inv tick(2,3)] blocks.tick_view [OF inv tick(2,3)] zone_same [OF zones_kept(3)]
      by (intro zone_inv_kept [OF zi]) (simp_all add: tick(1) env_simps)
  next
    case (memory m f v)
    then show ?thesis using zi by (simp add: zone_inv_def)
  qed
qed

lemma zone_steps_inv: "(zone_step P r zone lim)\<^sup>*\<^sup>* w w' \<Longrightarrow> zone_inv r zone lim w \<Longrightarrow> zone_inv r zone lim w'"
  by (induction rule: rtranclp_induct) (auto intro: zone_step_inv)

text \<open>
  Every record ever made has a block of its own, and a \<open>destroy\<close> through an old handle, whose record is no longer
  live, is refused.
\<close>

lemma blocks_never_reused:
  assumes zi: "zone_inv r zone lim w" and reg: "k_regs (rt_core (w_rt w)) (rg_AllocationRegistry r) = Some reg"
  shows "(\<forall>j < reg_used reg. \<forall>i < j. apart (block_of (r_nodes reg ! i)) (block_of (r_nodes reg ! j)))
    \<and> (\<forall>slot. nodeFor r reg h = Some (Some slot) \<longrightarrow> n_State (r_nodes reg ! slot) \<noteq> SLive \<longrightarrow>
        region_destroy P' r w c sizeT dtor h = Ret (report w c
          (destroy_kind (p_policy P') (currentThreadID (c_anchor c)) (r_nodes reg ! slot)) (h_PayloadPtr h)
          (n_BlockBase (r_nodes reg ! slot)) sizeT) False)"
proof (intro conjI allI impI)
  have inv: "core_inv (rt_core (w_rt w))" using zi by (simp add: zone_inv_def)
  have rinv: "reg_inv reg" using core_invD(5) [OF inv] reg by (simp add: regs_ok_def)
  have ap: "all_apart (zone (w_rt w)) (block_list reg)" using zi reg by (simp add: zone_inv_def view_at_def)
  note nth = all_apart_nth [OF ap rinv]
  show "apart (block_of (r_nodes reg ! i)) (block_of (r_nodes reg ! j))" if "j < reg_used reg" "i < j" for i j
    by (rule nth(1) [OF that(2,1)])
  fix slot assume slot: "nodeFor r reg h = Some (Some slot)" and dead: "n_State (r_nodes reg ! slot) \<noteq> SLive"
  have "n_State (r_nodes reg ! i) \<noteq> SLive" if h: "reg_holds reg (n_BlockBase (r_nodes reg ! slot)) i" for i
  proof -
    have i: "i < reg_used reg" "n_BlockBase (r_nodes reg ! i) = n_BlockBase (r_nodes reg ! slot)"
      using h by (simp_all add: reg_holds_def)
    have "n_BlockBase (r_nodes reg ! i) \<noteq> null" using rinv i(1) by (auto simp: reg_inv_def node_ok_def)
    then have "slot < reg_used reg"
      using rinv nodeFor_SomeD(2) [OF slot rinv] i(2) by (auto simp: reg_inv_def node_zero_def not_less [symmetric])
    then have "i = slot" using nth(2) [of i slot] nth(2) [of slot i] i by (metis linorder_neqE_nat)
    then show ?thesis using dead by simp
  qed
  then show "region_destroy P' r w c sizeT dtor h = Ret (report w c
      (destroy_kind (p_policy P') (currentThreadID (c_anchor c)) (r_nodes reg ! slot)) (h_PayloadPtr h)
      (n_BlockBase (r_nodes reg ! slot)) sizeT) False"
    by (intro region_destroy_refused [OF reg rinv slot]) blast
qed

end

interpretation persistent_zone: zone_region "PersistentRegionT os c" rt_StaticAllocatorImpl for os c
  by unfold_locales (simp_all add: static_zone_allocate_SomeD)

lemma global_zone_allocate_SomeD:
  assumes "global_zone_allocate os w n al = Some (w1, p)"
  shows "bumpReserve (rt_GlobalAllocatorImpl (w_rt w)) n al = (rt_GlobalAllocatorImpl (w_rt w1), p)"
  using assms
  by (auto simp: global_zone_allocate_def Global_allocate_def Bump_allocate_def Let_def
      split: option.splits prod.splits if_splits)

interpretation global_zone: zone_region "GlobalRegionT os c" rt_GlobalAllocatorImpl for os c
  by unfold_locales (simp_all add: global_zone_allocate_SomeD)

section \<open>An example\<close>

text \<open>The session of \<open>session_run\<close>, with the persistent region instead, over its zone of one GiB.\<close>

lemma static_region:
  assumes "rt_Initialized (w_rt w)"
    and "rt_ShadowzoneAllocatorImpl (w_rt w) = \<lparr>ba_base = 65536, ba_size = 1073741824, ba_bump = 0\<rparr>"
    and "rt_MetadataZoneAllocatorImpl (w_rt w) = \<lparr>ba_base = 3221291008, ba_size = 1073741824, ba_bump = 0\<rparr>"
    and "rt_table (w_rt w) = \<lparr>t_Records = 65536, t_records = [region_record_zero, region_record_zero], t_Count = 0,
        t_RegisterLock = False\<rparr>"
  shows "\<exists>w' r. region_ctor (PersistentRegionT os_bounded small_config) w 256 328 384 320 1073741824 2 2147549184 = Ret w' r
    \<and> rg_Initialized r \<and> rg_ShadowBlobPtr r = 65536 \<and> rt_StaticAllocatorImpl (w_rt w') = rt_StaticAllocatorImpl (w_rt w)
    \<and> (\<exists>reg. k_regs (rt_core (w_rt w')) 384 = Some reg \<and> r_NodeCursor reg = 0 \<and> r_NodeCapacity reg = 2)"
  using assms by (simp add: ctor_defs)

lemma static_block:
  assumes "rt_StaticAllocatorImpl (w_rt w) = \<lparr>ba_base = 2147549184, ba_size = 1073741824, ba_bump = 0\<rparr>"
  shows "\<exists>w1. static_zone_allocate os_bounded w 120 16 = Some (w1, 2147549184)
    \<and> k_regs (rt_core (w_rt w1)) = k_regs (rt_core (w_rt w))"
proof -
  have pg: "pageOf 2147549184 = 2147549184" "pageOf 2147549303 = 2147549184" by (simp_all add: pageOf_def PAGE_SIZE_def)
  have "commitPages os_bounded () 2147549184 2147549184 = Some ()"
    by (subst commitPages_eq) (simp_all add: pages_between_def bounded_commits)
  then show ?thesis
    using assms
    by (simp add: static_zone_allocate_def Static_allocate_def Bump_allocate_def bumpReserve_def alignUp_def pg Let_def)
qed

lemma static_allocates:
  assumes zone: "rt_StaticAllocatorImpl (w_rt w) = \<lparr>ba_base = 2147549184, ba_size = 1073741824, ba_bump = 0\<rparr>"
    and reg: "k_regs (rt_core (w_rt w)) (rg_AllocationRegistry r) = Some reg" and inv: "reg_inv reg"
    and cur: "r_NodeCursor reg = 0" "r_NodeCapacity reg = 2"
    and r: "rg_Initialized r" "rg_RegionBase r = 2147549184" "rg_Size r = 1073741824" "rg_ShadowBlobPtr r = 65536"
  shows "\<exists>w' h. region_allocate (PersistentRegionT os_bounded small_config) r w caller_example 64 16 1 16 = Ret w' h
    \<and> h_PayloadPtr h \<noteq> null"
proof -
  obtain v where v: "static_zone_allocate os_bounded w 120 16 = Some (v, 2147549184)"
    "k_regs (rt_core (w_rt v)) = k_regs (rt_core (w_rt w))" using static_block [OF zone] by blast
  have "layout_userData (fst (layout_place StaticLayout (w_mem v) 2147549184 120 64 16)) = 32"
    by (auto simp: Static_place_def Let_def alignUp_def layout_consts split: prod.splits)
  moreover have "layout_blockSize StaticLayout 64 16 = 120"
    by (simp add: Static_blockSize_def alignUp_def layout_consts Let_def)
  moreover have "region_contains r 2147549216 64" using r by (simp add: region_contains_def)
  ultimately obtain w' h where "region_allocate (PersistentRegionT os_bounded small_config) r w caller_example 64 16 1 16 = Ret w' h"
      and "h_PayloadPtr h = 2147549216"
    using bounded_allocates [where P = "PersistentRegionT os_bounded small_config" and w = w and bs = 120 and al = 16
        and v = v and block = 2147549184 and us = 64 and u = 32 and r = r, OF _ _ _ _ _ _ _ _ _ inv cur] r v reg
    by auto
  then show ?thesis by (intro exI [of _ w'] exI [of _ h]) simp
qed

lemma static_run:
  fixes P :: "unit region_type"
  defines "P \<equiv> PersistentRegionT os_bounded small_config"
  obtains rt w r w' h reg reg' where "runtime_init os_bounded small_config (runtime_new ()) = Ret rt True"
    and "region_ctor P (world_example\<lparr>w_rt := rt\<rparr>) 256 328 384 320 1073741824 2 2147549184 = Ret w r"
    and "session_step\<^sup>*\<^sup>* (world_example\<lparr>w_rt := rt\<rparr>) w"
    and "k_regs (rt_core (w_rt w)) (rg_AllocationRegistry r) = Some reg" and "reg_used reg = 0"
    and "bump_ok (rt_StaticAllocatorImpl (w_rt w))" and "unat (ba_size (rt_StaticAllocatorImpl (w_rt w))) + 2 ^ 32 \<le> 2 ^ 64"
    and "region_allocate P r w caller_example 64 16 1 16 = Ret w' h" and "h_PayloadPtr h \<noteq> null"
    and "(zone_step P r rt_StaticAllocatorImpl (2 ^ 32))\<^sup>*\<^sup>* w w'"
    and "k_regs (rt_core (w_rt w')) (rg_AllocationRegistry r) = Some reg'"
proof -
  obtain rt where rt: "runtime_init os_bounded small_config (runtime_new ()) = Ret rt True" "rt_Initialized rt"
    "rt_ShadowzoneAllocatorImpl rt = \<lparr>ba_base = 65536, ba_size = 1073741824, ba_bump = 0\<rparr>"
    "rt_MetadataZoneAllocatorImpl rt = \<lparr>ba_base = 3221291008, ba_size = 1073741824, ba_bump = 0\<rparr>"
    "rt_table rt = \<lparr>t_Records = 65536, t_records = [region_record_zero, region_record_zero], t_Count = 0,
        t_RegisterLock = False\<rparr>"
    "k_regs (rt_core rt) = (\<lambda>_. None)" "k_epoch (rt_core rt) = 0"
    and zone: "rt_StaticAllocatorImpl rt = \<lparr>ba_base = 2147549184, ba_size = 1073741824, ba_bump = 0\<rparr>"
    by (rule session_start)
  let ?w0 = "world_example\<lparr>w_rt := rt\<rparr>"
  obtain w r reg where ctor: "region_ctor P ?w0 256 328 384 320 1073741824 2 2147549184 = Ret w r" "rg_Initialized r"
    and blob: "rg_ShadowBlobPtr r = 65536" and zw: "rt_StaticAllocatorImpl (w_rt w) = rt_StaticAllocatorImpl rt"
    and reg: "k_regs (rt_core (w_rt w)) 384 = Some reg" "r_NodeCursor reg = 0" "r_NodeCapacity reg = 2"
    using static_region [of ?w0] rt unfolding P_def by auto
  note f = region_ctor_fields [OF ctor(1)]
  have up: "rt_Initialized (w_rt ?w0)" using rt(2) by simp
  have cap: "unat (2 :: u64) < 2 ^ 56" by simp
  have s1: "session_step ?w0 w"
    by (rule session_step.make_region [OF up _ _ cap ctor]) (simp_all add: rt)
  obtain reg1 where "reg_inv reg1" "k_regs (rt_core (w_rt w)) = (k_regs (rt_core (w_rt ?w0)))(384 := Some reg1)"
    by (rule region_ctor_core [OF ctor up cap])
  then have inv: "reg_inv reg" using reg(1) by simp
  have at: "k_regs (rt_core (w_rt w)) (rg_AllocationRegistry r) = Some reg" using f reg(1) by simp
  obtain w' h where a: "region_allocate P r w caller_example 64 16 1 16 = Ret w' h" "h_PayloadPtr h \<noteq> null"
    using static_allocates [OF zw [unfolded zone] at inv reg(2,3) ctor(2)] f blob unfolding P_def by auto
  have "zone_step P r rt_StaticAllocatorImpl (2 ^ 32) w w'"
    by (rule zone_step.allocate [OF a(1)])
      (simp_all add: at reg(2) P_def is_pow2_def Static_blockSize_def layout_consts alignUp_def)
  moreover have "h \<noteq> handle_null" using a(2) by (auto simp: handle_null_def)
  then obtain reg' where "k_regs (rt_core (w_rt w')) (rg_AllocationRegistry r) = Some reg'"
    using persistent_alloc.allocate_sound [OF a(1) [unfolded P_def] _ at inv] by blast
  moreover have "bump_ok (rt_StaticAllocatorImpl (w_rt w))" "unat (ba_size (rt_StaticAllocatorImpl (w_rt w))) + 2 ^ 32 \<le> 2 ^ 64"
    by (simp_all add: zw zone bump_ok_def)
  moreover have "reg_used reg = 0" using reg(2) by (simp add: reg_used_def)
  ultimately show thesis using that rt(1) ctor(1) s1 at a by blast
qed

text \<open>Both regions, one after the other, in the process of \<open>session_start\<close>.\<close>

definition site_demo :: static_site where
  "site_demo = \<lparr>ss_Region = 256, ss_Support = 328, ss_Registry = 384, ss_Allocator = 320\<rparr>"

definition site_demo2 :: static_site where
  "site_demo2 = \<lparr>ss_Region = 512, ss_Support = 584, ss_Registry = 640, ss_Allocator = 576\<rparr>"

lemma second_meta:
  assumes "rt_MetadataZoneAllocatorImpl rt = \<lparr>ba_base = 3221291008, ba_size = 1073741824, ba_bump = 32\<rparr>"
  shows "metadataZoneAllocate os_bounded rt 32 16 = Some (rt
      \<lparr>rt_MetadataZoneAllocatorImpl := \<lparr>ba_base = 3221291008, ba_size = 1073741824, ba_bump = 64\<rparr>\<rparr>, 3221291040)"
proof -
  have pg: "pageOf 3221291040 = 3221291008" "pageOf 3221291071 = 3221291008" by (simp_all add: pageOf_def PAGE_SIZE_def)
  have "commitPages os_bounded () 3221291008 3221291008 = Some ()"
    by (subst commitPages_eq) (simp_all add: pages_between_def bounded_commits)
  then show ?thesis
    using assms
    by (simp add: metadataZoneAllocate_def MetadataZone_allocate_def Bump_allocate_def bumpReserve_def alignUp_def pg Let_def)
qed

lemma demo_regions:
  assumes "rt_Initialized (w_rt w)"
    and "rt_ShadowzoneAllocatorImpl (w_rt w) = \<lparr>ba_base = 65536, ba_size = 1073741824, ba_bump = 0\<rparr>"
    and "rt_MetadataZoneAllocatorImpl (w_rt w) = \<lparr>ba_base = 3221291008, ba_size = 1073741824, ba_bump = 0\<rparr>"
    and "rt_table (w_rt w) = \<lparr>t_Records = 65536, t_records = [region_record_zero, region_record_zero], t_Count = 0,
        t_RegisterLock = False\<rparr>"
  shows "\<exists>w1 r w2 g. persistentRegion os_bounded small_config site_demo (w, None) = Ret (w1, Some r) r \<and> rg_Initialized r
    \<and> globalRegion os_bounded small_config site_demo2 (w1, None) = Ret (w2, Some g) g \<and> rg_Initialized g
    \<and> rt_Initialized (w_rt w2)"
  using assms
  by (simp add: persistentRegion_def globalRegion_def site_demo_def site_demo2_def GIBI_BYTE_def ctor_defs second_meta
      spin_unlock_def word_le_nat_alt)

section \<open>Properties\<close>

text \<open>
  C10: In the two static regions no address is ever used twice, as long as every request, alignment included, is
  so small (\<open>lim\<close>) that the size of the zone plus the request does not exceed \<open>2 ^ 64\<close>, and every alignment is a
  power of two; without that bound it is false, as a request near \<open>2 ^ 64\<close> wraps in \<open>_bumpReserve\<close> and moves the
  zone back. Start in any reachable state with the region just created, and let the program allocate
  under the bound, construct and destroy in it, use other regions, and let the drain thread run: no two
  blocks that the region has ever recorded share a byte, live or not; so a \<open>destroy\<close> through a handle
  whose record is no longer live is refused, with a report, however old it is.
\<close>

theorem static_blocks_never_reused:
  assumes run: "runtime_init os c (runtime_new e) = Ret rt True" and cap: "is_pow2 (c_QUARANTINE_CAPACITY c)"
    "unat (c_QUARANTINE_CAPACITY c) < 2 ^ 58" and start: "session_step\<^sup>*\<^sup>* (w0\<lparr>w_rt := rt\<rparr>) w1"
    and P: "(P, zone) \<in> {(PersistentRegionT os c, rt_StaticAllocatorImpl), (GlobalRegionT os c, rt_GlobalAllocatorImpl)}"
    and new: "k_regs (rt_core (w_rt w1)) (rg_AllocationRegistry r) = Some reg1" "reg_used reg1 = 0" "bump_ok (zone (w_rt w1))"
    and lim: "unat (ba_size (zone (w_rt w1))) + lim \<le> 2 ^ 64"
    and steps: "(zone_step P r zone lim)\<^sup>*\<^sup>* w1 w" and reg: "k_regs (rt_core (w_rt w)) (rg_AllocationRegistry r) = Some reg"
  shows "(\<forall>j < reg_used reg. \<forall>i < j. \<forall>x.
      \<not> (in_range x (n_BlockBase (r_nodes reg ! i)) (n_BlockSize (r_nodes reg ! i))
        \<and> in_range x (n_BlockBase (r_nodes reg ! j)) (n_BlockSize (r_nodes reg ! j))))
    \<and> (\<forall>slot. nodeFor r reg h = Some (Some slot) \<longrightarrow> n_State (r_nodes reg ! slot) \<noteq> SLive \<longrightarrow>
        region_destroy P r w c' sizeT dtor h = Ret (report w c'
          (destroy_kind (p_policy P) (currentThreadID (c_anchor c')) (r_nodes reg ! slot)) (h_PayloadPtr h)
          (n_BlockBase (r_nodes reg ! slot)) sizeT) False)"
proof -
  have zi: "zone_inv r zone lim w1"
    using session_inv [OF run cap start] new lim by (simp add: zone_inv_def view_at_def block_list_def all_apart_def)
  consider "P = PersistentRegionT os c" "zone = rt_StaticAllocatorImpl"
    | "P = GlobalRegionT os c" "zone = rt_GlobalAllocatorImpl" using P by blast
  then show ?thesis
  proof cases
    case 1
    show ?thesis
      using persistent_zone.blocks_never_reused [OF persistent_zone.zone_steps_inv [OF steps [unfolded 1] zi [unfolded 1]] reg, of h P c' sizeT dtor]
      by (auto simp: apart_def block_of_def)
  next
    case 2
    show ?thesis
      using global_zone.blocks_never_reused [OF global_zone.zone_steps_inv [OF steps [unfolded 2] zi [unfolded 2]] reg, of h P c' sizeT dtor]
      by (auto simp: apart_def block_of_def)
  qed
qed

theorem static_blocks_never_reused_witness:
  "\<exists>rt w r w' h reg. runtime_init os_bounded small_config (runtime_new ()) = Ret rt True
    \<and> region_ctor (PersistentRegionT os_bounded small_config) (world_example\<lparr>w_rt := rt\<rparr>) 256 328 384 320 1073741824 2
        2147549184 = Ret w r
    \<and> region_allocate (PersistentRegionT os_bounded small_config) r w caller_example 64 16 1 16 = Ret w' h
    \<and> h_PayloadPtr h \<noteq> null \<and> k_regs (rt_core (w_rt w')) (rg_AllocationRegistry r) = Some reg
    \<and> (\<forall>j < reg_used reg. \<forall>i < j. \<forall>x.
        \<not> (in_range x (n_BlockBase (r_nodes reg ! i)) (n_BlockSize (r_nodes reg ! i))
          \<and> in_range x (n_BlockBase (r_nodes reg ! j)) (n_BlockSize (r_nodes reg ! j))))"
proof -
  let ?P = "PersistentRegionT os_bounded small_config"
  obtain rt w r w' h reg reg' where run: "runtime_init os_bounded small_config (runtime_new ()) = Ret rt True"
    "region_ctor ?P (world_example\<lparr>w_rt := rt\<rparr>) 256 328 384 320 1073741824 2 2147549184 = Ret w r"
    "session_step\<^sup>*\<^sup>* (world_example\<lparr>w_rt := rt\<rparr>) w"
    "k_regs (rt_core (w_rt w)) (rg_AllocationRegistry r) = Some reg" "reg_used reg = 0"
    "bump_ok (rt_StaticAllocatorImpl (w_rt w))" "unat (ba_size (rt_StaticAllocatorImpl (w_rt w))) + 2 ^ 32 \<le> 2 ^ 64"
    "region_allocate ?P r w caller_example 64 16 1 16 = Ret w' h" "h_PayloadPtr h \<noteq> null"
    "(zone_step ?P r rt_StaticAllocatorImpl (2 ^ 32))\<^sup>*\<^sup>* w w'"
    "k_regs (rt_core (w_rt w')) (rg_AllocationRegistry r) = Some reg'" by (rule static_run)
  have cap: "is_pow2 (c_QUARANTINE_CAPACITY small_config)" "unat (c_QUARANTINE_CAPACITY small_config) < 2 ^ 58"
    by (simp_all add: small_config_def is_pow2_def)
  from static_blocks_never_reused [OF run(1) cap run(3) _ run(4-7,10,11)] run(1,2,8,9,11) show ?thesis by blast
qed

text \<open>
  C34: How the two static regions come about. In a process whose runtime has just been initialised, the first
  call of \<open>persistentRegion\<close> and then of \<open>globalRegion\<close>, when they succeed, give two regions: the first spans
  exactly the static zone, from its first to its last byte, and the second exactly the global zone, and
  no address lies in both. Each zone belongs to an allocator that has handed out nothing yet, whose
  address the region keeps; each region has an empty registry of the configured capacity at its own
  address. Every later call, from any later state of the process (as long as the runtime has not been torn
  down), returns the same two regions and changes nothing. The four zones must fit into the address
  space together, the operating system must map them without a wrap, and the two registries must have
  addresses of their own.
\<close>

theorem static_regions_partition:
  assumes init: "runtime_init os c (w_rt w) = Ret rt True" and fresh: "\<not> rt_Initialized (w_rt w)"
    and mmap: "\<forall>e h n e' p. sys_mmap os e h n PROT_NONE = (e', Some p) \<longrightarrow> unat p + unat n \<le> 2 ^ 64"
    and sizes: "(unat (c_SHADOWZONE_SIZE c) + unat (c_GLOBALZONE_SIZE c) + unat (c_STATICZONE_SIZE c)
        + unat (c_METADATAZONE_SIZE c)) * 2 ^ 30 < 2 ^ 64"
    and cap: "is_pow2 (c_QUARANTINE_CAPACITY c)" "unat (c_QUARANTINE_CAPACITY c) < 2 ^ 58"
    and regs: "unat (c_REGISTRY_CAPACITY c) < 2 ^ 56" "ss_Registry site \<noteq> ss_Registry site'"
    and r: "persistentRegion os c site (w, None) = Ret (w1, s) r" "rg_Initialized r"
    and g: "globalRegion os c site' (w1, None) = Ret (w2, s') g" "rg_Initialized g"
  shows "rt_StaticAllocatorImpl (w_rt w2) = \<lparr>ba_base = rg_RegionBase r, ba_size = rg_Size r, ba_bump = 0\<rparr>
    \<and> rg_Size r = staticBytes c \<and> bump_ok (rt_StaticAllocatorImpl (w_rt w2)) \<and> rg_Allocator r = ss_Allocator site
    \<and> rt_GlobalAllocatorImpl (w_rt w2) = \<lparr>ba_base = rg_RegionBase g, ba_size = rg_Size g, ba_bump = 0\<rparr>
    \<and> rg_Size g = globalBytes c \<and> bump_ok (rt_GlobalAllocatorImpl (w_rt w2)) \<and> rg_Allocator g = ss_Allocator site'
    \<and> (\<forall>a. \<not> (in_range a (rg_RegionBase r) (rg_Size r) \<and> in_range a (rg_RegionBase g) (rg_Size g)))
    \<and> (\<exists>reg reg'. k_regs (rt_core (w_rt w2)) (rg_AllocationRegistry r) = Some reg
        \<and> k_regs (rt_core (w_rt w2)) (rg_AllocationRegistry g) = Some reg'
        \<and> (\<forall>x \<in> {reg, reg'}. reg_inv x \<and> reg_used x = 0 \<and> r_NodeCapacity x = c_REGISTRY_CAPACITY c))
    \<and> (\<forall>w3. rt_Initialized (w_rt w3) \<longrightarrow> persistentRegion os c site (w3, s) = Ret (w3, s) r
        \<and> globalRegion os c site' (w3, s') = Ret (w3, s') g)"
proof -
  note z = init_zones [OF init fresh mmap sizes cap]
  let ?w0 = "w\<lparr>w_rt := rt\<rparr>"
  have rc: "region_ctor (PersistentRegionT os c) ?w0 (ss_Region site) (ss_Support site) (ss_Registry site)
      (ss_Allocator site) (staticBytes c) (c_REGISTRY_CAPACITY c) (rt_StaticZone rt) = Ret w1 r" and s: "s = Some r"
    using persistentRegion_first [OF init r(1)] by simp_all
  have up: "rt_Initialized (w_rt ?w0)" using z by simp
  note rz = region_ctor_zones [OF rc r(2) up] and rf = region_ctor_fields [OF rc]
  have init1: "runtime_init os c (w_rt w1) = Ret (w_rt w1) True" using rz(1) by (simp add: runtime_init_def)
  have gc: "region_ctor (GlobalRegionT os c) w1 (ss_Region site') (ss_Support site') (ss_Registry site')
      (ss_Allocator site') (globalBytes c) (c_REGISTRY_CAPACITY c) (rt_GlobalZone (w_rt w1)) = Ret w2 g" and s': "s' = Some g"
    using globalRegion_first [OF init1 g(1)] by simp_all
  note gz = region_ctor_zones [OF gc g(2) rz(1)] and gf = region_ctor_fields [OF gc]
  obtain reg where reg: "reg_inv reg" "reg_used reg = 0" "r_NodeCapacity reg = c_REGISTRY_CAPACITY c"
    "k_regs (rt_core (w_rt w1)) = (k_regs (rt_core (w_rt ?w0)))(ss_Registry site := Some reg)"
    by (rule region_ctor_core [OF rc r(2) up regs(1)])
  obtain reg' where reg': "reg_inv reg'" "reg_used reg' = 0" "r_NodeCapacity reg' = c_REGISTRY_CAPACITY c"
    "k_regs (rt_core (w_rt w2)) = (k_regs (rt_core (w_rt w1)))(ss_Registry site' := Some reg')"
    by (rule region_ctor_core [OF gc g(2) rz(1) regs(1)])
  have apart: "\<not> (in_range a (rg_RegionBase r) (rg_Size r) \<and> in_range a (rg_RegionBase g) (rg_Size g))" for a
    using in_range_offset [of "globalBytes c" "staticBytes c" a "rt_MemoryZone rt + shadowBytes c"] z rf gf rz(4)
    by (auto simp: in_range_base)
  have "rt_StaticAllocatorImpl (w_rt w2) = \<lparr>ba_base = rg_RegionBase r, ba_size = rg_Size r, ba_bump = 0\<rparr>
    \<and> bump_ok (rt_StaticAllocatorImpl (w_rt w2))
    \<and> rt_GlobalAllocatorImpl (w_rt w2) = \<lparr>ba_base = rg_RegionBase g, ba_size = rg_Size g, ba_bump = 0\<rparr>
    \<and> bump_ok (rt_GlobalAllocatorImpl (w_rt w2))"
    using z rz gz rf gf by (simp add: zone_ok_def)
  moreover have "persistentRegion os c site (w3, s) = Ret (w3, s) r \<and> globalRegion os c site' (w3, s') = Ret (w3, s') g"
    if "rt_Initialized (w_rt w3)" for w3
    using that by (simp add: persistentRegion_def globalRegion_def runtime_init_def s s')
  ultimately show ?thesis using apart rf gf reg reg' regs(2) by auto
qed

theorem static_regions_partition_witness:
  "\<exists>w1 r w2 g. persistentRegion os_bounded small_config site_demo (world_example, None) = Ret (w1, Some r) r
    \<and> globalRegion os_bounded small_config site_demo2 (w1, None) = Ret (w2, Some g) g
    \<and> rg_Size r = 2 ^ 30 \<and> rg_Size g = 2 ^ 30
    \<and> (\<forall>a. \<not> (in_range a (rg_RegionBase r) (rg_Size r) \<and> in_range a (rg_RegionBase g) (rg_Size g)))
    \<and> persistentRegion os_bounded small_config site_demo (w2, Some r) = Ret (w2, Some r) r"
proof -
  obtain rt where rt: "runtime_init os_bounded small_config (runtime_new ()) = Ret rt True" "rt_Initialized rt"
    "rt_ShadowzoneAllocatorImpl rt = \<lparr>ba_base = 65536, ba_size = 1073741824, ba_bump = 0\<rparr>"
    "rt_MetadataZoneAllocatorImpl rt = \<lparr>ba_base = 3221291008, ba_size = 1073741824, ba_bump = 0\<rparr>"
    "rt_table rt = \<lparr>t_Records = 65536, t_records = [region_record_zero, region_record_zero], t_Count = 0,
        t_RegisterLock = False\<rparr>" by (rule session_start)
  have w: "w_rt world_example = runtime_new ()" by (simp add: world_example_def)
  have init: "runtime_init os_bounded small_config (w_rt world_example) = Ret rt True" by (simp add: w rt(1))
  obtain w1 r w2 g where run: "persistentRegion os_bounded small_config site_demo (world_example\<lparr>w_rt := rt\<rparr>, None) = Ret (w1, Some r) r"
      "rg_Initialized r" "globalRegion os_bounded small_config site_demo2 (w1, None) = Ret (w2, Some g) g" "rg_Initialized g"
      "rt_Initialized (w_rt w2)"
    using demo_regions [of "world_example\<lparr>w_rt := rt\<rparr>"] rt by auto
  have "runtime_init os_bounded small_config rt = Ret rt True" using rt(2) by (simp add: runtime_init_def)
  then have first: "persistentRegion os_bounded small_config site_demo (world_example, None) = Ret (w1, Some r) r"
    using run(1) by (simp add: persistentRegion_def init)
  have fresh: "\<not> rt_Initialized (w_rt world_example)" by (simp add: w runtime_new_def)
  have mmap: "\<forall>e h n e' p. sys_mmap os_bounded e h n PROT_NONE = (e', Some p) \<longrightarrow> unat p + unat n \<le> 2 ^ 64"
    by (auto simp: os_bounded_def os_giving_def word_le_nat_alt split: if_splits)
  have sizes: "(unat (c_SHADOWZONE_SIZE small_config) + unat (c_GLOBALZONE_SIZE small_config)
      + unat (c_STATICZONE_SIZE small_config) + unat (c_METADATAZONE_SIZE small_config)) * 2 ^ 30 < 2 ^ 64"
    and cap: "is_pow2 (c_QUARANTINE_CAPACITY small_config)" "unat (c_QUARANTINE_CAPACITY small_config) < 2 ^ 58"
    and regs: "unat (c_REGISTRY_CAPACITY small_config) < 2 ^ 56" "ss_Registry site_demo \<noteq> ss_Registry site_demo2"
    by (simp_all add: small_config_def is_pow2_def site_demo_def site_demo2_def)
  note p = static_regions_partition [OF init fresh mmap sizes cap regs first run(2-4)]
  show ?thesis using p first run(3,5) by (auto simp: staticBytes_def globalBytes_def small_config_def GIBI_BYTE_def)
qed

end
