(* ===== verification/Kerbecs_HandleLife.thy ===== *)
theory Kerbecs_HandleLife
  imports Kerbecs_SessionUse Kerbecs_Views
begin

text \<open>
  Handles in the course of a session. The generation that a handle is checked against is written in two
  places only: \<open>allocate\<close> writes it for a record that has never been used before, and \<open>destroy\<close> clears it. So
  a handle that has gone stale stays stale, whatever the program does.
\<close>

section \<open>What the steps of a session leave of a registry\<close>

interpretation shape: registry_view "\<lambda>reg. (reg_used reg, r_NodeCapacity reg)"
  by unfold_locales (simp_all add: reg_used_def set_node_def)

abbreviation shape_at :: "'e kcore \<Rightarrow> addr \<Rightarrow> (nat \<times> u64) option" where
  "shape_at \<equiv> view_at (\<lambda>reg. (reg_used reg, r_NodeCapacity reg))"

lemma construct_infos: "region_construct P r w c sizeT alignT ctor h = Ret w' ok \<Longrightarrow> w_infos w' = w_infos w"
  by (auto simp: region_construct_def env_simps dest!: setShadow_frame(1) split: option.splits if_splits)

lemma destroy_infos:
  assumes "region_destroy P r w c sizeT dtor h = Ret w' ok"
  shows "w_infos w' a = w_infos w a \<or> ai_Generation (w_infos w' a) = 0"
  using assms
  by (auto simp: region_destroy_def Let_def env_simps dest!: setShadow_frame(1)
      split: option.splits if_splits prod.splits outcome.splits)

lemma endRetiring_epoch: "endRetiring k this p ep al th = Ret k' () \<Longrightarrow> k_epoch k' = k_epoch k"
  by (auto simp: endRetiring_def queue_enqueue_def queue_onSaturation_def Let_def
      split: option.splits if_splits outcome.splits prod.splits)

lemma destroy_epoch:
  assumes inv: "core_inv (rt_core (w_rt w))" and run: "region_destroy P r w c sizeT dtor h = Ret w' ok"
  shows "k_epoch (rt_core (w_rt w')) = k_epoch (rt_core (w_rt w))"
  by (rule region_destroy_paths [OF run core_invD(5) [OF inv]]) (auto simp: same_accounts_def dest: endRetiring_epoch)

lemma dtor_infos: "region_dtor P w r = Some w' \<Longrightarrow> w_infos w' = w_infos w"
  by (auto simp: region_dtor_def Let_def env_simps split: option.splits prod.splits)

lemma dtor_shape:
  assumes inv: "core_inv (rt_core (w_rt w))" and run: "region_dtor P w r = Some w'" and other: "a \<noteq> rg_AllocationRegistry r"
  shows "shape_at (rt_core (w_rt w')) a = shape_at (rt_core (w_rt w)) a"
proof -
  note d = core_invD [OF inv]
  obtain k' n where f: "queue_flushEligible (rt_core (w_rt w)) (- 1) True = Some (k', n)"
    and k': "k_regs (rt_core (w_rt w')) a = k_regs k' a"
    using run other by (auto simp: region_dtor_def Let_def env_simps split: option.splits prod.splits)
  then obtain k0 where k0: "retire_all (rt_core (w_rt w)) (due (rt_core (w_rt w)) (- 1) True) = Some k0"
      "k_regs k' = k_regs k0"
    using flushEligible_eq [OF d(1,2), of "- 1" True] by auto
  show ?thesis using fun_cong [OF shape.retire_all_view [OF k0(1)], of a] k0(2) k' by (simp add: view_at_def)
qed

section \<open>Sessions seen from one region\<close>

text \<open>The slots of two regions' \<open>AccessInfo\<close> arrays are apart, as the metadata zone hands them out.\<close>

definition maps_apart :: "region \<Rightarrow> u64 \<Rightarrow> region \<Rightarrow> u64 \<Rightarrow> bool" where
  "maps_apart r n r' n' \<longleftrightarrow> (\<forall>i < unat n. \<forall>j < unat n'.
     rg_MetadataMapBase r + of_nat i * sizeof_AccessInfo \<noteq> rg_MetadataMapBase r' + of_nat j * sizeof_AccessInfo)"

text \<open>
  The steps of a session around the region \<open>r\<close>: those of \<open>session_step\<close>, except that the program does not end
  \<open>r\<close> itself, does not write into the metadata zone, and that the other regions it allocates from have metadata
  of their own.
\<close>

inductive use_step :: "region \<Rightarrow> 'e world \<Rightarrow> 'e world \<Rightarrow> bool" for r where
  make_region: "\<lbrakk>rt_Initialized (w_rt w); k_regs (rt_core (w_rt w)) registry = None; registry \<noteq> null; unat cap < 2 ^ 56;
     region_ctor P w self support registry a sz cap base = Ret w' r'; rg_Initialized r'\<rbrakk> \<Longrightarrow> use_step r w w'"
| allocate: "\<lbrakk>quiet_allocator P; region_allocate P r w c sizeT alignT n va = Ret w' h;
     \<forall>reg. k_regs (rt_core (w_rt w)) (rg_AllocationRegistry r) = Some reg \<longrightarrow> r_NodeCursor reg \<noteq> - 1\<rbrakk> \<Longrightarrow> use_step r w w'"
| elsewhere: "\<lbrakk>quiet_allocator P; region_allocate P r' w c sizeT alignT n va = Ret w' h;
     rg_AllocationRegistry r' \<noteq> rg_AllocationRegistry r;
     k_regs (rt_core (w_rt w)) (rg_AllocationRegistry r) = Some reg;
     k_regs (rt_core (w_rt w)) (rg_AllocationRegistry r') = Some reg'; r_NodeCursor reg' \<noteq> - 1;
     maps_apart r (r_NodeCapacity reg) r' (r_NodeCapacity reg')\<rbrakk> \<Longrightarrow> use_step r w w'"
| construct: "region_construct P r' w c sizeT alignT ctor h = Ret w' ok \<Longrightarrow> use_step r w w'"
| destroy: "\<lbrakk>q_Tail (k_queue (rt_core (w_rt w))) \<noteq> - 1;
     region_destroy P r' w c sizeT dtor h = Ret w' ok\<rbrakk> \<Longrightarrow> use_step r w w'"
| tick: "\<lbrakk>k_epoch (rt_core (w_rt w)) \<noteq> - 1; drain_tick (rt_core (w_rt w)) = Some k\<rbrakk> \<Longrightarrow> use_step r w (set_core w k)"
| end_region: "\<lbrakk>\<forall>i n. \<not> live_at (k_node (rt_core (w_rt w))) (rg_AllocationRegistry r') i n;
     rg_AllocationRegistry r' \<noteq> rg_AllocationRegistry r; region_dtor P w r' = Some w'\<rbrakk> \<Longrightarrow> use_step r w w'"
| memory: "use_step r w (w\<lparr>w_mem := m, w_viol := v\<rparr>)"

lemma use_step_session:
  assumes "use_step r w w'"
  shows "session_step w w'"
  using assms
proof cases
  case (memory v m)
  have "w' = w\<lparr>w_mem := m, w_infos := w_infos w, w_viol := v\<rparr>" by (simp add: memory)
  then show ?thesis using session_step.memory [of w v "w_infos w" m] by simp
qed (auto intro: session_step.intros)

text \<open>Slot \<open>s\<close> of the region is that of a record, past or present, and a handle of generation \<open>g\<close> to it is stale.\<close>

definition stale_slot :: "region \<Rightarrow> nat \<Rightarrow> u64 \<Rightarrow> 'e world \<Rightarrow> bool" where
  "stale_slot r s g w \<longleftrightarrow> (\<exists>used cap. shape_at (rt_core (w_rt w)) (rg_AllocationRegistry r) = Some (used, cap)
     \<and> s < used \<and> unat cap < 2 ^ 56)
   \<and> ai_Generation (w_infos w (rg_MetadataMapBase r + of_nat s * sizeof_AccessInfo)) \<noteq> g"

lemma stale_slot_kept:
  assumes "stale_slot r s g w"
    and "shape_at (rt_core (w_rt w')) (rg_AllocationRegistry r) = shape_at (rt_core (w_rt w)) (rg_AllocationRegistry r)"
    and "g \<noteq> 0" and "\<And>a. w_infos w' a = w_infos w a \<or> ai_Generation (w_infos w' a) = 0"
  shows "stale_slot r s g w'"
  using assms unfolding stale_slot_def by metis

lemma slots_differ:
  assumes "s < used" and "used < 2 ^ 56"
  shows "b + of_nat s * sizeof_AccessInfo \<noteq> b + of_nat used * (sizeof_AccessInfo :: u64)"
proof
  assume "b + of_nat s * sizeof_AccessInfo = b + of_nat used * sizeof_AccessInfo"
  then have "unat (of_nat s * sizeof_AccessInfo) = unat (of_nat used * sizeof_AccessInfo)" by simp
  then show False using assms by (simp add: sizeof_AccessInfo_def unat_word_ariths unat_of_nat_64)
qed

lemma use_step_stale:
  assumes step: "use_step r w w'" and inv: "core_inv (rt_core (w_rt w))" and st: "stale_slot r s g w" and g: "g \<noteq> 0"
  shows "stale_slot r s g w'"
proof -
  let ?a = "rg_AllocationRegistry r"
  obtain reg where reg: "k_regs (rt_core (w_rt w)) ?a = Some reg" and s: "s < reg_used reg"
    and cap: "unat (r_NodeCapacity reg) < 2 ^ 56"
    and gen: "ai_Generation (w_infos w (rg_MetadataMapBase r + of_nat s * sizeof_AccessInfo)) \<noteq> g"
    using st by (auto simp: stale_slot_def view_at_def)
  have rinv: "reg_inv x" if "k_regs (rt_core (w_rt w)) a = Some x" for a x
    using core_invD(5) [OF inv] that by (simp add: regs_ok_def)
  note kept = stale_slot_kept [OF st _ g]
  show ?thesis
    using step
  proof cases
    case (make_region registry cap' P self support a sz base r')
    have "k_regs (rt_core (w_rt w')) ?a = k_regs (rt_core (w_rt w)) ?a"
      by (rule region_ctor_core [OF make_region(5,6,1,4)]) (use make_region(2) reg in auto)
    then show ?thesis
      using region_ctor_zones(5) [OF make_region(5,6,1)] by (intro kept) (simp_all add: view_at_def)
  next
    case (allocate P c sizeT alignT n va h)
    have cur: "r_NodeCursor reg \<noteq> - 1" using allocate(3) reg by blast
    obtain reg' where reg': "k_regs (rt_core (w_rt w')) = (k_regs (rt_core (w_rt w)))(?a := Some reg')"
        "r_NodeCapacity reg' = r_NodeCapacity reg" "reg_used reg \<le> reg_used reg'"
      by (rule quiet_allocator.allocate_registry [OF allocate(1,2) reg rinv [OF reg] cur])
    have "region_allocator P" using allocate(1) by (simp add: quiet_allocator_def)
    from region_allocator.allocate_infos [OF this allocate(2) reg rinv [OF reg]]
    have "w_infos w' (rg_MetadataMapBase r + of_nat s * sizeof_AccessInfo)
        = w_infos w (rg_MetadataMapBase r + of_nat s * sizeof_AccessInfo)"
      using slots_differ [OF s] cap by auto
    then show ?thesis using reg' s cap gen by (simp add: stale_slot_def view_at_def)
  next
    case (elsewhere P r' c sizeT alignT n va h reg1 reg2)
    have same: "reg1 = reg" using elsewhere(4) reg by simp
    obtain reg' where reg': "k_regs (rt_core (w_rt w')) = (k_regs (rt_core (w_rt w)))(rg_AllocationRegistry r' := Some reg')"
      by (rule quiet_allocator.allocate_registry [OF elsewhere(1,2,5) rinv [OF elsewhere(5)] elsewhere(6)])
    have "s < unat (r_NodeCapacity reg)" using s by (simp add: reg_used_def)
    then have apart: "rg_MetadataMapBase r + of_nat s * sizeof_AccessInfo \<noteq> rg_MetadataMapBase r' + of_nat j * sizeof_AccessInfo"
      if "j < unat (r_NodeCapacity reg2)" for j
      using elsewhere(7) that by (simp add: maps_apart_def same)
    have "region_allocator P" using elsewhere(1) by (simp add: quiet_allocator_def)
    from region_allocator.allocate_infos [OF this elsewhere(2,5) rinv [OF elsewhere(5)]]
    have "w_infos w' (rg_MetadataMapBase r + of_nat s * sizeof_AccessInfo)
        = w_infos w (rg_MetadataMapBase r + of_nat s * sizeof_AccessInfo)"
      using apart by auto
    then show ?thesis using reg' reg s cap gen elsewhere(3) by (simp add: stale_slot_def view_at_def)
  next
    case (construct P r' c sizeT alignT ctor h ok)
    then show ?thesis
      using construct_accounts [OF construct] construct_infos [OF construct]
      by (intro kept) (simp_all add: view_at_def same_accounts_def)
  next
    case (destroy P r' c sizeT dtor h ok)
    show ?thesis
      using shape.destroy_view [OF inv destroy(2)] destroy_infos [OF destroy(2)] by (intro kept) simp_all
  next
    case (tick k)
    show ?thesis
      using shape.tick_view [OF inv tick(2,3)] by (intro kept) (simp_all add: tick(1) env_simps)
  next
    case (end_region r' P)
    show ?thesis
      using dtor_shape [OF inv end_region(3)] end_region(2) dtor_infos [OF end_region(3)] by (intro kept) simp_all
  next
    case (memory v m)
    then show ?thesis by (intro kept) simp_all
  qed
qed

lemma use_steps:
  assumes "(use_step r)\<^sup>*\<^sup>* w w'" and "core_inv (rt_core (w_rt w))" and "stale_slot r s g w" and "g \<noteq> 0"
  shows "core_inv (rt_core (w_rt w')) \<and> stale_slot r s g w'"
  using assms(1)
proof (induction rule: rtranclp_induct)
  case (step y z)
  then show ?case using session_step_inv [OF use_step_session] use_step_stale [OF step(2) _ _ assms(4)] by blast
qed (use assms in simp)

section \<open>Properties\<close>

text \<open>
  C19: A use after free is detected for ever. Take any reachable state, and a handle to a slot of a region
  that has ever held a record, whose generation is neither zero nor the one stored for the slot (as after
  its block has been destroyed). Let the program go on in any way: allocate (at the same address, too),
  construct and destroy through any handles, create and end other regions, and let the drain thread run;
  only the region itself must not end, its access infos must not overlap those of another region, and
  nobody may write to them but the library. Then every dereference of the handle, by any thread, traps; it
  counts exactly one violation, and, if the thread's violation stack is well formed, what
  \<open>popViolation\<close> returns next is the \<open>UseAfterFree\<close> record of the payload address, thread and time.
\<close>

theorem stale_handle_trapped:
  assumes run: "runtime_init os c (runtime_new e) = Ret rt True" and cap: "is_pow2 (c_QUARANTINE_CAPACITY c)"
    "unat (c_QUARANTINE_CAPACITY c) < 2 ^ 58" and start: "session_step\<^sup>*\<^sup>* (w0\<lparr>w_rt := rt\<rparr>) w1"
    and reg: "k_regs (rt_core (w_rt w1)) (rg_AllocationRegistry r) = Some reg"
    and s: "s < reg_used reg" "unat (r_NodeCapacity reg) < 2 ^ 56"
    and h: "h_MetaPtr h = rg_MetadataMapBase r + of_nat s * sizeof_AccessInfo" "h_MetaPtr h \<noteq> null"
      "h_PayloadPtr h \<noteq> null" "h_Generation h \<noteq> 0"
    and stale: "ai_Generation (w_infos w1 (h_MetaPtr h)) \<noteq> h_Generation h"
    and steps: "(use_step r)\<^sup>*\<^sup>* w1 w"
  shows "\<exists>w'. handle_ptr w c' h = Trap w' \<and> handle_deref w c' h = Trap w'
    \<and> st_TotalViolations (k_stats (rt_core (w_rt w'))) = st_TotalViolations (k_stats (rt_core (w_rt w))) + 1
    \<and> (vs_inv (w_viol w (c_anchor c')) \<longrightarrow> (\<exists>t. popViolation (w_viol w' (c_anchor c'))
        = Some (makeViolation (currentThreadID (c_anchor c')) (c_tsc c') UseAfterFree (h_PayloadPtr h) (h_PayloadPtr h) 0, t)))
    \<and> w_mem w' = w_mem w \<and> w_infos w' = w_infos w"
proof -
  let ?v = "makeViolation (currentThreadID (c_anchor c')) (c_tsc c') UseAfterFree (h_PayloadPtr h) (h_PayloadPtr h) 0"
  let ?w = "report w c' UseAfterFree (h_PayloadPtr h) (h_PayloadPtr h) 0"
  have "stale_slot r s (h_Generation h) w1"
    using reg s stale h(1) by (simp add: stale_slot_def view_at_def)
  then have "stale_slot r s (h_Generation h) w"
    using use_steps [OF steps session_inv [OF run cap start] _ h(4)] by blast
  then have "ai_Generation (w_infos w (h_MetaPtr h)) \<noteq> h_Generation h" by (simp add: stale_slot_def h(1))
  then have "handle_ptr w c' h = Trap ?w" "handle_deref w c' h = Trap ?w"
    using h(2,3) by (simp_all add: handle_ptr_def handle_deref_def handle_check_def)
  moreover have "\<exists>t. popViolation (w_viol ?w (c_anchor c')) = Some (?v, t)" if inv: "vs_inv (w_viol w (c_anchor c'))"
  proof -
    let ?s = "pushViolation (w_viol w (c_anchor c')) ?v"
    have l: "vs_inv ?s" "vs_list ?s \<noteq> []" "hd (vs_list ?s) = ?v"
      using vstk.invar_push [OF inv] vstk.contents_push [OF inv] by simp_all
    then obtain v t where pop: "popViolation ?s = Some (v, t)" using vstk.pop_None [OF l(1)] by (cases "popViolation ?s") auto
    then have "v = ?v" using vstk.pop_Some [OF l(1) pop] l(3) by simp
    then show ?thesis using pop by (simp add: report_def Let_def)
  qed
  ultimately show ?thesis using report_stats [of w c'] report_frame(1,2) [of w c'] by (intro exI [of _ ?w]) simp
qed

text \<open>The object of \<open>session_run\<close> is destroyed, and the drain thread runs once.\<close>

theorem stale_handle_trapped_witness:
  "\<exists>rt w r w' h w1 k. runtime_init os_bounded small_config (runtime_new ()) = Ret rt True
    \<and> region_ctor type_session (world_example\<lparr>w_rt := rt\<rparr>) 256 328 384 320 8192 2 4096 = Ret w r
    \<and> region_allocate type_session r w caller_example 64 16 1 16 = Ret w' h
    \<and> region_destroy type_session r w' caller_example 64 (\<lambda>m p. m) h = Ret w1 True
    \<and> drain_tick (rt_core (w_rt w1)) = Some k
    \<and> (\<exists>w2. handle_ptr (set_core w1 k) caller_example h = Trap w2)"
proof -
  obtain rt w r w' h reg slot where run: "runtime_init os_bounded small_config (runtime_new ()) = Ret rt True"
    "region_ctor type_session (world_example\<lparr>w_rt := rt\<rparr>) 256 328 384 320 8192 2 4096 = Ret w r"
    "region_allocate type_session r w caller_example 64 16 1 16 = Ret w' h" "h_PayloadPtr h = 8208"
    "session_step\<^sup>*\<^sup>* (world_example\<lparr>w_rt := rt\<rparr>) w'"
    "k_regs (rt_core (w_rt w')) (rg_AllocationRegistry r) = Some reg"
    and ep: "k_epoch (rt_core (w_rt w')) = 0"
    and n: "nodeFor r reg h = Some (Some slot)" "reg_holds reg (n_BlockBase (r_nodes reg ! slot)) slot"
    "n_State (r_nodes reg ! slot) = SLive" "n_LiveCount (r_nodes reg ! slot) = 1"
    and h: "h_MetaPtr h = rg_MetadataMapBase r + of_nat slot * sizeof_AccessInfo" "h_MetaPtr h \<noteq> null" "h_Generation h \<noteq> 0"
    and blob: "rg_ShadowBlobPtr r = 65536" and room: "q_list (k_queue (rt_core (w_rt w'))) = []"
      "unat (q_Capacity (k_queue (rt_core (w_rt w')))) = 2" "unat (q_Tail (k_queue (rt_core (w_rt w')))) = 0"
    and two: "r_NodeCapacity reg = 2" by (rule session_run)
  have cap: "is_pow2 (c_QUARANTINE_CAPACITY small_config)" "unat (c_QUARANTINE_CAPACITY small_config) < 2 ^ 58"
    by (simp_all add: small_config_def is_pow2_def)
  note inv = session_inv [OF run(1) cap run(5)]
  have ready: "region_ready (p_os type_session) r w' reg"
    using core_invD [OF inv] placed_address [OF core_ledD(3) [OF core_invD(3) [OF inv]] run(6)] run(6) room
      bounded_resident [OF blob]
    by (simp add: region_ready_def regs_ok_def type_session_def)
  have pol: "p_policy type_session = Strict \<longrightarrow> currentThreadID (c_anchor caller_example) = n_ThreadID (r_nodes reg ! slot)"
    by (simp add: type_session_def type_demo_def)
  obtain w1 reg3 where d: "region_destroy type_session r w' caller_example 64 (\<lambda>m p. m) h = Ret w1 True"
      "k_regs (rt_core (w_rt w1)) (rg_AllocationRegistry r) = Some reg3" "reg_holds reg3 (n_BlockBase (r_nodes reg ! slot)) slot"
      "w_infos w1 = (w_infos w')(h_MetaPtr h := (w_infos w' (h_MetaPtr h))\<lparr>ai_Generation := 0\<rparr>)"
    by (rule region_destroy_final [OF ready n(1-4) pol, where sizeT = 64 and dtor = "\<lambda>m p. m"]) blast
  have tail: "q_Tail (k_queue (rt_core (w_rt w'))) \<noteq> - 1" using room(3) unat_minus_one_64 by auto
  have start: "session_step\<^sup>*\<^sup>* (world_example\<lparr>w_rt := rt\<rparr>) w1"
    using run(5) session_step.destroy [OF tail d(1)] by (rule rtranclp.rtrancl_into_rtrancl)
  have "shape_at (rt_core (w_rt w1)) (rg_AllocationRegistry r) = shape_at (rt_core (w_rt w')) (rg_AllocationRegistry r)"
    using shape.destroy_view [OF inv d(1)] by simp
  then have c3: "unat (r_NodeCapacity reg3) < 2 ^ 56" using run(6) d(2) two by (simp add: view_at_def)
  obtain k where k: "drain_tick (rt_core (w_rt w1)) = Some k" using tick_defined session_inv [OF run(1) cap start] by blast
  have "k_epoch (rt_core (w_rt w1)) = 0" using destroy_epoch [OF inv d(1)] ep by simp
  then have steps: "(use_step r)\<^sup>*\<^sup>* w1 (set_core w1 k)" using use_step.tick [OF _ k] by (intro r_into_rtranclp) simp
  have "slot < reg_used reg3" using d(3) by (simp add: reg_holds_def)
  moreover have "ai_Generation (w_infos w1 (h_MetaPtr h)) \<noteq> h_Generation h" using d(4) h(3) by simp
  moreover have "h_PayloadPtr h \<noteq> null" by (simp add: run(4))
  ultimately show ?thesis
    using stale_handle_trapped [OF run(1) cap start d(2) _ c3 h(1,2) _ h(3) _ steps, of caller_example] run(1-3) d(1) k by blast
qed

end
