(* ===== verification/Spec2Isabelle.thy ===== *)
theory Spec2Isabelle
  imports Kerbecs_QueueSteps Kerbecs_Platforms Kerbecs_RegistrySafe Kerbecs_StaticSession Kerbecs_HandleLife
begin

text \<open>
  Kerbecs, a region-level address sanitizer for C++, modelled from \<open>src/src/Public\<close> and
  \<open>src/src/Private\<close>. A program opts in by taking its objects from a \<open>Region\<close>. What follows says how the
  parts of the library work together, which theory models which part, what the theorems show, and
  what is left out.

  \<^bold>\<open>The program.\<close> A \<open>Region\<close> (\<open>Region.h\<close>) takes blocks from an allocator of the user, wraps each in guard
  bytes (\<open>MemoryLayouts.h\<close>), records it in its \<open>AllocationRegistry\<close> and poisons its bytes in a shadow
  bitmap, one bit per byte. The handle it returns (\<open>ShadowedMemory.h\<close>) carries a generation, which every
  dereference compares with the one stored for the block. \<open>destroy\<close> retires the record, clears that
  generation, tombstones and poisons the object, and, when it was the last one of its block, hands the
  block to the quarantine (\<open>QuarantineQueue.h\<close>), a ring shared by all regions. The runtime
  (\<open>KerbecsRuntime.h\<close>) reserves the memory zone for bitmaps and metadata, and its drain thread advances
  the epoch and flushes the ring; a block's memory is released two epochs after it was queued. Errors
  are pushed on a stack of violations (\<open>Violation.h\<close>) or stop the process.

  \<^bold>\<open>How it is modelled.\<close> Integers keep their width (\<open>64 word\<close> and so on, arithmetic wraps), a pointer is
  its address, memory is a map from addresses to bytes. A struct or class is a record, an enum a
  datatype, an operation a definition that takes the state and returns it updated. An operation that
  can trap has the result type \<open>outcome\<close> (\<open>Ret\<close>, \<open>Trap\<close>, \<open>Undefined\<close>); elsewhere \<open>None\<close> is undefined
  behaviour or a loop that does not end. The state of a process is \<open>world\<close>: the memory, the access
  infos, the violation stack and the \<open>runtime\<close>, whose \<open>kcore\<close> holds the epoch, the statistics, the
  quarantine, the registries by address and the state \<open>'e\<close> of the operating system. The operating
  system, the user's allocator, and the size, constructor and destructor of an object type are not
  code of the repository: they are parameters (\<open>os_api\<close>, \<open>win_api\<close>, \<open>c_heap\<close>, \<open>region_type\<close>). The
  build is the release configuration: \<open>KERBECS_ASSERT\<close> evaluates nothing.

  \<^bold>\<open>The theories\<close>, in the order of the imports:

  \<^item> \<open>Kerbecs_Prelude\<close>: types, byte memory, address ranges, powers of two, the collections of facts.
  \<^item> \<open>Kerbecs_Memory\<close> (\<open>KerbecsMemory.h\<close>, \<open>KerbecsMemory.cpp\<close>): units, alignment, the Linux branches of the
    memory wrappers. \<open>Kerbecs_Platforms\<close>: the Windows and fallback branches, the heap pair, the literal
    operators; the locale \<open>page_backend\<close> is what \<open>commitPageIfNeeded\<close> needs of a platform.
  \<^item> \<open>Kerbecs_Allocators\<close> (\<open>KerbecsAllocators.h\<close>, \<open>.cpp\<close>): the bump allocators; granted blocks are aligned,
    inside the arena and apart, also among threads in the compare-and-swap loop; when \<open>allocate\<close>
    returns. The locale \<open>block_source\<close> is the contract of an arena.
  \<^item> \<open>Kerbecs_Stats\<close>, \<open>Kerbecs_Hash\<close>, \<open>Kerbecs_Checksums\<close>, \<open>Kerbecs_Violation\<close>, \<open>Kerbecs_ShadowUtils\<close>:
    statistics; the three hash accumulators (locales \<open>hash_accumulator\<close>, \<open>mixing_accumulator\<close>); metadata
    checksums, their round trip and what they detect; the violation ring as an evicting stack
    (locale \<open>evicting_stack\<close>); verification of tombstones, redzones and canaries.
  \<^item> \<open>Kerbecs_Registry\<close>, \<open>Kerbecs_RegistryInv\<close> (\<open>RegistryUtils.h\<close>, \<open>AllocationRegistry.h\<close>, \<open>.cpp\<close>): the hash
    table over a pool of nodes, the invariant \<open>reg_inv\<close>, and what each operation does on every branch; the
    locale \<open>allocation_table\<close> is what the clients use of it. \<open>Kerbecs_RegistrySteps\<close> and
    \<open>Kerbecs_RegistrySafe\<close>: \<open>insert\<close>, \<open>beginRetiring\<close> .. \<open>endRetiring\<close> and \<open>retire\<close> by any number of threads, one
    shared access at a time: exclusive retirement, one live record per base, exact live counts.
  \<^item> \<open>Kerbecs_Quarantine\<close>, \<open>Kerbecs_QuarantineSpec\<close> (\<open>QuarantineQueue.h\<close>, \<open>.cpp\<close>): the ring and its flush, refined to
    a bounded FIFO (locale \<open>bounded_fifo\<close>): a flush retires exactly the longest prefix that is due.
    \<open>Kerbecs_QueueSteps\<close>: \<open>enqueue\<close> and \<open>flushEligible\<close> among threads.
  \<^item> \<open>Kerbecs_Retire\<close>: \<open>endRetiring\<close>, the hand-over to the quarantine, and the life cycle of a record.
  \<^item> \<open>Kerbecs_RegionTable\<close> (\<open>RegionRecord.h\<close>, \<open>.cpp\<close>) and \<open>Kerbecs_Runtime\<close> (\<open>KerbecsRuntime.h\<close>, \<open>.cpp\<close>): the table
    of regions; initialisation, partition of the zone, drain loop, teardown.
  \<^item> \<open>Kerbecs_Handle\<close> (\<open>ShadowedMemory.h\<close>): dereference, comparison, arithmetic, \<open>shadowStateOf\<close>.
  \<^item> \<open>Kerbecs_Layouts\<close>, \<open>Kerbecs_LayoutPolicy\<close> (\<open>MemoryLayouts.h\<close>): size, placement and guard checks of the
    three layouts, as instances of the locale \<open>layout_policy\<close>: geometry, no false alarm, damage found.
  \<^item> \<open>Kerbecs_Shadow\<close>, \<open>Kerbecs_Region\<close> (\<open>Region.h\<close>, \<open>MemorySupport.h\<close>): the bitmap; constructor, destructor,
    \<open>allocate\<close>, \<open>construct\<close>, \<open>destroy\<close>. \<open>Kerbecs_RegionSpec\<close>, \<open>Kerbecs_RegionUse\<close>, \<open>Kerbecs_RegionAlloc\<close>,
    \<open>Kerbecs_RegionLife\<close>: what they do, branch by branch, and across calls: a destroyed handle is
    caught, a new allocation never takes the base of a record that is not dead (locale
    \<open>region_allocator\<close>, the contract of a region's allocator).
  \<^item> \<open>Kerbecs_Static\<close>, \<open>Kerbecs_StaticUse\<close> (\<open>KerbecsStatic.h\<close>, \<open>.cpp\<close>): the two process-wide regions, the macros
    that put objects into them and the destructor of such an object.
  \<^item> \<open>Kerbecs_Ledger\<close>, \<open>Kerbecs_Session\<close>, \<open>Kerbecs_SessionUse\<close>: whole programs. \<open>session_step\<close> is one call of an
    operation of any region, with any handle, or one tick of the drain thread. Its invariant
    \<open>core_inv\<close> says that the records of all registries, the quarantine and the statistics agree:
    the accounts are exact, no call gets stuck or writes where it must not, and two ticks bring the library
    to rest. The locale \<open>quiet_allocator\<close> is what an allocator has to leave alone.
  \<^item> \<open>Kerbecs_Views\<close>: what destroying and retiring leave of a registry (locale \<open>registry_view\<close>). \<open>Kerbecs_HandleLife\<close>: a
    handle that has gone stale stays stale, whatever the program does, and every use of it traps.
    \<open>Kerbecs_StaticSession\<close>: the two static regions partition the zones of the runtime; sessions on a region
    over such a zone (locale \<open>zone_region\<close>, which both static regions are): the blocks of all its records,
    dead ones too, stay apart.

  \<^bold>\<open>Bounds and loops.\<close> The walks along a chain (\<open>chain_walk\<close>, \<open>insert_scan\<close>) take the length of the pool as
  fuel; under \<open>reg_inv\<close> a chain is no longer than that, so the fuel never runs out
  (\<open>registry_find_exact\<close>, \<open>registry_insert_exact\<close>). \<open>flush_loop\<close>, \<open>shadow_loop\<close> and the verification loops are
  functions with a measure. The page loop of \<open>allocate\<close> is a partial function, as it does not always
  end (\<open>zone_allocate_terminates\<close>). The drain thread's loop reads a stop flag; \<open>drainLoop\<close> takes the
  list of the values it reads. A spin lock that is held makes \<open>spin_lock\<close> \<open>None\<close>: with one thread it
  would spin for ever. The step relations ask that a ticket, a cursor or an epoch has not been taken
  \<open>2 ^ 64 - 1\<close> times. \<open>session_step\<close> also asks that no record of a region is live when the region ends, which
  the code only asserts: otherwise the statistics would go on counting records that are gone.
  \<open>zone_step\<close> bounds the requests of the program (\<open>lim\<close>) so that the addition in \<open>_bumpReserve\<close> does not wrap,
  which the code does not check.

  \<^bold>\<open>Memory safety of the library itself.\<close> Memory is a total map, so a write to a bad address is not an error of
  the model. \<open>construct\<close> and \<open>destroy\<close> write through the payload pointer of a handle without checking it against
  the record; \<open>may_construct\<close> and \<open>may_destroy\<close> say when that pointer is one of the record's, and
  \<open>session_calls_defined\<close> then says where the calls write (\<open>writes_ok\<close>).

  \<^bold>\<open>Concurrency.\<close> Three parts are modelled as step relations over any number of threads: the bump
  allocator, the quarantine ring and the allocation registry. Steps interleave in sequentially
  consistent order. In the ring the one flusher is part of the state, in place of the lock \<open>m_FlushLock\<close>, so
  that two flushes exclude each other by construction. Elsewhere operations are atomic, and a session is
  any sequence of them.

  \<^bold>\<open>Not modelled.\<close> Memory orders weaker than sequential consistency; threads inside one \<open>Region\<close>
  operation other than through its registry, the ring and the allocators; the start and join of the
  drain thread (flags here) and its 50 ms sleep; the compiler and diagnostics macros
  (\<open>KerbecsCompiler.h\<close>, \<open>KerbecsDiagnostics.h\<close>), which only choose attributes and intrinsics; the concepts of
  \<open>KerbecsEnforcements.h\<close>, which are checked at compile time (the ones in use appear as locales and
  parameters); the debug configuration with its assertions.
\<close>

end
